(* ===== verification/Prelude.thy ===== *)
theory Prelude
  imports Main "HOL-Library.Word"
begin

text \<open>
  Shared vocabulary of the development.

  \<^item> The machine integers of the program (\<open>u16\<close>, \<open>u32\<close>, \<open>u64\<close>, \<open>usize\<close> on a 64-bit
    target) as words of their width, with Rust's saturating operations.
  \<^item> \<open>Duration\<close> and \<open>Instant\<close> as a number of nanoseconds; \<open>saturating_sub\<close> and
    \<open>duration_since\<close> stop at zero, as subtraction on \<open>nat\<close> does.
  \<^item> Rust strings as lists of Unicode code points (\<open>rstr\<close>): \<open>str::chars\<close> is the list
    itself, \<open>str::len\<close> the UTF-8 length, and a literal \<open>''abc''\<close> is read by \<open>lit\<close>.
  \<^item> \<open>Result<T, E>\<close> as the sum \<open>'e + 'a\<close> with \<open>Inl\<close> for \<open>Err\<close>.
  \<^item> The parts of \<open>str\<close>, \<open>slice\<close> and integer parsing that the program uses, with the
    lemmas the components share.
\<close>

named_theorems rfw_defs
  "definitions the component proofs unfold together"
named_theorems str_simps
  "rewrite rules for splitting, printing and parsing strings"

section \<open>Integers and time\<close>

type_synonym u8 = "8 word"
type_synonym u16 = "16 word"
type_synonym u32 = "32 word"
type_synonym u64 = "64 word"
type_synonym duration = nat
type_synonym instant = nat

definition u64_max :: u64 where
  "u64_max = - 1"

definition from_millis :: "nat \<Rightarrow> duration" where
  "from_millis n = n * 1000000"

definition from_secs :: "nat \<Rightarrow> duration" where
  "from_secs n = n * 1000000000"

definition as_secs :: "duration \<Rightarrow> nat" where
  "as_secs d = d div 1000000000"

definition as_millis :: "duration \<Rightarrow> nat" where
  "as_millis d = d div 1000000"

definition sat_sub :: "'a::len word \<Rightarrow> 'a word \<Rightarrow> 'a word" where
  "sat_sub a b = (if b \<le> a then a - b else 0)"

definition sat_add :: "'a::len word \<Rightarrow> 'a word \<Rightarrow> 'a word" where
  "sat_add a b = (if unat a + unat b < 2 ^ LENGTH('a) then a + b else - 1)"

definition sat_mul :: "'a::len word \<Rightarrow> 'a word \<Rightarrow> 'a word" where
  "sat_mul a b = (if unat a * unat b < 2 ^ LENGTH('a) then a * b else - 1)"

lemma unat_sat_sub: "unat (sat_sub a b) = unat a - unat b"
  by (auto simp: sat_sub_def unat_sub word_le_nat_alt)

lemma unat_minus_one_word: "unat (- 1 :: 'a::len word) = 2 ^ LENGTH('a) - 1"
  by (simp add: unsigned_minus_1_eq_mask mask_eq_exp_minus_1)

lemma unat_sat_add: "unat (sat_add a b) = min (unat a + unat b) (2 ^ LENGTH('a) - 1)"
  for a b :: "'a::len word"
proof (cases "unat a + unat b < 2 ^ LENGTH('a)")
  case True
  then show ?thesis
    by (simp add: sat_add_def unat_word_ariths)
next
  case False
  then have "2 ^ LENGTH('a) - 1 < unat a + unat b"
    using zero_less_power [of "2::nat" "LENGTH('a)"] by linarith
  with False show ?thesis
    by (simp add: sat_add_def unat_minus_one_word)
qed

lemma unat_sat_mul: "unat (sat_mul a b) = min (unat a * unat b) (2 ^ LENGTH('a) - 1)"
  for a b :: "'a::len word"
proof (cases "unat a * unat b < 2 ^ LENGTH('a)")
  case True
  then show ?thesis
    by (simp add: sat_mul_def unat_word_ariths)
next
  case False
  then have "2 ^ LENGTH('a) - 1 < unat a * unat b"
    using zero_less_power [of "2::nat" "LENGTH('a)"] by linarith
  with False show ?thesis
    by (simp add: sat_mul_def unat_minus_one_word)
qed

lemma unat_add_le: "unat a + unat b < 2 ^ LENGTH('a) \<Longrightarrow> unat (a + b) = unat a + unat b"
  for a b :: "'a::len word"
  by (simp add: unat_word_ariths)

section \<open>Results\<close>

fun map_err :: "('e \<Rightarrow> 'f) \<Rightarrow> 'e + 'a \<Rightarrow> 'f + 'a" where
  "map_err f (Inl e) = Inl (f e)"
| "map_err f (Inr a) = Inr a"

fun map_ok :: "('a \<Rightarrow> 'b) \<Rightarrow> 'e + 'a \<Rightarrow> 'e + 'b" where
  "map_ok f (Inl e) = Inl e"
| "map_ok f (Inr a) = Inr (f a)"

fun and_then :: "'e + 'a \<Rightarrow> ('a \<Rightarrow> 'e + 'b) \<Rightarrow> 'e + 'b" where
  "and_then (Inl e) f = Inl e"
| "and_then (Inr a) f = f a"

fun is_ok :: "'e + 'a \<Rightarrow> bool" where
  "is_ok (Inl e) = False"
| "is_ok (Inr a) = True"

text \<open>\<open>iter.collect::<Result<Vec<_>, _>>()\<close>: the first error wins.\<close>

fun collect_results :: "('e + 'a) list \<Rightarrow> 'e + 'a list" where
  "collect_results [] = Inr []"
| "collect_results (r # rs) =
     and_then r (\<lambda>a. and_then (collect_results rs) (\<lambda>as. Inr (a # as)))"

lemma map_err_Inr [simp]: "map_err f r = Inr a \<longleftrightarrow> r = Inr a"
  by (cases r) auto

lemma and_then_Inr: "and_then r f = Inr b \<longleftrightarrow> (\<exists>a. r = Inr a \<and> f a = Inr b)"
  by (cases r) auto

lemma and_then_Inl: "and_then r f = Inl e \<longleftrightarrow> r = Inl e \<or> (\<exists>a. r = Inr a \<and> f a = Inl e)"
  by (cases r) auto

lemma collect_results_Inr:
  "collect_results rs = Inr as \<longleftrightarrow> rs = map Inr as"
  by (induction rs arbitrary: as) (auto simp: and_then_Inr)

section \<open>Strings\<close>

type_synonym rstr = "nat list"

definition lit :: "string \<Rightarrow> rstr" where
  "lit s = map of_char s"

lemma lit_Nil [simp]: "lit [] = []"
  by (simp add: lit_def)

lemma lit_Cons [simp]: "lit (c # cs) = of_char c # lit cs"
  by (simp add: lit_def)

abbreviation (input) ch :: "char \<Rightarrow> nat" where
  "ch c \<equiv> of_char c"

definition is_ascii_digit :: "nat \<Rightarrow> bool" where
  "is_ascii_digit c \<longleftrightarrow> 48 \<le> c \<and> c \<le> 57"

text \<open>\<open>char::is_control\<close>: the Unicode category Cc.\<close>

definition is_control :: "nat \<Rightarrow> bool" where
  "is_control c \<longleftrightarrow> c < 32 \<or> (127 \<le> c \<and> c < 160)"

text \<open>\<open>char::is_whitespace\<close>: the Unicode property \<open>White_Space\<close>.\<close>

definition is_whitespace :: "nat \<Rightarrow> bool" where
  "is_whitespace c \<longleftrightarrow> (9 \<le> c \<and> c \<le> 13) \<or> c = 32 \<or> c = 0x85 \<or> c = 0xA0 \<or> c = 0x1680
     \<or> (0x2000 \<le> c \<and> c \<le> 0x200A) \<or> c = 0x2028 \<or> c = 0x2029 \<or> c = 0x202F
     \<or> c = 0x205F \<or> c = 0x3000"

definition trim_start :: "rstr \<Rightarrow> rstr" where
  "trim_start s = dropWhile is_whitespace s"

definition trim :: "rstr \<Rightarrow> rstr" where
  "trim s = rev (trim_start (rev (trim_start s)))"

text \<open>Bytes a code point takes in UTF-8, and \<open>str::len\<close>.\<close>

definition utf8_len :: "nat \<Rightarrow> nat" where
  "utf8_len c = (if c < 0x80 then 1 else if c < 0x800 then 2 else if c < 0x10000 then 3 else 4)"

definition str_len :: "rstr \<Rightarrow> nat" where
  "str_len s = sum_list (map utf8_len s)"

definition to_ascii_lower :: "nat \<Rightarrow> nat" where
  "to_ascii_lower c = (if 65 \<le> c \<and> c \<le> 90 then c + 32 else c)"

definition eq_ignore_ascii_case :: "rstr \<Rightarrow> rstr \<Rightarrow> bool" where
  "eq_ignore_ascii_case a b \<longleftrightarrow> map to_ascii_lower a = map to_ascii_lower b"

text \<open>\<open>split_once\<close>, \<open>rsplit_once\<close> and \<open>split\<close> with a single character as pattern.\<close>

fun split_once :: "nat \<Rightarrow> rstr \<Rightarrow> (rstr \<times> rstr) option" where
  "split_once c [] = None"
| "split_once c (x # xs) =
     (if x = c then Some ([], xs)
      else case split_once c xs of None \<Rightarrow> None | Some (a, b) \<Rightarrow> Some (x # a, b))"

definition rsplit_once :: "nat \<Rightarrow> rstr \<Rightarrow> (rstr \<times> rstr) option" where
  "rsplit_once c s =
     (case split_once c (rev s) of None \<Rightarrow> None | Some (a, b) \<Rightarrow> Some (rev b, rev a))"

fun split_str :: "nat \<Rightarrow> rstr \<Rightarrow> rstr list" where
  "split_str c [] = [[]]"
| "split_str c (x # xs) =
     (if x = c then [] # split_str c xs
      else case split_str c xs of [] \<Rightarrow> [[x]] | p # ps \<Rightarrow> (x # p) # ps)"

fun strip_prefix :: "rstr \<Rightarrow> rstr \<Rightarrow> rstr option" where
  "strip_prefix [] s = Some s"
| "strip_prefix (p # ps) [] = None"
| "strip_prefix (p # ps) (x # xs) = (if p = x then strip_prefix ps xs else None)"

fun join_str :: "rstr \<Rightarrow> rstr list \<Rightarrow> rstr" where
  "join_str sep [] = []"
| "join_str sep [x] = x"
| "join_str sep (x # y # ys) = x @ sep @ join_str sep (y # ys)"

lemma split_once_None [str_simps]: "split_once c s = None \<longleftrightarrow> c \<notin> set s"
  by (induction s) (auto split: option.splits)

lemma split_once_append [str_simps]: "c \<notin> set a \<Longrightarrow> split_once c (a @ c # b) = Some (a, b)"
  by (induction a) auto

lemma split_once_Some: "split_once c s = Some (a, b) \<longleftrightarrow> s = a @ c # b \<and> c \<notin> set a"
proof
  show "split_once c s = Some (a, b) \<Longrightarrow> s = a @ c # b \<and> c \<notin> set a"
    by (induction s arbitrary: a) (auto split: if_splits option.splits)
qed (auto simp: split_once_append)

lemma rsplit_once_None [str_simps]: "rsplit_once c s = None \<longleftrightarrow> c \<notin> set s"
  by (auto simp: rsplit_once_def split_once_None split: option.splits)
    (metis option.simps(3) set_rev split_once_None)

lemma rsplit_once_append [str_simps]:
  assumes "c \<notin> set b"
  shows "rsplit_once c (a @ c # b) = Some (a, b)"
proof -
  have "split_once c (rev b @ c # rev a) = Some (rev b, rev a)"
    using assms by (simp add: split_once_append)
  then show ?thesis by (simp add: rsplit_once_def)
qed

lemma split_str_nonempty [simp]: "split_str c s \<noteq> []"
  by (induction s) (auto split: list.splits)

lemma split_str_none [str_simps]: "c \<notin> set s \<Longrightarrow> split_str c s = [s]"
  by (induction s) auto

lemma split_str_append [str_simps]:
  "c \<notin> set a \<Longrightarrow> split_str c (a @ c # b) = a # split_str c b"
  by (induction a) auto

subsection \<open>Decimal numbers\<close>

fun show_nat :: "nat \<Rightarrow> rstr" where
  "show_nat n = (if n < 10 then [48 + n] else show_nat (n div 10) @ [48 + n mod 10])"

declare show_nat.simps [simp del]

text \<open>\<open>{:02}\<close> and \<open>{:04}\<close>: pad with zeros on the left to a width.\<close>

definition pad_zero :: "nat \<Rightarrow> rstr \<Rightarrow> rstr" where
  "pad_zero w s = replicate (w - length s) 48 @ s"

datatype int_error = IntEmpty | IntInvalidDigit | IntPosOverflow

text \<open>
  \<open><uN as FromStr>::from_str\<close>: an optional \<open>+\<close>, then decimal digits; a digit is checked
  before the overflow of the value it completes.
\<close>

fun parse_digits :: "nat \<Rightarrow> nat \<Rightarrow> rstr \<Rightarrow> int_error + nat" where
  "parse_digits mx acc [] = Inr acc"
| "parse_digits mx acc (c # cs) =
     (if \<not> is_ascii_digit c then Inl IntInvalidDigit
      else if acc * 10 + (c - 48) > mx then Inl IntPosOverflow
      else parse_digits mx (acc * 10 + (c - 48)) cs)"

definition parse_uint :: "nat \<Rightarrow> rstr \<Rightarrow> int_error + nat" where
  "parse_uint mx s =
     (case s of
        [] \<Rightarrow> Inl IntEmpty
      | c # cs \<Rightarrow>
          if c = ch (CHR ''+'') then (if cs = [] then Inl IntInvalidDigit else parse_digits mx 0 cs)
          else parse_digits mx 0 s)"

definition parse_u16 :: "rstr \<Rightarrow> int_error + u16" where
  "parse_u16 s = map_ok of_nat (parse_uint 65535 s)"

definition parse_u64 :: "rstr \<Rightarrow> int_error + nat" where
  "parse_u64 s = parse_uint (2 ^ 64 - 1) s"

lemma show_nat_nonempty [simp]: "show_nat n \<noteq> []"
  by (subst show_nat.simps) simp

lemma show_nat_digits: "\<forall>c \<in> set (show_nat n). is_ascii_digit c"
proof (induction n rule: show_nat.induct)
  case (1 n)
  show ?case
  proof (cases "n < 10")
    case True
    then show ?thesis by (subst show_nat.simps) (simp add: is_ascii_digit_def)
  next
    case False
    with 1 have "\<forall>c \<in> set (show_nat (n div 10)). is_ascii_digit c" by simp
    with False show ?thesis by (subst show_nat.simps) (auto simp: is_ascii_digit_def)
  qed
qed

lemma show_nat_notin [str_simps]: "\<not> is_ascii_digit c \<Longrightarrow> c \<notin> set (show_nat n)"
  using show_nat_digits by blast

lemma parse_digits_append:
  "parse_digits mx acc (xs @ ys) = and_then (parse_digits mx acc xs) (\<lambda>a. parse_digits mx a ys)"
  by (induction xs arbitrary: acc) auto

lemma parse_digits_show [str_simps]: "n \<le> mx \<Longrightarrow> parse_digits mx 0 (show_nat n) = Inr n"
proof (induction n rule: show_nat.induct)
  case (1 n)
  show ?case
  proof (cases "n < 10")
    case True
    with 1(2) show ?thesis by (subst show_nat.simps) (simp add: is_ascii_digit_def)
  next
    case False
    have "n div 10 \<le> mx" using 1(2) by linarith
    with 1(1) False have "parse_digits mx 0 (show_nat (n div 10)) = Inr (n div 10)" by simp
    with False 1(2) show ?thesis
      by (subst show_nat.simps) (simp add: parse_digits_append is_ascii_digit_def)
  qed
qed

lemma parse_uint_show [str_simps]: "n \<le> mx \<Longrightarrow> parse_uint mx (show_nat n) = Inr n"
proof -
  assume n: "n \<le> mx"
  obtain c cs where s: "show_nat n = c # cs" by (cases "show_nat n") auto
  then have "is_ascii_digit c" using show_nat_digits [of n] by simp
  then have "c \<noteq> ch (CHR ''+'')" by (simp add: is_ascii_digit_def)
  with s n show ?thesis
    using parse_digits_show [OF n] by (simp add: parse_uint_def)
qed

lemma show_nat_inject [simp]: "show_nat a = show_nat b \<longleftrightarrow> a = b"
proof
  assume eq: "show_nat a = show_nat b"
  have a: "parse_uint (max a b) (show_nat a) = Inr a"
    by (rule parse_uint_show) simp
  have "parse_uint (max a b) (show_nat b) = Inr b"
    by (rule parse_uint_show) simp
  with a show "a = b" unfolding eq by simp
qed simp

lemma parse_u16_show [str_simps]: "parse_u16 (show_nat (unat p)) = Inr p"
proof -
  have "unat p \<le> 65535" using unsigned_less [of p, where ?'a = nat] by simp
  then show ?thesis by (simp add: parse_u16_def parse_uint_show)
qed

section \<open>Lists\<close>

text \<open>\<open>sort_unstable\<close> followed by \<open>dedup\<close>: the sorted list without duplicates.\<close>

definition sort_dedup :: "'a::linorder list \<Rightarrow> 'a list" where
  "sort_dedup xs = remdups_adj (sort xs)"

lemma set_sort_dedup [simp]: "set (sort_dedup xs) = set xs"
  by (simp add: sort_dedup_def)

lemma sorted_sort_dedup [simp]: "sorted (sort_dedup xs)"
  by (simp add: sort_dedup_def)

lemma distinct_of_sorted_distinct_adj: "sorted xs \<Longrightarrow> distinct_adj xs \<Longrightarrow> distinct xs"
proof (induction xs)
  case (Cons x xs)
  then show ?case by (cases xs) (auto simp: distinct_adj_Cons)
qed simp

lemma distinct_sort_dedup [simp]: "distinct (sort_dedup xs)"
  by (simp add: sort_dedup_def distinct_of_sorted_distinct_adj)

lemma sort_dedup_eq_iff: "sort_dedup xs = sort_dedup ys \<longleftrightarrow> set xs = set ys"
proof
  assume "sort_dedup xs = sort_dedup ys"
  then have "set (sort_dedup xs) = set (sort_dedup ys)" by simp
  then show "set xs = set ys" by simp
next
  assume "set xs = set ys"
  then show "sort_dedup xs = sort_dedup ys"
    by (intro sorted_distinct_set_unique) auto
qed

lemma sort_dedup_idem [simp]: "sort_dedup (sort_dedup xs) = sort_dedup xs"
  by (simp add: sort_dedup_eq_iff)

lemma sort_dedup_Nil_iff [simp]: "sort_dedup xs = [] \<longleftrightarrow> xs = []"
  by (metis set_sort_dedup set_empty)

text \<open>Counting the elements of a list that satisfy a predicate, under removal and update.\<close>

lemma length_filter_remove_nth:
  assumes "i < length xs"
  shows "length (filter P (take i xs @ drop (Suc i) xs)) + (if P (xs ! i) then 1 else 0) = length (filter P xs)"
proof -
  have "filter P xs = filter P (take i xs @ xs ! i # drop (Suc i) xs)"
    using id_take_nth_drop [OF assms] by simp
  then show ?thesis by simp
qed

lemma length_filter_update_nth:
  assumes "i < length xs"
  shows "length (filter P (xs[i := x])) + (if P (xs ! i) then 1 else 0)
    = length (filter P xs) + (if P x then 1 else 0)"
proof -
  have "filter P xs = filter P (take i xs @ xs ! i # drop (Suc i) xs)"
    using id_take_nth_drop [OF assms] by simp
  then show ?thesis using assms by (simp add: upd_conv_take_nth_drop)
qed

end
