(* ===== verification/Config_Ports.thy ===== *)
theory Config_Ports
  imports Prelude
begin

text \<open>
  The forwarder entries of \<open>src/src/config.rs\<close>: protocols, port spans, the entry syntax of
  the command line and the environment, the YAML entry, the expansion of ranges into
  single-port forwarders and the two duplicate checks.

  Shown here: what a span parser accepts, that printing and parsing are inverse, that every
  entry that any front end builds is well formed, that a well-formed entry expands port for
  port without wrapping, and that the expansion succeeds exactly when no local endpoint is
  claimed twice.
\<close>

section \<open>Data\<close>

datatype protocol = Tcp | Udp

fun as_str :: "protocol \<Rightarrow> rstr" where
  "as_str Tcp = lit ''tcp''"
| "as_str Udp = lit ''udp''"

record forwarder_config =
  fc_local_host :: rstr
  fc_local_port :: u16
  fc_remote_host :: rstr
  fc_remote_port :: u16
  fc_protocol :: protocol

definition fc_label :: "forwarder_config \<Rightarrow> rstr" where
  "fc_label c =
     (let base = fc_local_host c @ lit '':'' @ show_nat (unat (fc_local_port c)) @ lit ''->''
                   @ fc_remote_host c @ lit '':'' @ show_nat (unat (fc_remote_port c))
      in case fc_protocol c of
           Tcp \<Rightarrow> base
         | Udp \<Rightarrow> base @ lit ''/'' @ as_str (fc_protocol c))"

definition fc_local_addr :: "forwarder_config \<Rightarrow> rstr" where
  "fc_local_addr c = fc_local_host c @ lit '':'' @ show_nat (unat (fc_local_port c))"

definition MAX_RANGE_PORTS :: nat where
  "MAX_RANGE_PORTS = 4096"

record port_span =
  ps_start :: u16
  ps_end :: u16

record forwarder_spec =
  fs_local_host :: rstr
  fs_local :: port_span
  fs_remote_host :: rstr
  fs_remote :: port_span
  fs_protocol :: protocol

text \<open>The errors of this component, one constructor per \<open>Err\<close> site with its arguments.\<close>

datatype range_error = PortZero | StartGtEnd u16 u16 | TooManyPorts nat

datatype spec_error =
    InvalidPort rstr rstr int_error
  | RangeNotNumber rstr rstr rstr
  | RangeBound rstr rstr int_error
  | InvalidRange rstr rstr range_error
  | LengthMismatch rstr port_span port_span
  | UnknownSuffix rstr rstr
  | InvalidFormat rstr
  | YamlLocalRange u16 u16 rstr range_error
  | YamlRemoteEndAlone rstr u16
  | YamlPastEnd rstr nat u16
  | YamlRemoteRange u16 u16 rstr range_error
  | ListedTwice rstr rstr
  | DefinedByBoth rstr rstr rstr
  | DuplicateAddr rstr

section \<open>Port spans\<close>

definition ps_single :: "u16 \<Rightarrow> port_span" where
  "ps_single p = \<lparr>ps_start = p, ps_end = p\<rparr>"

definition ps_len :: "port_span \<Rightarrow> nat" where
  "ps_len s = unat (ps_end s - ps_start s) + 1"

definition ps_range :: "u16 \<Rightarrow> u16 \<Rightarrow> range_error + port_span" where
  "ps_range start end =
     (if start = 0 then Inl PortZero
      else if start > end then Inl (StartGtEnd start end)
      else let span = \<lparr>ps_start = start, ps_end = end\<rparr>
           in if ps_len span > MAX_RANGE_PORTS then Inl (TooManyPorts (ps_len span))
              else Inr span)"

definition ps_bound :: "rstr \<Rightarrow> rstr \<Rightarrow> rstr \<Rightarrow> spec_error + u16" where
  "ps_bound raw what s =
     (if s = [] \<or> \<not> list_all is_ascii_digit s then Inl (RangeNotNumber what raw s)
      else map_err (RangeBound what raw) (parse_u16 s))"

definition ps_parse :: "rstr \<Rightarrow> rstr \<Rightarrow> spec_error + port_span" where
  "ps_parse raw what =
     (case split_once (ch (CHR ''-'')) raw of
        None \<Rightarrow> map_err (InvalidPort what raw) (map_ok ps_single (parse_u16 raw))
      | Some (fst_part, snd_part) \<Rightarrow>
          and_then (ps_bound raw what fst_part) (\<lambda>a.
          and_then (ps_bound raw what snd_part) (\<lambda>b.
          map_err (InvalidRange what raw) (ps_range a b))))"

definition ps_fmt :: "port_span \<Rightarrow> rstr" where
  "ps_fmt s =
     (if ps_start s = ps_end s then show_nat (unat (ps_start s))
      else show_nat (unat (ps_start s)) @ lit ''-'' @ show_nat (unat (ps_end s)))"

section \<open>Entries\<close>

definition fs_describe :: "forwarder_spec \<Rightarrow> rstr" where
  "fs_describe s =
     (let base = fs_local_host s @ lit '':'' @ ps_fmt (fs_local s) @ lit ''->''
                   @ fs_remote_host s @ lit '':'' @ ps_fmt (fs_remote s)
      in case fs_protocol s of
           Tcp \<Rightarrow> base
         | Udp \<Rightarrow> base @ lit ''/'' @ as_str (fs_protocol s))"

definition fs_new :: "rstr \<Rightarrow> port_span \<Rightarrow> rstr \<Rightarrow> port_span \<Rightarrow> protocol \<Rightarrow> spec_error + forwarder_spec" where
  "fs_new local_host local remote_host remote proto =
     (let spec = \<lparr>fs_local_host = local_host, fs_local = local,
                  fs_remote_host = remote_host, fs_remote = remote, fs_protocol = proto\<rparr>
      in if ps_len local \<noteq> ps_len remote
         then Inl (LengthMismatch (fs_describe spec) local remote)
         else Inr spec)"

definition fs_expand :: "forwarder_spec \<Rightarrow> forwarder_config list" where
  "fs_expand s =
     map (\<lambda>k. let offset = of_nat k :: u16 in
            \<lparr>fc_local_host = fs_local_host s, fc_local_port = ps_start (fs_local s) + offset,
             fc_remote_host = fs_remote_host s, fc_remote_port = ps_start (fs_remote s) + offset,
             fc_protocol = fs_protocol s\<rparr>)
       [0 ..< unat (of_nat (ps_len (fs_local s)) :: u16)]"

definition parse_forwarder_spec :: "rstr \<Rightarrow> spec_error + forwarder_spec" where
  "parse_forwarder_spec s =
     and_then
       (case rsplit_once (ch (CHR ''/'')) s of
          None \<Rightarrow> Inr (s, Tcp)
        | Some (body, suffix) \<Rightarrow>
            if eq_ignore_ascii_case suffix (lit ''tcp'') then Inr (body, Tcp)
            else if eq_ignore_ascii_case suffix (lit ''udp'') then Inr (body, Udp)
            else Inl (UnknownSuffix suffix s))
       (\<lambda>(body, proto).
          let parts = split_str (ch (CHR '':'')) body in
          if length parts \<noteq> 4 then Inl (InvalidFormat s)
          else and_then (ps_parse (parts ! 1) (lit ''local'')) (\<lambda>local.
               and_then (ps_parse (parts ! 3) (lit ''remote'')) (\<lambda>remote.
               fs_new (parts ! 0) local (parts ! 2) remote proto)))"

record raw_forwarder =
  rf_local_host :: rstr
  rf_local_port :: u16
  rf_local_port_end :: "u16 option"
  rf_remote_host :: rstr
  rf_remote_port :: u16
  rf_remote_port_end :: "u16 option"
  rf_protocol :: protocol

definition into_spec :: "raw_forwarder \<Rightarrow> spec_error + forwarder_spec" where
  "into_spec r =
     (let shown = rf_local_host r @ lit '':'' @ show_nat (unat (rf_local_port r)) in
      and_then
        (case rf_local_port_end r of
           None \<Rightarrow> Inr (ps_single (rf_local_port r))
         | Some end \<Rightarrow>
             map_err (YamlLocalRange (rf_local_port r) end shown) (ps_range (rf_local_port r) end))
        (\<lambda>local.
      and_then
        (case (rf_local_port_end r, rf_remote_port_end r) of
           (None, None) \<Rightarrow> Inr (ps_single (rf_remote_port r))
         | (None, Some end) \<Rightarrow> Inl (YamlRemoteEndAlone shown end)
         | (Some _, explicit) \<Rightarrow>
             and_then
               (case explicit of
                  Some end \<Rightarrow> Inr end
                | None \<Rightarrow>
                    let lst = unat (rf_remote_port r) + ps_len local - 1
                    in if lst \<le> 65535 then Inr (of_nat lst)
                       else Inl (YamlPastEnd shown (ps_len local) (rf_remote_port r)))
               (\<lambda>end. map_err (YamlRemoteRange (rf_remote_port r) end shown)
                        (ps_range (rf_remote_port r) end)))
        (\<lambda>remote.
      fs_new (rf_local_host r) local (rf_remote_host r) remote (rf_protocol r))))"

section \<open>Expansion and duplicate checks\<close>

type_synonym owner_map = "protocol \<times> rstr \<times> u16 \<rightharpoonup> nat"

text \<open>The message for a local endpoint that entry \<open>b\<close> claims after entry \<open>a\<close>.\<close>

definition dup_error :: "forwarder_spec \<Rightarrow> forwarder_spec \<Rightarrow> u16 \<Rightarrow> spec_error" where
  "dup_error first spec port =
     (let base = fs_local_host spec @ lit '':'' @ show_nat (unat port);
          addr = (case fs_protocol spec of Tcp \<Rightarrow> base | Udp \<Rightarrow> base @ lit ''/udp'');
          a = fs_describe first;
          b = fs_describe spec
      in if a = b then ListedTwice addr a else DefinedByBoth addr a b)"

text \<open>The inner loop of \<open>expand_specs\<close>: claim every local port of entry \<open>index\<close>.\<close>

fun claim_ports ::
  "forwarder_spec list \<Rightarrow> nat \<Rightarrow> forwarder_spec \<Rightarrow> u16 list \<Rightarrow> owner_map \<Rightarrow> spec_error + owner_map"
where
  "claim_ports specs index spec [] owner = Inr owner"
| "claim_ports specs index spec (port # ports) owner =
     (let key = (fs_protocol spec, fs_local_host spec, port) in
      case owner key of
        Some first \<Rightarrow> Inl (dup_error (specs ! first) spec port)
      | None \<Rightarrow> claim_ports specs index spec ports (owner(key \<mapsto> index)))"

definition span_ports :: "port_span \<Rightarrow> u16 list" where
  "span_ports s = map of_nat [unat (ps_start s) ..< Suc (unat (ps_end s))]"

fun expand_loop ::
  "forwarder_spec list \<Rightarrow> nat \<Rightarrow> forwarder_spec list \<Rightarrow> owner_map \<Rightarrow> forwarder_config list
     \<Rightarrow> spec_error + forwarder_config list"
where
  "expand_loop specs index [] owner out = Inr out"
| "expand_loop specs index (spec # rest) owner out =
     and_then (claim_ports specs index spec (span_ports (fs_local spec)) owner) (\<lambda>owner'.
       expand_loop specs (Suc index) rest owner' (out @ fs_expand spec))"

definition expand_specs :: "forwarder_spec list \<Rightarrow> spec_error + forwarder_config list" where
  "expand_specs specs = expand_loop specs 0 specs Map.empty []"

text \<open>The check of \<open>validate_no_duplicates\<close>, whose key is the printed address.\<close>

fun no_dup_loop :: "(protocol \<times> rstr) set \<Rightarrow> forwarder_config list \<Rightarrow> spec_error + unit" where
  "no_dup_loop seen [] = Inr ()"
| "no_dup_loop seen (f # fs) =
     (let addr = fc_local_addr f in
      if (fc_protocol f, addr) \<in> seen
      then Inl (DuplicateAddr (case fc_protocol f of Tcp \<Rightarrow> addr | Udp \<Rightarrow> addr @ lit ''/udp''))
      else no_dup_loop (insert (fc_protocol f, addr) seen) fs)"

definition validate_no_duplicates :: "forwarder_config list \<Rightarrow> spec_error + unit" where
  "validate_no_duplicates fwd = no_dup_loop {} fwd"

section \<open>Spans: bounds, acceptance, printing\<close>

definition wf_span :: "port_span \<Rightarrow> bool" where
  "wf_span s \<longleftrightarrow> ps_start s = ps_end s
     \<or> (ps_start s \<noteq> 0 \<and> ps_start s < ps_end s \<and> ps_len s \<le> MAX_RANGE_PORTS)"

definition wf_spec :: "forwarder_spec \<Rightarrow> bool" where
  "wf_spec s \<longleftrightarrow> wf_span (fs_local s) \<and> wf_span (fs_remote s)
     \<and> ps_len (fs_local s) = ps_len (fs_remote s)"

lemma u16_less: "unat (p :: u16) < 65536"
  using unsigned_less [of p, where ?'a = nat] by simp

lemma ps_len_eq: "ps_start s \<le> ps_end s \<Longrightarrow> ps_len s = Suc (unat (ps_end s) - unat (ps_start s))"
  by (simp add: ps_len_def unat_sub word_le_nat_alt)

lemma wf_span_le: "wf_span s \<Longrightarrow> ps_start s \<le> ps_end s"
  by (auto simp: wf_span_def)

lemma wf_span_len: "wf_span s \<Longrightarrow> ps_len s \<le> MAX_RANGE_PORTS"
  by (auto simp: wf_span_def ps_len_def MAX_RANGE_PORTS_def)

lemma wf_single [simp]: "wf_span (ps_single p)"
  by (simp add: wf_span_def ps_single_def)

lemma ps_len_single [simp]: "ps_len (ps_single p) = 1"
  by (simp add: ps_len_def ps_single_def)

lemma ps_range_Inr:
  "ps_range a b = Inr s \<longleftrightarrow>
     a \<noteq> 0 \<and> a \<le> b \<and> unat b - unat a < MAX_RANGE_PORTS \<and> s = \<lparr>ps_start = a, ps_end = b\<rparr>"
  by (auto simp: ps_range_def ps_len_eq Let_def not_less split: if_splits)

lemma ps_range_wf: "ps_range a b = Inr s \<Longrightarrow> wf_span s"
  by (auto simp: ps_range_Inr wf_span_def ps_len_eq order_less_le)

lemma ps_range_of_wf: "wf_span s \<Longrightarrow> ps_start s \<noteq> ps_end s \<Longrightarrow> ps_range (ps_start s) (ps_end s) = Inr s"
  by (auto simp: ps_range_Inr wf_span_def ps_len_eq)

lemma ps_parse_wf: "ps_parse raw what = Inr s \<Longrightarrow> wf_span s"
proof -
  assume p: "ps_parse raw what = Inr s"
  show ?thesis
  proof (cases "split_once (ch (CHR ''-'')) raw")
    case None
    with p obtain q where "s = ps_single q"
      by (cases "parse_u16 raw") (auto simp: ps_parse_def)
    then show ?thesis by simp
  next
    case (Some ab)
    with p obtain a b where "ps_range a b = Inr s"
      by (cases ab) (auto simp: ps_parse_def and_then_Inr)
    then show ?thesis by (rule ps_range_wf)
  qed
qed

lemma ps_bound_show: "ps_bound raw what (show_nat (unat p)) = Inr p"
proof -
  have "list_all is_ascii_digit (show_nat (unat p))"
    using show_nat_digits by (simp add: list_all_iff)
  then show ?thesis by (simp add: ps_bound_def parse_u16_show)
qed

lemma show_nat_no_dash: "45 \<notin> set (show_nat n)"
  by (rule show_nat_notin) (simp add: is_ascii_digit_def)

lemma show_nat_no_colon: "58 \<notin> set (show_nat n)"
  by (rule show_nat_notin) (simp add: is_ascii_digit_def)

lemma show_nat_no_slash: "47 \<notin> set (show_nat n)"
  by (rule show_nat_notin) (simp add: is_ascii_digit_def)

lemmas show_nat_plain [simp] = show_nat_no_dash show_nat_no_colon show_nat_no_slash

lemma ps_parse_fmt:
  assumes "wf_span s"
  shows "ps_parse (ps_fmt s) what = Inr s"
proof (cases "ps_start s = ps_end s")
  case True
  then have "s = ps_single (ps_end s)" by (simp add: ps_single_def)
  with True show ?thesis
    by (simp add: ps_parse_def ps_fmt_def parse_u16_show split_once_None [THEN iffD2])
next
  case False
  have "ps_range (ps_start s) (ps_end s) = Inr s"
    using assms False by (rule ps_range_of_wf)
  with False show ?thesis
    by (simp add: ps_parse_def ps_fmt_def split_once_append ps_bound_show)
qed

section \<open>Entries: every front end builds well-formed entries\<close>

lemma fs_new_Inr:
  "fs_new lh l rh r p = Inr s \<longleftrightarrow> ps_len l = ps_len r \<and>
     s = \<lparr>fs_local_host = lh, fs_local = l, fs_remote_host = rh, fs_remote = r, fs_protocol = p\<rparr>"
  by (auto simp: fs_new_def Let_def)

lemma parse_forwarder_spec_wf: "parse_forwarder_spec s = Inr spec \<Longrightarrow> wf_spec spec"
  by (auto simp: parse_forwarder_spec_def and_then_Inr fs_new_Inr wf_spec_def
      Let_def dest: ps_parse_wf split: if_splits)

lemma into_spec_wf: "into_spec r = Inr spec \<Longrightarrow> wf_spec spec"
  by (auto simp: into_spec_def Let_def and_then_Inr fs_new_Inr wf_spec_def
      intro: ps_range_wf split: option.splits if_splits)
    (blast intro: ps_range_wf)+

section \<open>Expansion\<close>

definition endpoint :: "forwarder_config \<Rightarrow> protocol \<times> rstr \<times> u16" where
  "endpoint c = (fc_protocol c, fc_local_host c, fc_local_port c)"

definition spec_keys :: "forwarder_spec \<Rightarrow> (protocol \<times> rstr \<times> u16) list" where
  "spec_keys s = map (\<lambda>p. (fs_protocol s, fs_local_host s, p)) (span_ports (fs_local s))"

lemma distinct_span_ports [simp]: "distinct (span_ports s)"
proof -
  have "inj_on (of_nat :: nat \<Rightarrow> u16) {unat (ps_start s) ..< Suc (unat (ps_end s))}"
  proof (rule inj_onI)
    fix x y
    assume "x \<in> {unat (ps_start s) ..< Suc (unat (ps_end s))}"
      "y \<in> {unat (ps_start s) ..< Suc (unat (ps_end s))}"
    then have "x < 65536" "y < 65536"
      using u16_less [of "ps_end s"] by auto
    moreover assume "(of_nat x :: u16) = of_nat y"
    ultimately show "x = y"
      by (simp add: word_of_nat_eq_iff take_bit_nat_eq_self)
  qed
  then show ?thesis by (simp add: span_ports_def distinct_map del: upt_Suc)
qed

lemma span_ports_eq:
  assumes "ps_start s \<le> ps_end s"
  shows "span_ports s = map (\<lambda>k. ps_start s + of_nat k) [0 ..< ps_len s]"
proof -
  have le: "unat (ps_start s) \<le> unat (ps_end s)"
    using assms by (simp add: word_le_nat_alt)
  then have "[unat (ps_start s) ..< Suc (unat (ps_end s))]
      = map (\<lambda>i. i + unat (ps_start s)) [0 ..< ps_len s]"
    using assms by (simp add: map_add_upt ps_len_eq del: upt_Suc)
  then have "span_ports s = map (\<lambda>i. of_nat (i + unat (ps_start s))) [0 ..< ps_len s]"
    by (simp only: span_ports_def map_map o_def)
  then show ?thesis by (simp add: add.commute)
qed

lemma span_offset:
  assumes "wf_span s" "k < ps_len s"
  shows "unat (ps_start s + of_nat k) = unat (ps_start s) + k"
proof -
  have le: "ps_start s \<le> ps_end s" using assms(1) by (rule wf_span_le)
  then have k: "unat (ps_start s) + k \<le> unat (ps_end s)"
    using assms(2) by (auto simp: ps_len_eq word_le_nat_alt)
  then have "unat (ps_start s) + k < 65536" using u16_less [of "ps_end s"] by linarith
  moreover from this have "unat (of_nat k :: u16) = k"
    by (simp add: unat_of_nat)
  ultimately show ?thesis by (simp add: unat_word_ariths)
qed

lemma fs_expand_len_word: "wf_spec s \<Longrightarrow> unat (of_nat (ps_len (fs_local s)) :: u16) = ps_len (fs_local s)"
  using wf_span_len [of "fs_local s"] by (simp add: wf_spec_def MAX_RANGE_PORTS_def unat_of_nat)

lemma length_fs_expand: "wf_spec s \<Longrightarrow> length (fs_expand s) = ps_len (fs_local s)"
  by (simp add: fs_expand_def fs_expand_len_word)

lemma fs_expand_nth:
  assumes "wf_spec s" "k < ps_len (fs_local s)"
  shows "fs_expand s ! k =
    \<lparr>fc_local_host = fs_local_host s, fc_local_port = ps_start (fs_local s) + of_nat k,
     fc_remote_host = fs_remote_host s, fc_remote_port = ps_start (fs_remote s) + of_nat k,
     fc_protocol = fs_protocol s\<rparr>"
  using assms by (simp add: fs_expand_def fs_expand_len_word Let_def)

lemma endpoints_fs_expand:
  assumes "wf_spec s"
  shows "map endpoint (fs_expand s) = spec_keys s"
proof -
  have "ps_start (fs_local s) \<le> ps_end (fs_local s)"
    using assms by (simp add: wf_spec_def wf_span_le)
  then show ?thesis
    by (simp add: fs_expand_def fs_expand_len_word [OF assms] spec_keys_def span_ports_eq
        endpoint_def Let_def)
qed

lemma claim_ports_Inr:
  "claim_ports specs i spec ports owner = Inr owner' \<longleftrightarrow>
     distinct ports \<and> (\<forall>p \<in> set ports. owner (fs_protocol spec, fs_local_host spec, p) = None) \<and>
     owner' = (\<lambda>k. if k \<in> (\<lambda>p. (fs_protocol spec, fs_local_host spec, p)) ` set ports
                    then Some i else owner k)"
proof (induction ports arbitrary: owner)
  case Nil
  then show ?case by (auto simp: fun_eq_iff)
next
  case (Cons p ports)
  show ?case
    by (auto simp: Let_def Cons.IH fun_eq_iff image_iff split: option.splits if_splits)
qed

lemma claim_ports_Inl:
  assumes "claim_ports specs i spec ports owner = Inl e" "distinct ports"
  shows "\<exists>p \<in> set ports. \<exists>j. owner (fs_protocol spec, fs_local_host spec, p) = Some j
           \<and> e = dup_error (specs ! j) spec p"
  using assms
proof (induction ports arbitrary: owner)
  case (Cons p ports)
  show ?case
  proof (cases "owner (fs_protocol spec, fs_local_host spec, p)")
    case None
    let ?owner = "owner((fs_protocol spec, fs_local_host spec, p) \<mapsto> i)"
    have "claim_ports specs i spec ports ?owner = Inl e" "distinct ports"
      using Cons.prems None by (auto simp: Let_def)
    then obtain q j where "q \<in> set ports" "e = dup_error (specs ! j) spec q"
      and "?owner (fs_protocol spec, fs_local_host spec, q) = Some j"
      using Cons.IH by blast
    with Cons.prems(2) show ?thesis by (auto split: if_splits)
  qed (use Cons.prems in \<open>auto simp: Let_def\<close>)
qed simp

lemma expand_loop_Inr:
  "expand_loop specs i rest owner out = Inr r \<longleftrightarrow>
     distinct (concat (map spec_keys rest)) \<and>
     set (concat (map spec_keys rest)) \<inter> dom owner = {} \<and>
     r = out @ concat (map fs_expand rest)"
proof (induction rest arbitrary: i owner out)
  case (Cons s rest)
  have "inj_on (\<lambda>p. (fs_protocol s, fs_local_host s, p)) A" for A :: "u16 set"
    by (simp add: inj_on_def)
  then have d: "distinct (spec_keys s)"
    by (simp add: spec_keys_def distinct_map)
  have keys: "(\<lambda>p. (fs_protocol s, fs_local_host s, p)) ` set (span_ports (fs_local s))
      = set (spec_keys s)"
    by (simp add: spec_keys_def)
  have free: "(\<forall>p \<in> set (span_ports (fs_local s)). owner (fs_protocol s, fs_local_host s, p) = None)
      \<longleftrightarrow> set (spec_keys s) \<inter> dom owner = {}"
    by (auto simp: spec_keys_def dom_def)
  show ?case
    by (auto simp: and_then_Inr claim_ports_Inr keys free Cons.IH d dom_def)
qed auto

lemma expand_loop_Inl:
  assumes "expand_loop specs (length pre) rest owner out = Inl e" "specs = pre @ rest"
    and inv: "\<And>k j. owner k = Some j \<Longrightarrow> j < length pre \<and> k \<in> set (spec_keys (specs ! j))"
  shows "\<exists>i j p. i < j \<and> j < length specs
      \<and> (fs_protocol (specs ! j), fs_local_host (specs ! j), p) \<in> set (spec_keys (specs ! i))
      \<and> p \<in> set (span_ports (fs_local (specs ! j)))
      \<and> e = dup_error (specs ! i) (specs ! j) p"
  using assms
proof (induction rest arbitrary: pre owner out)
  case (Cons s rest)
  show ?case
  proof (cases "claim_ports specs (length pre) s (span_ports (fs_local s)) owner")
    case (Inl e')
    with Cons.prems(1) have "claim_ports specs (length pre) s (span_ports (fs_local s)) owner = Inl e"
      by simp
    then obtain p j where "p \<in> set (span_ports (fs_local s))"
      "owner (fs_protocol s, fs_local_host s, p) = Some j" "e = dup_error (specs ! j) s p"
      using claim_ports_Inl distinct_span_ports by blast
    then show ?thesis
      using Cons.prems(2,3) by (intro exI [of _ j] exI [of _ "length pre"] exI [of _ p]) auto
  next
    case (Inr owner')
    let ?pre = "pre @ [s]"
    have loop: "expand_loop specs (length ?pre) rest owner' (out @ fs_expand s) = Inl e"
      using Cons.prems(1) Inr by simp
    have s: "specs ! length pre = s" "specs = ?pre @ rest"
      using Cons.prems(2) by simp_all
    have "owner' k = Some j \<Longrightarrow> j < length ?pre \<and> k \<in> set (spec_keys (specs ! j))" for k j
      using Inr Cons.prems(3) [of k j] s(1)
      by (auto simp: claim_ports_Inr spec_keys_def split: if_splits)
    with loop s(2) show ?thesis by (rule Cons.IH)
  qed
qed simp

lemma expand_specs_Inr:
  "expand_specs specs = Inr out \<longleftrightarrow>
     distinct (concat (map spec_keys specs)) \<and> out = concat (map fs_expand specs)"
  by (auto simp: expand_specs_def expand_loop_Inr)

lemma endpoints_expanded:
  "list_all wf_spec specs \<Longrightarrow>
     map endpoint (concat (map fs_expand specs)) = concat (map spec_keys specs)"
  by (induction specs) (auto simp: endpoints_fs_expand)

section \<open>Printed addresses identify endpoints\<close>

lemma fc_local_addr_inject:
  "fc_local_addr c = fc_local_addr d \<longleftrightarrow>
     fc_local_host c = fc_local_host d \<and> fc_local_port c = fc_local_port d"
proof
  assume eq: "fc_local_addr c = fc_local_addr d"
  have "rsplit_once 58 (fc_local_addr x) = Some (fc_local_host x, show_nat (unat (fc_local_port x)))"
    for x :: forwarder_config
    by (simp add: fc_local_addr_def rsplit_once_append)
  from this [of c] this [of d] eq
  have "fc_local_host c = fc_local_host d" "unat (fc_local_port c) = unat (fc_local_port d)"
    by simp_all
  then show "fc_local_host c = fc_local_host d \<and> fc_local_port c = fc_local_port d"
    by (simp add: word_unat_eq_iff)
qed (simp add: fc_local_addr_def)

lemma no_dup_loop_Inr:
  "no_dup_loop seen fs = Inr () \<longleftrightarrow>
     distinct (map (\<lambda>f. (fc_protocol f, fc_local_addr f)) fs) \<and>
     (\<lambda>f. (fc_protocol f, fc_local_addr f)) ` set fs \<inter> seen = {}"
  by (induction fs arbitrary: seen) (auto simp: Let_def)

lemma validate_no_duplicates_Inr:
  "validate_no_duplicates fs = Inr () \<longleftrightarrow> distinct (map endpoint fs)"
proof -
  have "distinct (map (\<lambda>f. (fc_protocol f, fc_local_addr f)) fs) = distinct (map endpoint fs)"
    by (induction fs) (auto simp: endpoint_def fc_local_addr_inject image_iff)
  then show ?thesis by (simp add: validate_no_duplicates_def no_dup_loop_Inr)
qed

lemma validate_no_duplicates_unit: "validate_no_duplicates fs = Inr u \<longleftrightarrow> distinct (map endpoint fs)"
  using validate_no_duplicates_Inr by simp

lemma append_cons_inject:
  fixes c :: nat
  assumes "x @ c # y = x' @ c # y'" "c \<notin> set x" "c \<notin> set x'"
  shows "x = x' \<and> y = y'"
proof -
  have "split_once c (x @ c # y) = Some (x, y)" "split_once c (x' @ c # y') = Some (x', y')"
    using assms(2,3) by (simp_all add: split_once_append)
  with assms(1) show ?thesis by (metis Pair_inject option.inject)
qed

lemma fc_label_inject:
  assumes "58 \<notin> set (fc_local_host c)" "58 \<notin> set (fc_local_host d)"
    and "58 \<notin> set (fc_remote_host c)" "58 \<notin> set (fc_remote_host d)"
    and eq: "fc_label c = fc_label d"
  shows "c = d"
proof -
  define tail :: "forwarder_config \<Rightarrow> rstr" where
    "tail = (\<lambda>x. show_nat (unat (fc_remote_port x)) @ (case fc_protocol x of Tcp \<Rightarrow> [] | Udp \<Rightarrow> lit ''/udp''))"
  have shape: "fc_label x = fc_local_host x @ 58 # show_nat (unat (fc_local_port x)) @ 45 # 62 #
      fc_remote_host x @ 58 # tail x" for x
    by (cases "fc_protocol x") (simp_all add: fc_label_def tail_def Let_def)
  from eq shape assms(1,2) have lh: "fc_local_host c = fc_local_host d"
    and rest: "show_nat (unat (fc_local_port c)) @ 45 # 62 # fc_remote_host c @ 58 # tail c
      = show_nat (unat (fc_local_port d)) @ 45 # 62 # fc_remote_host d @ 58 # tail d"
    using append_cons_inject [of "fc_local_host c" 58 _ "fc_local_host d"] by (metis)+
  from append_cons_inject [OF rest] have "unat (fc_local_port c) = unat (fc_local_port d)"
    and rest2: "fc_remote_host c @ 58 # tail c = fc_remote_host d @ 58 # tail d"
    by simp_all
  from append_cons_inject [OF rest2 assms(3,4)]
  have rh: "fc_remote_host c = fc_remote_host d" and t: "tail c = tail d" by simp_all
  have "(47 \<in> set (tail x)) = (fc_protocol x = Udp)" for x
    by (cases "fc_protocol x") (simp_all add: tail_def)
  with t have p: "fc_protocol c = fc_protocol d"
    by (metis protocol.exhaust)
  with t have "unat (fc_remote_port c) = unat (fc_remote_port d)"
    by (simp add: tail_def)
  with lh rh p \<open>unat (fc_local_port c) = unat (fc_local_port d)\<close> show ?thesis
    by (cases c, cases d) (simp add: word_unat_eq_iff)
qed

section \<open>The entry syntax\<close>

text \<open>The text of an entry as the command line writes it, with the local and remote ports given.\<close>

definition entry_text :: "rstr \<Rightarrow> rstr \<Rightarrow> rstr \<Rightarrow> rstr \<Rightarrow> protocol \<Rightarrow> rstr" where
  "entry_text lh lp rh rp proto =
     lh @ lit '':'' @ lp @ lit '':'' @ rh @ lit '':'' @ rp
       @ (case proto of Tcp \<Rightarrow> [] | Udp \<Rightarrow> lit ''/udp'')"

definition spec_text :: "forwarder_spec \<Rightarrow> rstr" where
  "spec_text s = entry_text (fs_local_host s) (ps_fmt (fs_local s)) (fs_remote_host s)
     (ps_fmt (fs_remote s)) (fs_protocol s)"

definition clean_host :: "rstr \<Rightarrow> bool" where
  "clean_host h \<longleftrightarrow> ch (CHR '':'') \<notin> set h \<and> ch (CHR ''/'') \<notin> set h"

definition clean_port :: "rstr \<Rightarrow> bool" where
  "clean_port p \<longleftrightarrow> ch (CHR '':'') \<notin> set p \<and> ch (CHR ''/'') \<notin> set p"

lemma clean_port_fmt [simp]: "clean_port (ps_fmt s)"
  by (simp add: clean_port_def ps_fmt_def)

lemma parse_entry_text:
  assumes "clean_host lh" "clean_port lp" "clean_host rh" "clean_port rp"
  shows "parse_forwarder_spec (entry_text lh lp rh rp proto) =
    and_then (ps_parse lp (lit ''local'')) (\<lambda>local.
    and_then (ps_parse rp (lit ''remote'')) (\<lambda>remote. fs_new lh local rh remote proto))"
proof -
  let ?body = "lh @ 58 # lp @ 58 # rh @ 58 # rp"
  have parts: "split_str 58 ?body = [lh, lp, rh, rp]"
    using assms by (simp add: clean_host_def clean_port_def split_str_append split_str_none)
  have noslash: "47 \<notin> set ?body"
    using assms by (simp add: clean_host_def clean_port_def)
  show ?thesis
  proof (cases proto)
    case Tcp
    then have "entry_text lh lp rh rp proto = ?body" by (simp add: entry_text_def)
    with Tcp parts noslash show ?thesis
      by (simp add: parse_forwarder_spec_def rsplit_once_None [THEN iffD2] Let_def)
  next
    case Udp
    then have "entry_text lh lp rh rp proto = ?body @ 47 # lit ''udp''" by (simp add: entry_text_def)
    moreover have "rsplit_once 47 (?body @ 47 # lit ''udp'') = Some (?body, lit ''udp'')"
      by (rule rsplit_once_append) simp
    ultimately show ?thesis
      using Udp parts
      by (simp add: parse_forwarder_spec_def Let_def eq_ignore_ascii_case_def to_ascii_lower_def)
  qed
qed

text \<open>The port field of a YAML entry written in the command-line syntax.\<close>

definition port_text :: "u16 \<Rightarrow> u16 option \<Rightarrow> rstr" where
  "port_text p e =
     show_nat (unat p) @ (case e of None \<Rightarrow> [] | Some q \<Rightarrow> lit ''-'' @ show_nat (unat q))"

definition raw_text :: "raw_forwarder \<Rightarrow> rstr" where
  "raw_text r = entry_text (rf_local_host r) (port_text (rf_local_port r) (rf_local_port_end r))
     (rf_remote_host r) (port_text (rf_remote_port r) (rf_remote_port_end r)) (rf_protocol r)"

lemma clean_port_text [simp]: "clean_port (port_text p e)"
  by (simp add: clean_port_def port_text_def split: option.split)

lemma ps_parse_port_text:
  "ps_parse (port_text p e) what =
     (case e of
        None \<Rightarrow> Inr (ps_single p)
      | Some q \<Rightarrow> map_err (InvalidRange what (port_text p e)) (ps_range p q))"
  by (simp add: ps_parse_def port_text_def parse_u16_show split_once_append ps_bound_show
      split_once_None [THEN iffD2] split: option.split)

section \<open>Properties\<close>

text \<open>
  Printing a port span with \<open>Display\<close> and reading it back with \<open>PortSpan::parse\<close> gives
  the same span, for every span the program can build: a single port or a validated range.
\<close>

lemma span_parse_print:
  assumes "wf_span s"
  shows "ps_parse (ps_fmt s) what = Inr s"
  using assms by (rule ps_parse_fmt)

lemma span_parse_print_example:
  "ps_parse (ps_fmt \<lparr>ps_start = 30000, ps_end = 30050\<rparr>) (lit ''local'')
     = Inr \<lparr>ps_start = 30000, ps_end = 30050\<rparr>"
proof (rule span_parse_print)
  show "wf_span \<lparr>ps_start = 30000, ps_end = 30050\<rparr>"
    by (simp add: wf_span_def ps_len_def MAX_RANGE_PORTS_def)
qed

text \<open>
  C31. A well-formed entry whose hosts hold no \<open>:\<close> and no \<open>/\<close>, written in the syntax of the
  command line, is read back by \<open>parse_forwarder_spec\<close> as the same entry.
\<close>
theorem entry_roundtrip:
  assumes "wf_spec s" "clean_host (fs_local_host s)" "clean_host (fs_remote_host s)"
  shows "parse_forwarder_spec (spec_text s) = Inr s"
proof -
  have "wf_span (fs_local s)" "wf_span (fs_remote s)" "ps_len (fs_local s) = ps_len (fs_remote s)"
    using assms(1) by (simp_all add: wf_spec_def)
  then show ?thesis
    using assms(2,3) by (simp add: spec_text_def parse_entry_text ps_parse_fmt fs_new_Inr)
qed

definition sample_spec :: forwarder_spec where
  "sample_spec = \<lparr>fs_local_host = lit ''0.0.0.0'', fs_local = \<lparr>ps_start = 5000, ps_end = 5003\<rparr>,
     fs_remote_host = lit ''media'', fs_remote = \<lparr>ps_start = 6000, ps_end = 6003\<rparr>,
     fs_protocol = Udp\<rparr>"

lemma wf_sample_spec: "wf_spec sample_spec"
  by (simp add: sample_spec_def wf_spec_def wf_span_def ps_len_def MAX_RANGE_PORTS_def)

theorem entry_roundtrip_witness: "parse_forwarder_spec (spec_text sample_spec) = Inr sample_spec"
  by (rule entry_roundtrip) (simp_all add: wf_sample_spec, simp_all add: sample_spec_def clean_host_def)

text \<open>
  A YAML entry with both ends given, or neither, and the same entry written on the command
  line denote the same forwarder: the one is accepted exactly when the other is, with the same
  result (hosts without \<open>:\<close> and \<open>/\<close>).
\<close>
lemma yaml_cli_agree:
  assumes "(rf_local_port_end r = None) = (rf_remote_port_end r = None)"
    and "clean_host (rf_local_host r)" "clean_host (rf_remote_host r)"
  shows "into_spec r = Inr s \<longleftrightarrow> parse_forwarder_spec (raw_text r) = Inr s"
  using assms
  by (cases "rf_local_port_end r"; cases "rf_remote_port_end r")
    (auto simp: into_spec_def raw_text_def parse_entry_text ps_parse_port_text and_then_Inr Let_def)

definition sample_raw :: raw_forwarder where
  "sample_raw = \<lparr>rf_local_host = lit ''0.0.0.0'', rf_local_port = 5000, rf_local_port_end = Some 5003,
     rf_remote_host = lit ''media'', rf_remote_port = 6000, rf_remote_port_end = Some 6003,
     rf_protocol = Udp\<rparr>"

text \<open>
  A well-formed entry expands to one forwarder per local port, port for port: the \<open>k\<close>-th
  forwarder listens on \<open>local.start + k\<close> and dials \<open>remote.start + k\<close>, computed without
  wrap-around of the 16-bit ports, on the hosts and protocol of the entry.
\<close>

lemma expand_port_for_port:
  assumes "wf_spec s"
  shows "length (fs_expand s) = ps_len (fs_local s) \<and>
    (\<forall>k < ps_len (fs_local s).
       unat (fc_local_port (fs_expand s ! k)) = unat (ps_start (fs_local s)) + k \<and>
       unat (fc_remote_port (fs_expand s ! k)) = unat (ps_start (fs_remote s)) + k \<and>
       fc_local_host (fs_expand s ! k) = fs_local_host s \<and>
       fc_remote_host (fs_expand s ! k) = fs_remote_host s \<and>
       fc_protocol (fs_expand s ! k) = fs_protocol s)"
  using assms
  by (auto simp: length_fs_expand fs_expand_nth span_offset wf_spec_def)

lemma expand_port_for_port_example:
  "length (fs_expand sample_spec) = 4 \<and> unat (fc_remote_port (fs_expand sample_spec ! 3)) = 6003"
proof -
  have "ps_len (fs_local sample_spec) = 4" by (simp add: sample_spec_def ps_len_def)
  then show ?thesis
    using expand_port_for_port [OF wf_sample_spec] by (simp add: sample_spec_def)
qed

text \<open>
  C12. On well-formed entries \<open>expand_specs\<close> succeeds exactly when no local endpoint (protocol,
  host, port) is claimed twice, and then returns the concatenated expansions in order.
\<close>
theorem expand_specs_correct:
  assumes "list_all wf_spec specs"
  shows "expand_specs specs = Inr out \<longleftrightarrow>
    out = concat (map fs_expand specs) \<and> distinct (map endpoint (concat (map fs_expand specs)))"
  using assms by (auto simp: expand_specs_Inr endpoints_expanded)

theorem expand_specs_correct_witness:
  "expand_specs [sample_spec] = Inr (fs_expand sample_spec)"
proof -
  have "list_all wf_spec [sample_spec]" by (simp add: wf_sample_spec)
  moreover have "distinct (spec_keys sample_spec)"
    by (simp add: spec_keys_def distinct_map inj_on_def)
  ultimately show ?thesis
    using expand_specs_correct [of "[sample_spec]" "fs_expand sample_spec"]
    by (simp add: endpoints_fs_expand wf_sample_spec)
qed

text \<open>
  C32. When \<open>expand_specs\<close> fails, the error names a local port that two different entries of the
  list claim under one protocol and host, and describes those two entries in list order.
\<close>
theorem duplicate_error_names_both:
  assumes "expand_specs specs = Inl e"
  shows "\<exists>i j p. i < j \<and> j < length specs
      \<and> fs_protocol (specs ! i) = fs_protocol (specs ! j)
      \<and> fs_local_host (specs ! i) = fs_local_host (specs ! j)
      \<and> p \<in> set (span_ports (fs_local (specs ! i)))
      \<and> p \<in> set (span_ports (fs_local (specs ! j)))
      \<and> e = dup_error (specs ! i) (specs ! j) p"
proof -
  have "expand_loop specs (length []) specs Map.empty [] = Inl e"
    using assms by (simp add: expand_specs_def)
  then obtain i j p where "i < j" "j < length specs" "p \<in> set (span_ports (fs_local (specs ! j)))"
    "(fs_protocol (specs ! j), fs_local_host (specs ! j), p) \<in> set (spec_keys (specs ! i))"
    "e = dup_error (specs ! i) (specs ! j) p"
    by (rule expand_loop_Inl [THEN exE]) auto
  then show ?thesis
    by (intro exI [of _ i] exI [of _ j] exI [of _ p]) (auto simp: spec_keys_def)
qed

theorem duplicate_error_names_both_witness:
  "\<exists>e. expand_specs [sample_spec, sample_spec] = Inl e \<and>
     (\<exists>p. e = dup_error sample_spec sample_spec p)"
proof -
  have "spec_keys sample_spec \<noteq> []"
    by (simp add: spec_keys_def span_ports_def sample_spec_def)
  then have "\<not> distinct (concat (map spec_keys [sample_spec, sample_spec]))" by auto
  then obtain e where e: "expand_specs [sample_spec, sample_spec] = Inl e"
    using expand_specs_Inr [of "[sample_spec, sample_spec]"] by (cases "expand_specs [sample_spec, sample_spec]") auto
  from duplicate_error_names_both [OF e] e show ?thesis
    by (auto simp: less_Suc_eq)
qed

text \<open>
  The second duplicate check is redundant after the first: the printed \<open>host:port\<close> address
  identifies the endpoint, so a list that \<open>expand_specs\<close> returned for well-formed entries
  passes \<open>validate_no_duplicates\<close>.
\<close>

lemma second_duplicate_check_redundant:
  assumes "list_all wf_spec specs" "expand_specs specs = Inr out"
  shows "validate_no_duplicates out = Inr ()"
  using assms by (simp add: validate_no_duplicates_unit expand_specs_Inr endpoints_expanded)

lemma second_duplicate_check_redundant_example:
  "validate_no_duplicates (fs_expand sample_spec) = Inr ()"
proof (rule second_duplicate_check_redundant)
  show "list_all wf_spec [sample_spec]" by (simp add: wf_sample_spec)
  show "expand_specs [sample_spec] = Inr (fs_expand sample_spec)"
    by (simp add: expand_specs_Inr spec_keys_def distinct_map inj_on_def)
qed

end
