(* ===== verification/Net.thy ===== *)
theory Net
  imports Prelude
begin

text \<open>
  Network addresses and I/O errors as the program uses them: \<open>std::net::IpAddr\<close> and
  \<open>SocketAddr\<close> with their derived orders, \<open>std::io::Error\<close> as its kind and raw OS code.
  The flow label and the scope of an IPv6 socket address are left out: the program only
  builds addresses with \<open>SocketAddr::new\<close>, which sets both to zero.
\<close>

datatype ip_addr = V4 "32 word" | V6 "128 word"

datatype socket_addr = SocketAddr (sa_ip: ip_addr) (sa_port: u16)

text \<open>The derived \<open>Ord\<close>: every IPv4 address is below every IPv6 address.\<close>

instantiation ip_addr :: linorder
begin

fun less_eq_ip_addr :: "ip_addr \<Rightarrow> ip_addr \<Rightarrow> bool" where
  "less_eq_ip_addr (V4 a) (V4 b) = (a \<le> b)"
| "less_eq_ip_addr (V4 a) (V6 b) = True"
| "less_eq_ip_addr (V6 a) (V4 b) = False"
| "less_eq_ip_addr (V6 a) (V6 b) = (a \<le> b)"

definition less_ip_addr :: "ip_addr \<Rightarrow> ip_addr \<Rightarrow> bool" where
  "less_ip_addr a b = (a \<le> b \<and> \<not> b \<le> a)"

instance
proof
  fix x y z :: ip_addr
  show "x < y \<longleftrightarrow> x \<le> y \<and> \<not> y \<le> x" by (simp add: less_ip_addr_def)
  show "x \<le> x" by (cases x) auto
  show "x \<le> y \<Longrightarrow> y \<le> z \<Longrightarrow> x \<le> z" by (cases x; cases y; cases z) auto
  show "x \<le> y \<Longrightarrow> y \<le> x \<Longrightarrow> x = y" by (cases x; cases y) auto
  show "x \<le> y \<or> y \<le> x" by (cases x; cases y) auto
qed

end

instantiation socket_addr :: linorder
begin

definition less_eq_socket_addr :: "socket_addr \<Rightarrow> socket_addr \<Rightarrow> bool" where
  "less_eq_socket_addr a b \<longleftrightarrow> sa_ip a < sa_ip b \<or> (sa_ip a = sa_ip b \<and> sa_port a \<le> sa_port b)"

definition less_socket_addr :: "socket_addr \<Rightarrow> socket_addr \<Rightarrow> bool" where
  "less_socket_addr a b = (a \<le> b \<and> \<not> b \<le> a)"

instance
proof
  fix x y z :: socket_addr
  show "x < y \<longleftrightarrow> x \<le> y \<and> \<not> y \<le> x" by (simp add: less_socket_addr_def)
  show "x \<le> x" by (simp add: less_eq_socket_addr_def)
  show "x \<le> y \<Longrightarrow> y \<le> z \<Longrightarrow> x \<le> z" by (auto simp: less_eq_socket_addr_def)
  show "x \<le> y \<Longrightarrow> y \<le> x \<Longrightarrow> x = y"
    by (auto simp: less_eq_socket_addr_def intro: socket_addr.expand)
  show "x \<le> y \<or> y \<le> x" by (auto simp: less_eq_socket_addr_def)
qed

end

datatype io_kind =
    WouldBlock | Interrupted | ConnectionRefused | ConnectionReset | ConnectionAborted
  | NotConnected | BrokenPipe | UnexpectedEof | HostUnreachable | NetworkUnreachable
  | WriteZero | OtherKind

record io_error =
  ioe_kind :: io_kind
  ioe_os :: "int option"

text \<open>The raw error codes of Linux that the program inspects.\<close>

definition EIO :: int where "EIO = 5"
definition EINVAL :: int where "EINVAL = 22"
definition ENFILE :: int where "ENFILE = 23"
definition EMFILE :: int where "EMFILE = 24"
definition EMSGSIZE :: int where "EMSGSIZE = 90"
definition ENOPROTOOPT :: int where "ENOPROTOOPT = 92"

section \<open>Addresses as text\<close>

text \<open>
  \<open>Display\<close> of the standard library: dotted decimals for IPv4; for IPv6 the longest run of
  at least two zero segments (the first of equal ones) becomes \<open>::\<close>, and an IPv4-mapped
  address keeps its dotted tail.
\<close>

fun show_hex :: "nat \<Rightarrow> rstr" where
  "show_hex n =
     (let digit = (\<lambda>d. if d < 10 then 48 + d else 87 + d)
      in if n < 16 then [digit n] else show_hex (n div 16) @ [digit (n mod 16)])"

declare show_hex.simps [simp del]

definition ipv4_octets :: "nat \<Rightarrow> nat list" where
  "ipv4_octets n = map (\<lambda>i. (n div 256 ^ i) mod 256) [3, 2, 1, 0]"

definition ipv6_segments :: "nat \<Rightarrow> nat list" where
  "ipv6_segments n = map (\<lambda>i. (n div 65536 ^ i) mod 65536) [7, 6, 5, 4, 3, 2, 1, 0]"

definition show_ipv4 :: "nat \<Rightarrow> rstr" where
  "show_ipv4 n = join_str (lit ''.'') (map show_nat (ipv4_octets n))"

text \<open>The state of the scan is the current run and the longest one, each a start and a length.\<close>

fun zero_spans :: "nat \<Rightarrow> nat list \<Rightarrow> nat \<times> nat \<Rightarrow> nat \<times> nat \<Rightarrow> nat \<times> nat" where
  "zero_spans i [] cur longest = longest"
| "zero_spans i (seg # segs) cur longest =
     (if seg = 0
      then let cur' = (if snd cur = 0 then (i, 1) else (fst cur, snd cur + 1))
           in zero_spans (i + 1) segs cur' (if snd cur' > snd longest then cur' else longest)
      else zero_spans (i + 1) segs (0, 0) longest)"

definition show_segments :: "nat list \<Rightarrow> rstr" where
  "show_segments segs = join_str (lit '':'') (map show_hex segs)"

definition show_ipv6 :: "nat \<Rightarrow> rstr" where
  "show_ipv6 n =
     (let segs = ipv6_segments n; (start, len) = zero_spans 0 segs (0, 0) (0, 0)
      in if take 6 segs = [0, 0, 0, 0, 0, 0xFFFF] then lit ''::ffff:'' @ show_ipv4 (n mod 2 ^ 32)
         else if len > 1
         then show_segments (take start segs) @ lit ''::'' @ show_segments (drop (start + len) segs)
         else show_segments segs)"

fun show_ip :: "ip_addr \<Rightarrow> rstr" where
  "show_ip (V4 a) = show_ipv4 (unat a)"
| "show_ip (V6 a) = show_ipv6 (unat a)"

fun show_socket_addr :: "socket_addr \<Rightarrow> rstr" where
  "show_socket_addr (SocketAddr (V4 a) p) = show_ipv4 (unat a) @ lit '':'' @ show_nat (unat p)"
| "show_socket_addr (SocketAddr (V6 a) p) =
     lit ''['' @ show_ipv6 (unat a) @ lit '']:'' @ show_nat (unat p)"

end
