(* ===== verification/Ip_Parse.thy ===== *)
theory Ip_Parse
  imports Net
begin

text \<open>
  Part of the standard library, not of the program: \<open>FromStr\<close> of \<open>IpAddr\<close> and \<open>SocketAddr\<close>, which decides
  which remote hosts are literals (\<open>cfg.remote_host.parse()\<close>) and which listen addresses are
  accepted. A reader takes the remaining input and returns the value with what is left;
  returning \<open>None\<close> leaves the input where it was. The parser works on bytes; every byte it
  accepts is ASCII, so code points do as well.
\<close>

section \<open>Readers\<close>

definition to_digit :: "nat \<Rightarrow> nat \<Rightarrow> nat option" where
  "to_digit radix c =
     (let d = (if 48 \<le> c \<and> c \<le> 57 then c - 48
               else if 97 \<le> c \<and> c \<le> 122 then c - 87
               else if 65 \<le> c \<and> c \<le> 90 then c - 55 else radix)
      in if d < radix then Some d else None)"

definition read_given_char :: "nat \<Rightarrow> rstr \<Rightarrow> rstr option" where
  "read_given_char target s = (case s of [] \<Rightarrow> None | c # cs \<Rightarrow> if c = target then Some cs else None)"

text \<open>
  The digit loop: with a limit on the number of digits the value is checked at the end, without
  one every step is checked against the largest value of the type.
\<close>

fun read_digits :: "nat \<Rightarrow> nat option \<Rightarrow> nat \<Rightarrow> nat \<Rightarrow> nat \<Rightarrow> rstr \<Rightarrow> (nat \<times> nat \<times> rstr) option" where
  "read_digits radix max_digits mx count acc [] = Some (count, acc, [])"
| "read_digits radix max_digits mx count acc (c # cs) =
     (case to_digit radix c of
        None \<Rightarrow> Some (count, acc, c # cs)
      | Some d \<Rightarrow>
          if (case max_digits of Some m \<Rightarrow> count + 1 > m | None \<Rightarrow> acc * radix + d > mx) then None
          else read_digits radix max_digits mx (count + 1) (acc * radix + d) cs)"

definition read_number :: "nat \<Rightarrow> nat option \<Rightarrow> bool \<Rightarrow> nat \<Rightarrow> rstr \<Rightarrow> (nat \<times> rstr) option" where
  "read_number radix max_digits allow_zero_prefix mx s =
     (let has_leading_zero = (s \<noteq> [] \<and> hd s = 48)
      in case read_digits radix max_digits mx 0 0 s of
           None \<Rightarrow> None
         | Some (digit_count, result, rest) \<Rightarrow>
             if digit_count = 0 then None
             else if \<not> allow_zero_prefix \<and> has_leading_zero \<and> digit_count > 1 then None
             else if result > mx then None else Some (result, rest))"

definition read_separator :: "nat \<Rightarrow> nat \<Rightarrow> (rstr \<Rightarrow> 'a option) \<Rightarrow> rstr \<Rightarrow> 'a option" where
  "read_separator sep index inner s =
     (if index > 0 then (case read_given_char sep s of None \<Rightarrow> None | Some s' \<Rightarrow> inner s') else inner s)"

fun read_octets :: "nat \<Rightarrow> nat \<Rightarrow> nat \<Rightarrow> rstr \<Rightarrow> (nat \<times> rstr) option" where
  "read_octets 0 i acc s = Some (acc, s)"
| "read_octets (Suc k) i acc s =
     (case read_separator 46 i (read_number 10 (Some 3) False 255) s of
        None \<Rightarrow> None
      | Some (octet, s') \<Rightarrow> read_octets k (i + 1) (acc * 256 + octet) s')"

definition read_ipv4_addr :: "rstr \<Rightarrow> (nat \<times> rstr) option" where
  "read_ipv4_addr s = read_octets 4 0 0 s"

text \<open>
  \<open>read_groups\<close> with \<open>k\<close> groups of the slice left; the flag says that the last two groups came
  from an embedded IPv4 address.
\<close>

fun read_groups :: "nat \<Rightarrow> nat \<Rightarrow> rstr \<Rightarrow> nat list \<times> bool \<times> rstr" where
  "read_groups 0 i s = ([], False, s)"
| "read_groups (Suc k) i s =
     (case (if k > 0 then read_separator 58 i read_ipv4_addr s else None) of
        Some (v4, s') \<Rightarrow> ([v4 div 65536, v4 mod 65536], True, s')
      | None \<Rightarrow>
          (case read_separator 58 i (read_number 16 (Some 4) True 65535) s of
             None \<Rightarrow> ([], False, s)
           | Some (g, s') \<Rightarrow> (let (gs, v4, s'') = read_groups k (i + 1) s' in (g # gs, v4, s''))))"

definition from_segments :: "nat list \<Rightarrow> nat" where
  "from_segments = foldl (\<lambda>acc g. acc * 65536 + g) 0"

definition read_ipv6_addr :: "rstr \<Rightarrow> (nat \<times> rstr) option" where
  "read_ipv6_addr s =
     (let (head, head_ipv4, s1) = read_groups 8 0 s
      in if length head = 8 then Some (from_segments head, s1)
         else if head_ipv4 then None
         else case read_given_char 58 s1 of
                None \<Rightarrow> None
              | Some s2 \<Rightarrow>
                  (case read_given_char 58 s2 of
                     None \<Rightarrow> None
                   | Some s3 \<Rightarrow>
                       (let (tail, _, s4) = read_groups (8 - (length head + 1)) 0 s3
                        in Some (from_segments (head @ replicate (8 - length head - length tail) 0 @ tail), s4))))"

definition read_ip_addr :: "rstr \<Rightarrow> (ip_addr \<times> rstr) option" where
  "read_ip_addr s =
     (case read_ipv4_addr s of
        Some (n, s') \<Rightarrow> Some (V4 (of_nat n), s')
      | None \<Rightarrow> map_option (\<lambda>(n, s'). (V6 (of_nat n), s')) (read_ipv6_addr s))"

definition read_port :: "rstr \<Rightarrow> (u16 \<times> rstr) option" where
  "read_port s =
     (case read_given_char 58 s of
        None \<Rightarrow> None
      | Some s' \<Rightarrow> map_option (\<lambda>(n, r). (of_nat n, r)) (read_number 10 None True 65535 s'))"

text \<open>A scope is read and must be well formed, but an address of the model has none.\<close>

definition skip_scope_id :: "rstr \<Rightarrow> rstr" where
  "skip_scope_id s =
     (case read_given_char 37 s of
        None \<Rightarrow> s
      | Some s' \<Rightarrow> (case read_number 10 None True (2 ^ 32 - 1) s' of None \<Rightarrow> s | Some (n, r) \<Rightarrow> r))"

definition read_socket_addr_v4 :: "rstr \<Rightarrow> (socket_addr \<times> rstr) option" where
  "read_socket_addr_v4 s =
     (case read_ipv4_addr s of
        None \<Rightarrow> None
      | Some (n, s') \<Rightarrow> map_option (\<lambda>(p, r). (SocketAddr (V4 (of_nat n)) p, r)) (read_port s'))"

definition read_socket_addr_v6 :: "rstr \<Rightarrow> (socket_addr \<times> rstr) option" where
  "read_socket_addr_v6 s =
     (case read_given_char 91 s of
        None \<Rightarrow> None
      | Some s1 \<Rightarrow>
          (case read_ipv6_addr s1 of
             None \<Rightarrow> None
           | Some (n, s2) \<Rightarrow>
               (case read_given_char 93 (skip_scope_id s2) of
                  None \<Rightarrow> None
                | Some s3 \<Rightarrow> map_option (\<lambda>(p, r). (SocketAddr (V6 (of_nat n)) p, r)) (read_port s3))))"

text \<open>\<open>parse_with\<close>: the whole input must be used.\<close>

definition parse_with :: "(rstr \<Rightarrow> ('a \<times> rstr) option) \<Rightarrow> rstr \<Rightarrow> 'a option" where
  "parse_with reader s = (case reader s of Some (a, rest) \<Rightarrow> if rest = [] then Some a else None | None \<Rightarrow> None)"

definition parse_ip_addr :: "rstr \<Rightarrow> ip_addr option" where
  "parse_ip_addr = parse_with read_ip_addr"

definition parse_socket_addr :: "rstr \<Rightarrow> socket_addr option" where
  "parse_socket_addr =
     parse_with (\<lambda>s. case read_socket_addr_v4 s of Some r \<Rightarrow> Some r | None \<Rightarrow> read_socket_addr_v6 s)"

section \<open>Numbers\<close>

definition digits_value :: "nat \<Rightarrow> nat \<Rightarrow> rstr \<Rightarrow> nat" where
  "digits_value radix = foldl (\<lambda>acc c. acc * radix + the (to_digit radix c))"

lemma digits_value_simps [simp]:
  "digits_value radix acc [] = acc"
  "digits_value radix acc (c # cs) = digits_value radix (acc * radix + the (to_digit radix c)) cs"
  "digits_value radix acc (cs @ [c]) = digits_value radix acc cs * radix + the (to_digit radix c)"
  by (simp_all add: digits_value_def)

lemma digits_value_ge: "0 < radix \<Longrightarrow> acc \<le> digits_value radix acc s"
proof (induction s arbitrary: acc)
  case (Cons c cs)
  have "acc \<le> acc * radix + the (to_digit radix c)" using Cons.prems by (simp add: trans_le_add1)
  also have "\<dots> \<le> digits_value radix (acc * radix + the (to_digit radix c)) cs" by (rule Cons.IH [OF Cons.prems])
  finally show ?case by simp
qed simp

definition stops_number :: "nat \<Rightarrow> rstr \<Rightarrow> bool" where
  "stops_number radix rest \<longleftrightarrow> rest = [] \<or> to_digit radix (hd rest) = None"

lemma stops_number_Cons [simp]: "stops_number radix [] = True" "stops_number radix (c # cs) = (to_digit radix c = None)"
  by (simp_all add: stops_number_def)

definition digits_fit :: "nat \<Rightarrow> nat option \<Rightarrow> nat \<Rightarrow> nat \<Rightarrow> nat \<Rightarrow> rstr \<Rightarrow> bool" where
  "digits_fit radix max_digits mx count acc s \<longleftrightarrow>
     (case max_digits of Some m \<Rightarrow> count + length s \<le> m | None \<Rightarrow> digits_value radix acc s \<le> mx)"

lemma read_digits_run:
  assumes "\<forall>c \<in> set s. to_digit radix c \<noteq> None" and "stops_number radix rest" and "0 < radix"
    and "digits_fit radix max_digits mx count acc s"
  shows "read_digits radix max_digits mx count acc (s @ rest) = Some (count + length s, digits_value radix acc s, rest)"
  using assms
proof (induction s arbitrary: count acc)
  case Nil
  then show ?case by (cases rest) simp_all
next
  case (Cons c cs)
  obtain d where d: "to_digit radix c = Some d" using Cons.prems(1) by auto
  have "digits_fit radix max_digits mx (count + 1) (acc * radix + d) cs"
    using Cons.prems(4) d by (simp add: digits_fit_def split: option.splits)
  moreover have "\<not> (case max_digits of Some m \<Rightarrow> count + 1 > m | None \<Rightarrow> acc * radix + d > mx)"
    using Cons.prems(4) d digits_value_ge [OF Cons.prems(3), of "acc * radix + d" cs]
    by (auto simp: digits_fit_def split: option.splits)
  ultimately show ?case using Cons d by simp
qed

lemma read_digits_inverse:
  assumes "read_digits radix max_digits mx count acc s = Some (count', v, rest)"
  shows "\<exists>ds. s = ds @ rest \<and> (\<forall>c \<in> set ds. to_digit radix c \<noteq> None) \<and> stops_number radix rest
    \<and> count' = count + length ds \<and> v = digits_value radix acc ds"
  using assms
proof (induction s arbitrary: count acc)
  case Nil
  then show ?case by simp
next
  case (Cons c cs)
  show ?case
  proof (cases "to_digit radix c")
    case None
    with Cons.prems show ?thesis by auto
  next
    case (Some d)
    with Cons.prems have "read_digits radix max_digits mx (count + 1) (acc * radix + d) cs = Some (count', v, rest)"
      by (simp split: if_splits)
    from Cons.IH [OF this] obtain ds where "cs = ds @ rest" "\<forall>c \<in> set ds. to_digit radix c \<noteq> None"
      "stops_number radix rest" "count' = count + 1 + length ds" "v = digits_value radix (acc * radix + d) ds"
      by blast
    with Some show ?thesis by (intro exI [of _ "c # ds"]) simp
  qed
qed

lemma to_digit_10: "to_digit 10 c = (if is_ascii_digit c then Some (c - 48) else None)"
  by (auto simp: to_digit_def is_ascii_digit_def Let_def)

lemma to_digit_16_show: "d < 16 \<Longrightarrow> to_digit 16 (if d < 10 then 48 + d else 87 + d) = Some d"
  by (simp add: to_digit_def Let_def)

lemma to_digit_10_show: "d < 10 \<Longrightarrow> to_digit 10 (48 + d) = Some d"
  by (simp add: to_digit_def Let_def)

lemma show_nat_snoc: "10 \<le> n \<Longrightarrow> show_nat n = show_nat (n div 10) @ [48 + n mod 10]"
  by (subst show_nat.simps) simp

lemma show_nat_digit: "n < 10 \<Longrightarrow> show_nat n = [48 + n]"
  by (subst show_nat.simps) simp

lemma show_nat_value: "digits_value 10 0 (show_nat n) = n"
proof (induction n rule: show_nat.induct)
  case (1 n)
  then show ?case
    by (cases "n < 10") (simp_all add: show_nat_digit show_nat_snoc to_digit_10_show)
qed

lemma show_nat_length: "n < 10 ^ k \<Longrightarrow> 0 < k \<Longrightarrow> length (show_nat n) \<le> k"
proof (induction k arbitrary: n)
  case (Suc k)
  show ?case
  proof (cases "n < 10")
    case False
    then have "k \<noteq> 0" using Suc.prems by (auto intro: ccontr)
    moreover have "n div 10 < 10 ^ k" using Suc.prems(1) by (simp add: div_less_iff_less_mult mult.commute)
    ultimately show ?thesis using Suc.IH [of "n div 10"] False by (simp add: show_nat_snoc)
  qed (simp add: show_nat_digit)
qed simp

lemma show_nat_hd: "0 < n \<Longrightarrow> hd (show_nat n) \<noteq> 48"
proof (induction n rule: show_nat.induct)
  case (1 n)
  then show ?case by (cases "n < 10") (simp_all add: show_nat_digit show_nat_snoc)
qed

lemma show_nat_zero: "show_nat 0 = [48]"
  by (simp add: show_nat_digit)

lemma show_nat_to_digit: "\<forall>c \<in> set (show_nat n). to_digit 10 c \<noteq> None"
  using show_nat_digits [of n] by (simp add: to_digit_10)

lemma show_hex_snoc: "16 \<le> n \<Longrightarrow> show_hex n = show_hex (n div 16) @ [if n mod 16 < 10 then 48 + n mod 16 else 87 + n mod 16]"
  by (subst show_hex.simps) (simp add: Let_def)

lemma show_hex_digit: "n < 16 \<Longrightarrow> show_hex n = [if n < 10 then 48 + n else 87 + n]"
  by (subst show_hex.simps) (simp add: Let_def)

lemma show_hex_value: "digits_value 16 0 (show_hex n) = n"
proof (induction n rule: show_hex.induct)
  case (1 n)
  then show ?case
    by (cases "n < 16") (simp_all only: show_hex_digit show_hex_snoc not_less digits_value_simps to_digit_16_show option.sel
        mod_less_divisor zero_less_numeral, simp_all)
qed

lemma show_hex_to_digit: "\<forall>c \<in> set (show_hex n). to_digit 16 c \<noteq> None"
proof (induction n rule: show_hex.induct)
  case (1 n)
  show ?case
  proof (cases "n < 16")
    case True
    with to_digit_16_show [OF True] show ?thesis by (simp add: show_hex_digit)
  next
    case False
    have "to_digit 16 (if n mod 16 < 10 then 48 + n mod 16 else 87 + n mod 16) = Some (n mod 16)"
      by (rule to_digit_16_show) simp
    with 1 False show ?thesis by (simp add: show_hex_snoc split del: if_split)
  qed
qed

lemma show_hex_length: "n < 16 ^ k \<Longrightarrow> 0 < k \<Longrightarrow> length (show_hex n) \<le> k"
proof (induction k arbitrary: n)
  case (Suc k)
  show ?case
  proof (cases "n < 16")
    case False
    then have "k \<noteq> 0" using Suc.prems by (auto intro: ccontr)
    moreover have "n div 16 < 16 ^ k" using Suc.prems(1) by (simp add: div_less_iff_less_mult mult.commute)
    ultimately show ?thesis using Suc.IH [of "n div 16"] False by (simp add: show_hex_snoc)
  qed (simp add: show_hex_digit)
qed simp

lemma show_hex_nonempty [simp]: "show_hex n \<noteq> []"
  by (subst show_hex.simps) (simp add: Let_def)

section \<open>Reading back what was printed\<close>

lemma read_number_show_nat:
  assumes "n \<le> mx" and "stops_number 10 rest" and "case max_digits of Some m \<Rightarrow> 0 < m \<and> n < 10 ^ m | None \<Rightarrow> True"
  shows "read_number 10 max_digits zeros mx (show_nat n @ rest) = Some (n, rest)"
proof -
  have fit: "digits_fit 10 max_digits mx 0 0 (show_nat n)"
    using assms(1,3) show_nat_length by (auto simp: digits_fit_def show_nat_value split: option.splits)
  have "read_digits 10 max_digits mx 0 0 (show_nat n @ rest) = Some (length (show_nat n), n, rest)"
    using read_digits_run [OF show_nat_to_digit assms(2) _ fit] by (simp add: show_nat_value)
  moreover have "hd (show_nat n @ rest) = 48 \<Longrightarrow> length (show_nat n) \<le> 1"
    using show_nat_hd [of n] by (cases "n = 0") (simp_all add: show_nat_zero)
  ultimately show ?thesis using assms(1) by (auto simp: read_number_def Let_def)
qed

lemma read_number_show_hex:
  assumes "n < 65536" and "stops_number 16 rest"
  shows "read_number 16 (Some 4) True 65535 (show_hex n @ rest) = Some (n, rest)"
proof -
  have "digits_fit 16 (Some 4) 65535 0 0 (show_hex n)"
    using show_hex_length [of n 4] assms(1) by (simp add: digits_fit_def)
  then have "read_digits 16 (Some 4) 65535 0 0 (show_hex n @ rest) = Some (length (show_hex n), n, rest)"
    using read_digits_run [OF show_hex_to_digit assms(2)] by (simp add: show_hex_value)
  with assms(1) show ?thesis by (simp add: read_number_def Let_def)
qed

lemma read_number_None: "stops_number radix s \<Longrightarrow> read_number radix max_digits zeros mx s = None"
  by (cases s) (simp_all add: read_number_def Let_def)

lemma positional:
  fixes b :: nat
  shows "foldl (\<lambda>acc d. acc * b + d) acc (map (\<lambda>i. n div b ^ i mod b) (rev [0..<k])) = acc * b ^ k + n mod b ^ k"
proof (induction k arbitrary: acc)
  case (Suc k)
  have "n mod (b ^ k * b) = b ^ k * (n div b ^ k mod b) + n mod b ^ k" by (rule mod_mult2_eq)
  with Suc show ?case by (simp add: algebra_simps)
qed simp

lemma read_octets_show:
  assumes "\<forall>x \<in> set xs. x < 256" and "stops_number 10 rest"
  shows "read_octets (length xs) (Suc i) acc (concat (map (\<lambda>x. 46 # show_nat x) xs) @ rest)
    = Some (foldl (\<lambda>acc d. acc * 256 + d) acc xs, rest)"
  using assms
proof (induction xs arbitrary: i acc)
  case (Cons x xs)
  let ?tail = "concat (map (\<lambda>x. 46 # show_nat x) xs) @ rest"
  have "stops_number 10 ?tail" using Cons.prems(2) by (cases xs) (simp_all add: to_digit_10 is_ascii_digit_def)
  then have "read_number 10 (Some 3) False 255 (show_nat x @ ?tail) = Some (x, ?tail)"
    using Cons.prems(1) by (intro read_number_show_nat) simp_all
  then show ?case using Cons by (simp add: read_separator_def read_given_char_def)
qed simp

lemma join_str_Cons: "join_str sep (x # xs) = x @ concat (map (\<lambda>y. sep @ y) xs)"
  by (induction xs arbitrary: x) simp_all

lemma read_ipv4_addr_show:
  assumes "n < 2 ^ 32" and "stops_number 10 rest"
  shows "read_ipv4_addr (show_ipv4 n @ rest) = Some (n, rest)"
proof -
  obtain a b c d where o: "a = n div 256 ^ 3 mod 256" "b = n div 256 ^ 2 mod 256" "c = n div 256 ^ 1 mod 256"
    "d = n div 256 ^ 0 mod 256" by blast
  let ?tail = "concat (map (\<lambda>x. 46 # show_nat x) [b, c, d]) @ rest"
  have small: "a < 256" "b < 256" "c < 256" "d < 256" by (simp_all add: o)
  have "show_ipv4 n @ rest = show_nat a @ ?tail" by (simp add: show_ipv4_def ipv4_octets_def o)
  moreover have "read_number 10 (Some 3) False 255 (show_nat a @ ?tail) = Some (a, ?tail)"
    using small(1) by (intro read_number_show_nat) (simp_all add: to_digit_10 is_ascii_digit_def)
  moreover have "read_octets 3 1 a ?tail = Some (foldl (\<lambda>acc d. acc * 256 + d) a [b, c, d], rest)"
    using read_octets_show [of "[b, c, d]" rest 0 a] assms(2) small by (simp add: numeral_3_eq_3 del: read_octets.simps)
  moreover have "foldl (\<lambda>acc d. acc * 256 + d) a [b, c, d] = n"
    using positional [of 256 0 n 4] assms(1) by (simp add: upt_rec o)
  ultimately show ?thesis
    using read_octets.simps(2) [of 3 0 0 "show_nat a @ ?tail"]
    by (simp only: read_ipv4_addr_def read_separator_def) simp
qed

text \<open>Without a dot there is no IPv4 address to find, so the groups are tried as numbers.\<close>

lemma read_number_suffix: "read_number radix max_digits zeros mx s = Some (v, rest) \<Longrightarrow> set rest \<subseteq> set s"
  by (auto simp: read_number_def Let_def split: option.splits if_splits dest!: read_digits_inverse)

lemma read_ipv4_addr_dot: "46 \<notin> set s \<Longrightarrow> read_ipv4_addr s = None"
proof -
  assume s: "46 \<notin> set s"
  have "read_octets 3 1 acc rest = None" if "set rest \<subseteq> set s" for acc rest
    using s that read_octets.simps(2) [of 2 1 acc rest]
    by (cases rest) (auto simp: read_separator_def read_given_char_def)
  then show ?thesis
    using read_octets.simps(2) [of 3 0 0 s]
    by (auto simp: read_ipv4_addr_def read_separator_def dest!: read_number_suffix split: option.splits)
qed

lemma read_ipv4_addr_stops: "stops_number 10 s \<Longrightarrow> read_ipv4_addr s = None"
  using read_octets.simps(2) [of 3 0 0 s] by (simp add: read_ipv4_addr_def read_separator_def read_number_None)

text \<open>After the last group: the end, or something that is neither a digit nor a colon before one.\<close>

definition stops_groups :: "rstr \<Rightarrow> bool" where
  "stops_groups rest \<longleftrightarrow> stops_number 16 rest \<and> (rest \<noteq> [] \<and> hd rest = 58 \<longrightarrow> stops_number 16 (tl rest))"

lemma read_groups_stop:
  "stops_groups rest \<Longrightarrow> 46 \<notin> set rest \<Longrightarrow> read_groups k i rest = ([], False, rest)"
proof (cases k)
  case (Suc k')
  assume rest: "stops_groups rest" "46 \<notin> set rest"
  have "read_separator 58 i read_ipv4_addr rest = None"
    using rest(2) by (cases rest) (auto simp: read_separator_def read_given_char_def read_ipv4_addr_dot)
  moreover have "read_separator 58 i (read_number 16 (Some 4) True 65535) rest = None"
    using rest(1) by (cases rest) (auto simp: read_separator_def read_given_char_def stops_groups_def read_number_None)
  ultimately show ?thesis using Suc by simp
qed simp

lemma read_groups_step:
  assumes "read_separator 58 i read_ipv4_addr s = None"
    and "read_separator 58 i (read_number 16 (Some 4) True 65535) s = Some (g, s')"
    and "read_groups k (Suc i) s' = (gs, v4, rest)"
  shows "read_groups (Suc k) i s = (g # gs, v4, rest)"
  using assms by (subst read_groups.simps) (auto simp del: read_groups.simps)

definition group_text :: "nat list \<Rightarrow> rstr" where
  "group_text segs = concat (map (\<lambda>g. 58 # show_hex g) segs)"

lemma show_segments_Cons: "show_segments (g # gs) = show_hex g @ group_text gs"
  by (simp add: show_segments_def join_str_Cons group_text_def comp_def)

lemma show_segments_Nil [simp]: "show_segments [] = []"
  by (simp add: show_segments_def)

lemma show_hex_dot: "46 \<notin> set (show_hex n)"
  using show_hex_to_digit [of n] by (auto simp: to_digit_def)

lemma group_text_dot [simp]: "46 \<notin> set (group_text segs)"
  by (auto simp: group_text_def show_hex_dot)

lemma show_segments_dot [simp]: "46 \<notin> set (show_segments segs)"
  by (cases segs) (simp_all add: show_segments_Cons show_hex_dot)

lemma group_text_stops: "stops_groups rest \<Longrightarrow> stops_number 16 (group_text segs @ rest)"
  by (cases segs) (simp_all add: group_text_def stops_groups_def to_digit_def)

lemma read_groups_text:
  assumes "\<forall>g \<in> set segs. g < 65536" and "length segs \<le> k" and "stops_groups rest" and "46 \<notin> set rest"
  shows "read_groups k (Suc i) (group_text segs @ rest) = (segs, False, rest)"
  using assms
proof (induction segs arbitrary: k i)
  case Nil
  then show ?case by (simp add: read_groups_stop group_text_def)
next
  case (Cons g gs)
  then obtain k' where k: "k = Suc k'" by (cases k) simp_all
  let ?tail = "group_text gs @ rest"
  have written: "group_text (g # gs) @ rest = 58 # show_hex g @ ?tail" by (simp add: group_text_def)
  have "read_ipv4_addr (show_hex g @ ?tail) = None"
    using Cons.prems(4) by (intro read_ipv4_addr_dot) (simp add: show_hex_dot)
  moreover have "read_number 16 (Some 4) True 65535 (show_hex g @ ?tail) = Some (g, ?tail)"
    using Cons.prems(1) group_text_stops [OF Cons.prems(3)] by (intro read_number_show_hex) simp_all
  moreover have "read_groups k' (Suc (Suc i)) ?tail = (gs, False, rest)"
    using Cons.IH [of k' "Suc i"] Cons.prems k by simp
  ultimately show ?case
    unfolding k written by (intro read_groups_step) (simp_all add: read_separator_def read_given_char_def)
qed

lemma read_groups_show:
  assumes "\<forall>g \<in> set segs. g < 65536" and "length segs \<le> k" and "stops_groups rest" and "46 \<notin> set rest"
  shows "read_groups k 0 (show_segments segs @ rest) = (segs, False, rest)"
proof (cases segs)
  case Nil
  with assms show ?thesis by (simp add: read_groups_stop)
next
  case (Cons g gs)
  then obtain k' where k: "k = Suc k'" using assms(2) by (cases k) simp_all
  let ?tail = "group_text gs @ rest"
  have "read_ipv4_addr (show_hex g @ ?tail) = None"
    using assms(4) by (intro read_ipv4_addr_dot) (simp add: show_hex_dot)
  moreover have "read_number 16 (Some 4) True 65535 (show_hex g @ ?tail) = Some (g, ?tail)"
    using assms(1) Cons group_text_stops [OF assms(3)] by (intro read_number_show_hex) simp_all
  moreover have "read_groups k' (Suc 0) ?tail = (gs, False, rest)"
    using read_groups_text [of gs k' rest 0] assms Cons k by simp
  ultimately show ?thesis
    unfolding k Cons show_segments_Cons append_assoc by (intro read_groups_step) (simp_all add: read_separator_def)
qed

section \<open>IPv6\<close>

text \<open>The compressed run is a run of zeros.\<close>

definition zero_run :: "nat list \<Rightarrow> nat \<times> nat \<Rightarrow> bool" where
  "zero_run segs p \<longleftrightarrow> fst p + snd p \<le> length segs \<and> (\<forall>j. fst p \<le> j \<and> j < fst p + snd p \<longrightarrow> segs ! j = 0)"

lemma zero_spans_run:
  assumes "zero_run pre longest" and "zero_run pre cur" and "snd cur = 0 \<or> fst cur + snd cur = length pre"
  shows "zero_run (pre @ segs) (zero_spans (length pre) segs cur longest)"
  using assms
proof (induction segs arbitrary: pre cur longest)
  case (Cons seg segs)
  have grow: "zero_run (pre @ [seg]) p" if "zero_run pre p" for p
    using that by (auto simp: zero_run_def nth_append)
  show ?case
  proof (cases "seg = 0")
    case True
    define cur' where "cur' = (if snd cur = 0 then (length pre, 1) else (fst cur, snd cur + 1))"
    have "zero_run (pre @ [seg]) cur'" "fst cur' + snd cur' = length (pre @ [seg])"
      using Cons.prems True by (auto simp: zero_run_def cur'_def nth_append less_Suc_eq)
    then have "zero_run ((pre @ [seg]) @ segs)
        (zero_spans (length (pre @ [seg])) segs cur' (if snd cur' > snd longest then cur' else longest))"
      using grow [OF Cons.prems(1)] by (intro Cons.IH) auto
    with True show ?thesis by (simp add: cur'_def [symmetric] Let_def)
  next
    case False
    have "zero_run ((pre @ [seg]) @ segs) (zero_spans (length (pre @ [seg])) segs (0, 0) longest)"
      using grow [OF Cons.prems(1)] by (intro Cons.IH) (simp_all add: zero_run_def)
    with False show ?thesis by simp
  qed
qed simp

lemma zero_run_split:
  assumes "zero_run segs (start, len)"
  shows "segs = take start segs @ replicate len 0 @ drop (start + len) segs"
proof -
  have "take len (drop start segs) = replicate len 0"
    using assms by (intro nth_equalityI) (auto simp: zero_run_def)
  then show ?thesis
    by (metis append_take_drop_id drop_drop add.commute)
qed

lemma from_segments_show: "n < 2 ^ 128 \<Longrightarrow> from_segments (ipv6_segments n) = n"
  using positional [of 65536 0 n 8] by (simp add: from_segments_def ipv6_segments_def upt_rec)

lemma ipv6_segments_small: "\<forall>g \<in> set (ipv6_segments n). g < 65536" "length (ipv6_segments n) = 8"
  by (simp_all add: ipv6_segments_def)

text \<open>Three ways of printing: compressed, in full, and IPv4-mapped.\<close>

lemma read_compressed:
  assumes "\<forall>g \<in> set (head @ tail). g < 65536" and "length head + len + length tail = 8" and "1 < len"
    and "stops_groups rest" and "46 \<notin> set rest"
  shows "read_ipv6_addr (show_segments head @ 58 # 58 # show_segments tail @ rest)
    = Some (from_segments (head @ replicate len 0 @ tail), rest)"
proof -
  let ?rest = "58 # 58 # show_segments tail @ rest"
  have "stops_groups ?rest" by (simp add: stops_groups_def to_digit_def)
  then have "read_groups 8 0 (show_segments head @ ?rest) = (head, False, ?rest)"
    using assms by (intro read_groups_show) simp_all
  moreover have "read_groups (8 - (length head + 1)) 0 (show_segments tail @ rest) = (tail, False, rest)"
    using assms by (intro read_groups_show) simp_all
  moreover have "length head \<noteq> 8" "8 - length head - length tail = len" using assms(2,3) by linarith+
  ultimately show ?thesis by (simp add: read_ipv6_addr_def read_given_char_def)
qed

lemma read_full:
  assumes "\<forall>g \<in> set segs. g < 65536" and "length segs = 8" and "stops_groups rest" and "46 \<notin> set rest"
  shows "read_ipv6_addr (show_segments segs @ rest) = Some (from_segments segs, rest)"
  using read_groups_show [of segs 8 rest] assms by (simp add: read_ipv6_addr_def)

lemma read_mapped:
  assumes "m < 2 ^ 32" and "stops_number 10 rest"
  shows "read_ipv6_addr (lit ''::ffff:'' @ show_ipv4 m @ rest)
    = Some (from_segments [0, 0, 0, 0, 0, 65535, m div 65536, m mod 65536], rest)"
proof -
  let ?v4 = "58 # show_ipv4 m @ rest" and ?text = "lit ''::ffff:'' @ show_ipv4 m @ rest"
  have hex: "show_hex 65535 = lit ''ffff''" by (simp add: show_hex_digit show_hex_snoc)
  have head: "read_groups 8 0 ?text = ([], False, ?text)"
    using read_groups.simps(2) [of 7 0 ?text]
    by (simp add: read_separator_def read_ipv4_addr_stops read_number_None to_digit_def)
  have "read_groups 6 (Suc 0) ?v4 = ([m div 65536, m mod 65536], True, rest)"
    using read_groups.simps(2) [of 5 1 ?v4] read_ipv4_addr_show [OF assms]
    by (simp add: read_separator_def read_given_char_def)
  then have "read_groups (Suc 6) 0 (lit ''ffff'' @ ?v4) = ([65535, m div 65536, m mod 65536], True, rest)"
    using read_number_show_hex [of 65535 ?v4] hex
    by (intro read_groups_step) (simp_all add: read_separator_def read_ipv4_addr_stops to_digit_def)
  then have "read_groups 7 0 (lit ''ffff'' @ ?v4) = ([65535, m div 65536, m mod 65536], True, rest)"
    by (simp del: read_groups.simps)
  moreover have "replicate 5 0 = [0, 0, 0, 0, 0 :: nat]" by (simp add: numeral_eq_Suc)
  ultimately show ?thesis using head by (simp add: read_ipv6_addr_def read_given_char_def del: read_groups.simps)
qed

lemma show_ipv6_cases:
  assumes "n < 2 ^ 128"
  obtains (mapped) m where "m < 2 ^ 32" "show_ipv6 n = lit ''::ffff:'' @ show_ipv4 m"
      "n = from_segments [0, 0, 0, 0, 0, 65535, m div 65536, m mod 65536]"
  | (compressed) head len tail where "\<forall>g \<in> set (head @ tail). g < 65536" "length head + len + length tail = 8"
      "1 < len" "show_ipv6 n = show_segments head @ 58 # 58 # show_segments tail"
      "n = from_segments (head @ replicate len 0 @ tail)"
  | (full) segs where "\<forall>g \<in> set segs. g < 65536" "length segs = 8" "show_ipv6 n = show_segments segs"
      "n = from_segments segs"
proof -
  let ?segs = "ipv6_segments n"
  obtain start len where z: "zero_spans 0 ?segs (0, 0) (0, 0) = (start, len)" by fastforce
  have run: "zero_run ?segs (start, len)"
    using zero_spans_run [of "[]" "(0, 0)" "(0, 0)" ?segs] z by (simp add: zero_run_def)
  note n = from_segments_show [OF assms, symmetric]
  show thesis
  proof (cases "take 6 ?segs = [0, 0, 0, 0, 0, 0xFFFF]")
    case True
    let ?m = "n mod 2 ^ 32"
    have m: "?m div 65536 = n div 65536 mod 65536" "?m mod 65536 = n mod 65536"
      using mod_mult2_eq [of n 65536 65536] by simp_all
    have "?segs = take 6 ?segs @ [n div 65536 mod 65536, n mod 65536]" by (simp add: ipv6_segments_def)
    then have "n = from_segments [0, 0, 0, 0, 0, 65535, ?m div 65536, ?m mod 65536]" using n True m by simp
    moreover have "show_ipv6 n = lit ''::ffff:'' @ show_ipv4 ?m" using True z by (simp add: show_ipv6_def Let_def)
    ultimately show thesis using mapped [of ?m] by simp
  next
    case other: False
    show thesis
    proof (cases "1 < len")
      case True
      let ?head = "take start ?segs" and ?tail = "drop (start + len) ?segs"
      have bound: "start + len \<le> 8" using run by (simp add: zero_run_def ipv6_segments_small)
      have "show_ipv6 n = show_segments ?head @ 58 # 58 # show_segments ?tail"
        using other z True by (simp add: show_ipv6_def Let_def)
      moreover have "length ?head + len + length ?tail = 8" using bound by (simp add: ipv6_segments_small)
      moreover have "\<forall>g \<in> set (?head @ ?tail). g < 65536"
        using ipv6_segments_small(1) [of n] by (auto dest: in_set_takeD in_set_dropD)
      ultimately show thesis using compressed True n zero_run_split [OF run] by metis
    next
      case False
      then show thesis using other z full [of ?segs] n ipv6_segments_small by (simp add: show_ipv6_def Let_def)
    qed
  qed
qed

lemma read_ipv6_addr_show:
  assumes "n < 2 ^ 128" and "stops_groups rest" and "46 \<notin> set rest" and "stops_number 10 rest"
  shows "read_ipv6_addr (show_ipv6 n @ rest) = Some (n, rest)"
  using assms(1)
proof (cases rule: show_ipv6_cases)
  case (mapped m)
  then show ?thesis using read_mapped [of m rest] assms(4) by (simp only: append_assoc)
next
  case (compressed head len tail)
  then show ?thesis using read_compressed [of head tail len rest] assms(2,3) by simp
next
  case (full segs)
  then show ?thesis using read_full [of segs rest] assms(2,3) by simp
qed

lemma show_ipv6_not_ipv4:
  assumes "n < 2 ^ 128" and "46 \<notin> set rest"
  shows "read_ipv4_addr (show_ipv6 n @ rest) = None"
  using assms(1)
proof (cases rule: show_ipv6_cases)
  case (mapped m)
  then show ?thesis by (simp add: read_ipv4_addr_stops to_digit_def)
qed (use assms(2) in \<open>simp_all add: read_ipv4_addr_dot\<close>)

section \<open>Only canonical text denotes an IPv4 address\<close>

lemma show_nat_canonical:
  assumes "ds \<noteq> []" and "\<forall>c \<in> set ds. is_ascii_digit c" and "hd ds \<noteq> 48 \<or> length ds = 1"
  shows "show_nat (digits_value 10 0 ds) = ds"
  using assms
proof (induction ds rule: rev_induct)
  case (snoc c xs)
  obtain d where c: "c = 48 + d" "d < 10" "to_digit 10 c = Some d"
    using snoc.prems(2) by (intro that [of "c - 48"]) (auto simp: to_digit_10 is_ascii_digit_def)
  show ?case
  proof (cases xs)
    case Nil
    with c show ?thesis by (simp add: show_nat_digit)
  next
    case (Cons x xs')
    with snoc have IH: "show_nat (digits_value 10 0 xs) = xs" by simp
    have "digits_value 10 0 xs \<noteq> 0"
    proof
      assume "digits_value 10 0 xs = 0"
      with IH have "xs = [48]" by (simp add: show_nat_zero)
      with snoc.prems(3) show False by simp
    qed
    with c IH show ?thesis by (subst show_nat_snoc) simp_all
  qed
qed simp

lemma read_octet_inverse:
  assumes "read_number 10 (Some 3) False 255 s = Some (v, rest)"
  shows "s = show_nat v @ rest \<and> v < 256 \<and> stops_number 10 rest"
proof -
  obtain count where r: "read_digits 10 (Some 3) 255 0 0 s = Some (count, v, rest)" "count \<noteq> 0" "v \<le> 255"
      "s \<noteq> [] \<and> hd s = 48 \<longrightarrow> count \<le> 1"
    using assms by (auto simp: read_number_def Let_def split: option.splits if_splits)
  then obtain ds where ds: "s = ds @ rest" "\<forall>c \<in> set ds. to_digit 10 c \<noteq> None" "stops_number 10 rest"
      "count = length ds" "v = digits_value 10 0 ds"
    by (auto dest: read_digits_inverse)
  have "show_nat v = ds" unfolding ds(5)
    using ds(1,2,4) r(2,4) by (intro show_nat_canonical) (auto simp: to_digit_10 le_Suc_eq split: if_splits)
  with ds r(3) show ?thesis by simp
qed

lemma read_octets_inverse:
  assumes "read_octets k (Suc i) acc s = Some (n, rest)"
  shows "\<exists>xs. length xs = k \<and> (\<forall>x \<in> set xs. x < 256) \<and> s = concat (map (\<lambda>x. 46 # show_nat x) xs) @ rest
    \<and> n = foldl (\<lambda>acc d. acc * 256 + d) acc xs"
  using assms
proof (induction k arbitrary: i acc s)
  case (Suc k)
  from Suc.prems obtain octet s' s'' where o: "s = 46 # s''" "read_number 10 (Some 3) False 255 s'' = Some (octet, s')"
      "read_octets k (Suc (Suc i)) (acc * 256 + octet) s' = Some (n, rest)"
    by (auto simp: read_separator_def read_given_char_def split: option.splits list.splits if_splits)
  from Suc.IH [OF o(3)] obtain xs where "length xs = k" "\<forall>x \<in> set xs. x < 256"
      "s' = concat (map (\<lambda>x. 46 # show_nat x) xs) @ rest" "n = foldl (\<lambda>acc d. acc * 256 + d) (acc * 256 + octet) xs"
    by blast
  with o(1) read_octet_inverse [OF o(2)] show ?case by (intro exI [of _ "octet # xs"]) simp
qed simp

lemma read_ipv4_addr_inverse:
  assumes "read_ipv4_addr s = Some (n, rest)"
  shows "s = show_ipv4 n @ rest \<and> n < 2 ^ 32"
proof -
  obtain a s' where a: "read_number 10 (Some 3) False 255 s = Some (a, s')" "read_octets 3 (Suc 0) a s' = Some (n, rest)"
    using assms read_octets.simps(2) [of 3 0 0 s]
    by (auto simp: read_ipv4_addr_def read_separator_def split: option.splits)
  note oa = read_octet_inverse [OF a(1)]
  obtain xs where xs: "length xs = 3" "\<forall>x \<in> set xs. x < 256" "s' = concat (map (\<lambda>x. 46 # show_nat x) xs) @ rest"
      "n = foldl (\<lambda>acc d. acc * 256 + d) a xs"
    using read_octets_inverse [OF a(2)] by blast
  then obtain b c d where bcd: "xs = [b, c, d]" by (auto simp: length_Suc_conv numeral_3_eq_3)
  have small: "a < 256" "b < 256" "c < 256" "d < 256" using oa xs(2) bcd by auto
  have n: "n = ((a * 256 + b) * 256 + c) * 256 + d" using xs(4) bcd by simp
  have split: "(k * 256 + x) div 256 = k" "(k * 256 + x) mod 256 = x" if "x < 256" for k x :: nat
    using that by simp_all
  have "n div 256 = (a * 256 + b) * 256 + c" "n mod 256 = d" unfolding n by (rule split [OF small(4)])+
  moreover from this(1) have "n div 256 div 256 = a * 256 + b" "n div 256 mod 256 = c"
    by (simp_all only: split [OF small(3)])
  moreover from this(1) have "n div 256 div 256 div 256 = a" "n div 256 div 256 mod 256 = b"
    by (simp_all only: split [OF small(2)])
  moreover have "n div 65536 = n div 256 div 256" "n div 16777216 = n div 256 div 256 div 256"
    by (simp_all add: div_mult2_eq [symmetric])
  ultimately have "ipv4_octets n = [a, b, c, d]" using small(1) by (simp only: ipv4_octets_def) simp
  then have "show_ipv4 n @ rest = s" using oa xs(3) bcd by (simp add: show_ipv4_def)
  moreover have "n < 2 ^ 32" using small n by simp
  ultimately show ?thesis by simp
qed

section \<open>Addresses and their text\<close>

lemma unat_32: "unat (a :: 32 word) < 2 ^ 32" and unat_128: "unat (b :: 128 word) < 2 ^ 128"
  using unsigned_less [of a] unsigned_less [of b] by simp_all

lemma parse_ip_addr_show: "parse_ip_addr (show_ip a) = Some a"
proof (cases a)
  case (V4 w)
  with read_ipv4_addr_show [OF unat_32, of "[]" w] show ?thesis
    by (simp add: parse_ip_addr_def parse_with_def read_ip_addr_def)
next
  case (V6 w)
  with read_ipv6_addr_show [OF unat_128, of "[]" w] show_ipv6_not_ipv4 [OF unat_128, of "[]" w] show ?thesis
    by (simp add: parse_ip_addr_def parse_with_def read_ip_addr_def stops_groups_def)
qed

lemma parse_ip_addr_v4: "parse_ip_addr s = Some (V4 a) \<Longrightarrow> s = show_ip (V4 a)"
  by (auto simp: parse_ip_addr_def parse_with_def read_ip_addr_def unat_of_nat take_bit_eq_mod
      dest!: read_ipv4_addr_inverse split: option.splits if_splits prod.splits)

lemma read_port_show: "read_port (58 # show_nat (unat p)) = Some (p, [])"
proof -
  have "unat p \<le> 65535" using unsigned_less [of p, where ?'a = nat] by simp
  from read_number_show_nat [OF this, of "[]" None] show ?thesis by (simp add: read_port_def read_given_char_def)
qed

lemma parse_socket_addr_show: "parse_socket_addr (show_socket_addr a) = Some a"
proof (cases a rule: show_socket_addr.cases)
  case (1 w p)
  have "read_ipv4_addr (show_ipv4 (unat w) @ 58 # show_nat (unat p)) = Some (unat w, 58 # show_nat (unat p))"
    using unat_32 by (intro read_ipv4_addr_show) (simp_all add: to_digit_def)
  with 1 show ?thesis by (simp add: parse_socket_addr_def parse_with_def read_socket_addr_v4_def read_port_show)
next
  case (2 w p)
  let ?rest = "93 # 58 # show_nat (unat p)"
  have "read_ipv6_addr (show_ipv6 (unat w) @ ?rest) = Some (unat w, ?rest)"
    using unat_128 by (intro read_ipv6_addr_show)
      (simp_all add: stops_groups_def to_digit_def show_nat_notin is_ascii_digit_def)
  moreover have "read_ipv4_addr (91 # s) = None" for s by (simp add: read_ipv4_addr_stops to_digit_def)
  ultimately show ?thesis
    using 2 by (simp add: parse_socket_addr_def parse_with_def read_socket_addr_v4_def read_socket_addr_v6_def
        read_given_char_def skip_scope_id_def read_port_show)
qed

text \<open>
  Address literals are read the way they are printed. Every IPv4 and IPv6 address, and every
  socket address, is read back from its printed form, whichever run of zeros \<open>::\<close> stands for and
  with an IPv4-mapped tail too. An IPv4 literal has no other spelling: whatever text the parser
  takes for one (no octal zeros, no missing parts, no spaces) is its printed form.\<close>
lemma address_literals_roundtrip:
  "parse_ip_addr (show_ip a) = Some a \<and> parse_socket_addr (show_socket_addr sa) = Some sa
   \<and> (parse_ip_addr s = Some (V4 w) \<longleftrightarrow> s = show_ip (V4 w))"
  using parse_ip_addr_show parse_socket_addr_show parse_ip_addr_v4 by blast

end
