(* ===== verification/Webhook_Url.thy ===== *)
theory Webhook_Url
  imports Prelude
begin

text \<open>
  The URL checks of \<open>src/src/notify.rs\<close>. The \<open>url\<close> crate is a parameter: a record of the
  operations the program calls on it.
\<close>

record 'u url_lib =
  ul_parse :: "rstr \<Rightarrow> rstr + 'u"
  ul_scheme :: "'u \<Rightarrow> rstr"
  ul_host_str :: "'u \<Rightarrow> rstr option"
  ul_set_username :: "rstr \<Rightarrow> 'u \<Rightarrow> 'u"
  ul_set_password :: "rstr option \<Rightarrow> 'u \<Rightarrow> 'u"
  ul_query :: "'u \<Rightarrow> rstr option"
  ul_query_pairs :: "'u \<Rightarrow> (rstr \<times> rstr) list"
  ul_set_query :: "rstr option \<Rightarrow> 'u \<Rightarrow> 'u"
  ul_to_string :: "'u \<Rightarrow> rstr"

datatype url_error = NotAValidUrl rstr | UnsupportedScheme rstr | MissingHost

definition validate_webhook_url :: "'u url_lib \<Rightarrow> rstr \<Rightarrow> url_error + 'u" where
  "validate_webhook_url lib raw =
     and_then (map_err NotAValidUrl (ul_parse lib (trim raw))) (\<lambda>url.
       if ul_scheme lib url = lit ''https'' \<or> ul_scheme lib url = lit ''http''
       then (case ul_host_str lib url of
               None \<Rightarrow> Inl MissingHost
             | Some h \<Rightarrow> if h = [] then Inl MissingHost else Inr url)
       else Inl (UnsupportedScheme (ul_scheme lib url)))"

definition redact_url :: "'u url_lib \<Rightarrow> 'u \<Rightarrow> rstr" where
  "redact_url lib url =
     (let r = ul_set_password lib None (ul_set_username lib [] url) in
      if ul_query lib r \<noteq> None
      then let pairs = map (\<lambda>(k, _). k @ lit ''=***'') (ul_query_pairs lib url)
           in ul_to_string lib (ul_set_query lib (Some (join_str (lit ''&'') pairs)) r)
      else ul_to_string lib r)"

lemma validate_webhook_url_Inr:
  "validate_webhook_url lib raw = Inr u \<longleftrightarrow>
     ul_parse lib (trim raw) = Inr u
     \<and> (ul_scheme lib u = lit ''https'' \<or> ul_scheme lib u = lit ''http'')
     \<and> (\<exists>h. ul_host_str lib u = Some h \<and> h \<noteq> [])"
  by (cases "ul_parse lib (trim raw)")
    (auto simp: validate_webhook_url_def split: if_splits option.splits)

end
