(* ===== verification/Config_Settings.thy ===== *)
theory Config_Settings
  imports Config_Ports Ip_Parse Webhook_Url
begin

text \<open>
  The runtime settings of \<open>src/src/config.rs\<close>: the \<open>settings:\<close> block, its validation at
  startup, its clamping on a hot reload, the live knobs every connection reads, the command
  line overrides, and the loading of forwarders from environment, command line and file.

  The file system, the YAML parser (\<open>serde_saphyr\<close> with the derived deserializers, which
  fill in the field defaults), the socket-address parser and the \<open>url\<close> crate are
  parameters. Settings are unsigned integers that the program compares and stores but never
  adds, so they are natural numbers here.
\<close>

section \<open>Settings\<close>

definition MIN_BUFFER_BYTES :: nat where "MIN_BUFFER_BYTES = 1024"
definition MAX_BUFFER_BYTES :: nat where "MAX_BUFFER_BYTES = 16 * 1024 * 1024"
definition MAX_UDP_SESSIONS :: nat where "MAX_UDP_SESSIONS = 1048576"

record settings =
  st_metrics_addr :: "rstr option"
  st_report_interval_secs :: nat
  st_sample_interval_secs :: nat
  st_buffer_bytes :: nat
  st_socket_buffer_bytes :: "nat option"
  st_use_splice :: bool
  st_max_connections :: "nat option"
  st_connect_timeout_secs :: nat
  st_dns_timeout_secs :: nat
  st_keepalive_idle_secs :: nat
  st_keepalive_interval_secs :: nat
  st_keepalive_retries :: nat
  st_webhook_url :: "rstr option"
  st_instance_name :: "rstr option"
  st_probe_interval_secs :: nat
  st_unreachable_after_secs :: nat
  st_udp_session_timeout_secs :: nat
  st_udp_max_sessions :: nat
  st_udp_gro_gso :: bool

definition default_report_interval :: nat where "default_report_interval = 60"
definition default_sample_interval :: nat where "default_sample_interval = 1"
definition default_buffer_bytes :: nat where "default_buffer_bytes = 65536"
definition default_use_splice :: bool where "default_use_splice = False"
definition default_connect_timeout :: nat where "default_connect_timeout = 10"
definition default_dns_timeout :: nat where "default_dns_timeout = 5"
definition default_keepalive_idle :: nat where "default_keepalive_idle = 60"
definition default_keepalive_interval :: nat where "default_keepalive_interval = 10"
definition default_keepalive_retries :: nat where "default_keepalive_retries = 3"
definition default_probe_interval :: nat where "default_probe_interval = 30"
definition default_unreachable_after :: nat where "default_unreachable_after = 300"
definition default_udp_session_timeout :: nat where "default_udp_session_timeout = 60"
definition default_udp_max_sessions :: nat where "default_udp_max_sessions = 16384"

definition settings_default :: settings where
  "settings_default =
     \<lparr>st_metrics_addr = None,
      st_report_interval_secs = default_report_interval,
      st_sample_interval_secs = default_sample_interval,
      st_buffer_bytes = default_buffer_bytes,
      st_socket_buffer_bytes = None,
      st_use_splice = default_use_splice,
      st_max_connections = None,
      st_connect_timeout_secs = default_connect_timeout,
      st_dns_timeout_secs = default_dns_timeout,
      st_keepalive_idle_secs = default_keepalive_idle,
      st_keepalive_interval_secs = default_keepalive_interval,
      st_keepalive_retries = default_keepalive_retries,
      st_webhook_url = None,
      st_instance_name = None,
      st_probe_interval_secs = default_probe_interval,
      st_unreachable_after_secs = default_unreachable_after,
      st_udp_session_timeout_secs = default_udp_session_timeout,
      st_udp_max_sessions = default_udp_max_sessions,
      st_udp_gro_gso = False\<rparr>"

datatype setting_error =
    ReportIntervalZero | SampleIntervalZero | ConnectTimeoutZero | DnsTimeoutZero
  | BufferBytesOutOfRange nat | SocketBufferZero | MaxConnectionsZero | MetricsAddrInvalid rstr
  | KeepaliveIntervalZero | KeepaliveRetriesZero | ProbeIntervalZero | UnreachableAfterZero
  | UdpSessionTimeoutZero | UdpMaxSessionsOutOfRange nat | WebhookUrlInvalid url_error

definition validate :: "'u url_lib \<Rightarrow> settings \<Rightarrow> setting_error + unit" where
  "validate lib s =
     (if st_report_interval_secs s = 0 then Inl ReportIntervalZero
      else if st_sample_interval_secs s = 0 then Inl SampleIntervalZero
      else if st_connect_timeout_secs s = 0 then Inl ConnectTimeoutZero
      else if st_dns_timeout_secs s = 0 then Inl DnsTimeoutZero
      else if \<not> (MIN_BUFFER_BYTES \<le> st_buffer_bytes s \<and> st_buffer_bytes s \<le> MAX_BUFFER_BYTES)
        then Inl (BufferBytesOutOfRange (st_buffer_bytes s))
      else if st_socket_buffer_bytes s = Some 0 then Inl SocketBufferZero
      else if st_max_connections s = Some 0 then Inl MaxConnectionsZero
      else if (case st_metrics_addr s of None \<Rightarrow> False | Some a \<Rightarrow> parse_socket_addr a = None)
        then Inl (MetricsAddrInvalid (the (st_metrics_addr s)))
      else if st_keepalive_idle_secs s > 0 \<and> st_keepalive_interval_secs s = 0
        then Inl KeepaliveIntervalZero
      else if st_keepalive_idle_secs s > 0 \<and> st_keepalive_retries s = 0
        then Inl KeepaliveRetriesZero
      else if st_probe_interval_secs s = 0 then Inl ProbeIntervalZero
      else if st_unreachable_after_secs s = 0 then Inl UnreachableAfterZero
      else if st_udp_session_timeout_secs s = 0 then Inl UdpSessionTimeoutZero
      else if \<not> (1 \<le> st_udp_max_sessions s \<and> st_udp_max_sessions s \<le> MAX_UDP_SESSIONS)
        then Inl (UdpMaxSessionsOutOfRange (st_udp_max_sessions s))
      else case st_webhook_url s of
             None \<Rightarrow> Inr ()
           | Some url \<Rightarrow> map_ok (\<lambda>_. ()) (map_err WebhookUrlInvalid (validate_webhook_url lib url)))"

text \<open>\<open>Ord::clamp\<close>; the program only calls it with \<open>lo \<le> hi\<close>.\<close>

definition clamp_nat :: "nat \<Rightarrow> nat \<Rightarrow> nat \<Rightarrow> nat" where
  "clamp_nat lo hi x = (if x < lo then lo else if x > hi then hi else x)"

definition floor_u64 :: "nat \<Rightarrow> nat \<Rightarrow> nat" where
  "floor_u64 mn value = (if value < mn then mn else value)"

text \<open>
  Every field is clamped on its own, the two keepalive fields only while keepalive is on
  (\<open>keepalive_idle_secs\<close> itself is never changed), so the in-place edits are one update.
\<close>

definition clamp_in_place :: "settings \<Rightarrow> settings" where
  "clamp_in_place s =
     s\<lparr>st_report_interval_secs := floor_u64 1 (st_report_interval_secs s),
       st_sample_interval_secs := floor_u64 1 (st_sample_interval_secs s),
       st_connect_timeout_secs := floor_u64 1 (st_connect_timeout_secs s),
       st_dns_timeout_secs := floor_u64 1 (st_dns_timeout_secs s),
       st_probe_interval_secs := floor_u64 1 (st_probe_interval_secs s),
       st_unreachable_after_secs := floor_u64 1 (st_unreachable_after_secs s),
       st_udp_session_timeout_secs := floor_u64 1 (st_udp_session_timeout_secs s),
       st_buffer_bytes := clamp_nat MIN_BUFFER_BYTES MAX_BUFFER_BYTES (st_buffer_bytes s),
       st_udp_max_sessions := clamp_nat 1 MAX_UDP_SESSIONS (st_udp_max_sessions s),
       st_socket_buffer_bytes :=
         (if st_socket_buffer_bytes s = Some 0 then None else st_socket_buffer_bytes s),
       st_max_connections :=
         (if st_max_connections s = Some 0 then None else st_max_connections s),
       st_keepalive_interval_secs :=
         (if st_keepalive_idle_secs s > 0 then floor_u64 1 (st_keepalive_interval_secs s)
          else st_keepalive_interval_secs s),
       st_keepalive_retries :=
         (if st_keepalive_idle_secs s > 0 \<and> st_keepalive_retries s = 0 then 1
          else st_keepalive_retries s)\<rparr>"

section \<open>Live knobs\<close>

record keepalive_config =
  ka_idle :: duration
  ka_interval :: duration
  ka_retries :: nat

record runtime_knobs =
  kn_buffer_bytes :: nat
  kn_socket_buffer_bytes :: nat
  kn_use_splice :: bool
  kn_connect_timeout_secs :: nat
  kn_dns_timeout_secs :: nat
  kn_keepalive_idle_secs :: nat
  kn_keepalive_interval_secs :: nat
  kn_keepalive_retries :: nat
  kn_probe_interval_secs :: nat
  kn_unreachable_after_secs :: nat
  kn_udp_session_timeout_secs :: nat
  kn_udp_gro_gso :: bool

definition knobs_update :: "runtime_knobs \<Rightarrow> settings \<Rightarrow> runtime_knobs" where
  "knobs_update k s0 =
     (let s = clamp_in_place s0 in
      k\<lparr>kn_buffer_bytes := st_buffer_bytes s,
        kn_socket_buffer_bytes := (case st_socket_buffer_bytes s of None \<Rightarrow> 0 | Some n \<Rightarrow> n),
        kn_use_splice := st_use_splice s,
        kn_connect_timeout_secs := st_connect_timeout_secs s,
        kn_dns_timeout_secs := st_dns_timeout_secs s,
        kn_keepalive_idle_secs := st_keepalive_idle_secs s,
        kn_keepalive_interval_secs := st_keepalive_interval_secs s,
        kn_keepalive_retries := st_keepalive_retries s,
        kn_probe_interval_secs := st_probe_interval_secs s,
        kn_unreachable_after_secs := st_unreachable_after_secs s,
        kn_udp_session_timeout_secs := st_udp_session_timeout_secs s,
        kn_udp_gro_gso := st_udp_gro_gso s\<rparr>)"

definition knobs_from_settings :: "settings \<Rightarrow> runtime_knobs" where
  "knobs_from_settings s =
     knobs_update
       \<lparr>kn_buffer_bytes = default_buffer_bytes, kn_socket_buffer_bytes = 0, kn_use_splice = False,
        kn_connect_timeout_secs = default_connect_timeout, kn_dns_timeout_secs = default_dns_timeout,
        kn_keepalive_idle_secs = default_keepalive_idle,
        kn_keepalive_interval_secs = default_keepalive_interval,
        kn_keepalive_retries = default_keepalive_retries,
        kn_probe_interval_secs = default_probe_interval,
        kn_unreachable_after_secs = default_unreachable_after,
        kn_udp_session_timeout_secs = default_udp_session_timeout,
        kn_udp_gro_gso = False\<rparr> s"

definition knob_udp_session_timeout :: "runtime_knobs \<Rightarrow> duration" where
  "knob_udp_session_timeout k = from_secs (max (kn_udp_session_timeout_secs k) 1)"

definition knob_probe_interval :: "runtime_knobs \<Rightarrow> duration" where
  "knob_probe_interval k = from_secs (max (kn_probe_interval_secs k) 1)"

definition knob_unreachable_after :: "runtime_knobs \<Rightarrow> duration" where
  "knob_unreachable_after k = from_secs (max (kn_unreachable_after_secs k) 1)"

definition knob_connect_timeout :: "runtime_knobs \<Rightarrow> duration" where
  "knob_connect_timeout k = from_secs (max (kn_connect_timeout_secs k) 1)"

definition knob_dns_timeout :: "runtime_knobs \<Rightarrow> duration" where
  "knob_dns_timeout k = from_secs (max (kn_dns_timeout_secs k) 1)"

definition knob_keepalive :: "runtime_knobs \<Rightarrow> keepalive_config option" where
  "knob_keepalive k =
     (if kn_keepalive_idle_secs k = 0 then None
      else Some \<lparr>ka_idle = from_secs (kn_keepalive_idle_secs k),
                 ka_interval = from_secs (max (kn_keepalive_interval_secs k) 1),
                 ka_retries = max (kn_keepalive_retries k) 1\<rparr>)"

definition knob_socket_buffer_bytes :: "runtime_knobs \<Rightarrow> nat option" where
  "knob_socket_buffer_bytes k =
     (if kn_socket_buffer_bytes k = 0 then None else Some (kn_socket_buffer_bytes k))"

record knob_snapshot =
  ks_buffer_bytes :: nat
  ks_socket_buffer_bytes :: "nat option"
  ks_use_splice :: bool
  ks_connect_timeout :: duration
  ks_dns_timeout :: duration
  ks_keepalive :: "keepalive_config option"

definition knobs_snapshot :: "runtime_knobs \<Rightarrow> knob_snapshot" where
  "knobs_snapshot k =
     \<lparr>ks_buffer_bytes = kn_buffer_bytes k,
      ks_socket_buffer_bytes = knob_socket_buffer_bytes k,
      ks_use_splice = kn_use_splice k,
      ks_connect_timeout = knob_connect_timeout k,
      ks_dns_timeout = knob_dns_timeout k,
      ks_keepalive = knob_keepalive k\<rparr>"

section \<open>Command line\<close>

record cli_args =
  cli_config_file :: "rstr option"
  cli_metrics_addr :: "rstr option"
  cli_report_interval_secs :: "nat option"
  cli_sample_interval_secs :: "nat option"
  cli_buffer_bytes :: "nat option"
  cli_socket_buffer_bytes :: "nat option"
  cli_use_splice :: bool
  cli_max_connections :: "nat option"
  cli_connect_timeout_secs :: "nat option"
  cli_dns_timeout_secs :: "nat option"
  cli_keepalive_idle_secs :: "nat option"
  cli_keepalive_interval_secs :: "nat option"
  cli_keepalive_retries :: "nat option"
  cli_webhook_url :: "rstr option"
  cli_instance_name :: "rstr option"
  cli_probe_interval_secs :: "nat option"
  cli_unreachable_after_secs :: "nat option"
  cli_udp_session_timeout_secs :: "nat option"
  cli_udp_max_sessions :: "nat option"
  cli_udp_gro_gso :: bool
  cli_log_dir :: rstr
  cli_health_check :: "rstr option"
  cli_forwarders :: "rstr list"

definition cli_default :: cli_args where
  "cli_default =
     \<lparr>cli_config_file = None, cli_metrics_addr = None, cli_report_interval_secs = None,
      cli_sample_interval_secs = None, cli_buffer_bytes = None, cli_socket_buffer_bytes = None,
      cli_use_splice = False, cli_max_connections = None, cli_connect_timeout_secs = None,
      cli_dns_timeout_secs = None, cli_keepalive_idle_secs = None,
      cli_keepalive_interval_secs = None, cli_keepalive_retries = None, cli_webhook_url = None,
      cli_instance_name = None, cli_probe_interval_secs = None, cli_unreachable_after_secs = None,
      cli_udp_session_timeout_secs = None, cli_udp_max_sessions = None, cli_udp_gro_gso = False,
      cli_log_dir = lit ''logs'', cli_health_check = None, cli_forwarders = []\<rparr>"

text \<open>\<open>if let Some(v) = flag { field = v }\<close>\<close>

definition override :: "'a option \<Rightarrow> 'a \<Rightarrow> 'a" where
  "override flag field = (case flag of Some v \<Rightarrow> v | None \<Rightarrow> field)"

definition override_opt :: "'a option \<Rightarrow> 'a option \<Rightarrow> 'a option" where
  "override_opt flag field = (case flag of Some v \<Rightarrow> Some v | None \<Rightarrow> field)"

definition apply_cli_overrides :: "settings \<Rightarrow> cli_args \<Rightarrow> settings" where
  "apply_cli_overrides s cli =
     \<lparr>st_metrics_addr = override_opt (cli_metrics_addr cli) (st_metrics_addr s),
      st_report_interval_secs = override (cli_report_interval_secs cli) (st_report_interval_secs s),
      st_sample_interval_secs = override (cli_sample_interval_secs cli) (st_sample_interval_secs s),
      st_buffer_bytes = override (cli_buffer_bytes cli) (st_buffer_bytes s),
      st_socket_buffer_bytes =
        override_opt (cli_socket_buffer_bytes cli) (st_socket_buffer_bytes s),
      st_use_splice = (if cli_use_splice cli then True else st_use_splice s),
      st_max_connections =
        override_opt (cli_max_connections cli) (st_max_connections s),
      st_connect_timeout_secs = override (cli_connect_timeout_secs cli) (st_connect_timeout_secs s),
      st_dns_timeout_secs = override (cli_dns_timeout_secs cli) (st_dns_timeout_secs s),
      st_keepalive_idle_secs = override (cli_keepalive_idle_secs cli) (st_keepalive_idle_secs s),
      st_keepalive_interval_secs =
        override (cli_keepalive_interval_secs cli) (st_keepalive_interval_secs s),
      st_keepalive_retries = override (cli_keepalive_retries cli) (st_keepalive_retries s),
      st_webhook_url =
        (case cli_webhook_url cli of
           Some url \<Rightarrow> if trim url = [] then None else Some url
         | None \<Rightarrow> st_webhook_url s),
      st_instance_name =
        override_opt (cli_instance_name cli) (st_instance_name s),
      st_probe_interval_secs = override (cli_probe_interval_secs cli) (st_probe_interval_secs s),
      st_unreachable_after_secs =
        override (cli_unreachable_after_secs cli) (st_unreachable_after_secs s),
      st_udp_session_timeout_secs =
        override (cli_udp_session_timeout_secs cli) (st_udp_session_timeout_secs s),
      st_udp_max_sessions = override (cli_udp_max_sessions cli) (st_udp_max_sessions s),
      st_udp_gro_gso = (if cli_udp_gro_gso cli then True else st_udp_gro_gso s)\<rparr>"

section \<open>Loading\<close>

datatype config_error =
    CfgIo io_error
  | CfgYaml rstr
  | CfgSpec spec_error
  | CfgSetting setting_error

text \<open>
  What the loaders need from outside: file contents, the YAML parser (the raw entries and
  the settings block with its defaults filled in), and the environment in the order
  \<open>std::env::vars\<close> yields it.
\<close>

record load_env =
  le_read :: "rstr \<Rightarrow> io_error + rstr"
  le_yaml :: "rstr \<Rightarrow> rstr + (raw_forwarder list \<times> settings)"
  le_vars :: "(rstr \<times> rstr) list"

definition deserialize_forwarders :: "raw_forwarder list \<Rightarrow> spec_error + forwarder_config list" where
  "deserialize_forwarders raw =
     and_then (collect_results (map into_spec raw)) (\<lambda>specs. expand_specs specs)"

record config_file =
  cf_forwarders :: "forwarder_config list"
  cf_settings :: settings

definition parse_config_file :: "load_env \<Rightarrow> rstr \<Rightarrow> config_error + config_file" where
  "parse_config_file le content =
     and_then (map_err CfgYaml (le_yaml le content)) (\<lambda>(raw, settings).
     and_then (map_err CfgSpec (deserialize_forwarders raw)) (\<lambda>forwarders.
     Inr \<lparr>cf_forwarders = forwarders, cf_settings = settings\<rparr>))"

definition load_yaml_config :: "load_env \<Rightarrow> rstr \<Rightarrow> config_error + config_file" where
  "load_yaml_config le path =
     and_then (map_err CfgIo (le_read le path)) (\<lambda>content.
     and_then (parse_config_file le content) (\<lambda>cf.
     and_then (map_err CfgSpec (validate_no_duplicates (cf_forwarders cf))) (\<lambda>_.
     Inr cf)))"

definition load_yaml_forwarders :: "load_env \<Rightarrow> rstr \<Rightarrow> config_error + forwarder_config list" where
  "load_yaml_forwarders le path = map_ok cf_forwarders (load_yaml_config le path)"

definition env_index :: "rstr \<Rightarrow> nat option" where
  "env_index key =
     (case strip_prefix (lit ''RFW_FORWARDER_'') key of
        None \<Rightarrow> None
      | Some suffix \<Rightarrow> (case parse_u64 suffix of Inl _ \<Rightarrow> None | Inr i \<Rightarrow> Some i))"

fun env_entries :: "(rstr \<times> rstr) list \<Rightarrow> (nat \<times> rstr \<times> rstr) list" where
  "env_entries [] = []"
| "env_entries ((key, value) # vars) =
     (case env_index key of
        None \<Rightarrow> env_entries vars
      | Some index \<Rightarrow> (index, key, value) # env_entries vars)"

fun env_specs :: "(nat \<times> rstr \<times> rstr) list \<Rightarrow> forwarder_spec list" where
  "env_specs [] = []"
| "env_specs ((_, key, value) # entries) =
     (case parse_forwarder_spec value of
        Inr spec \<Rightarrow> spec # env_specs entries
      | Inl error \<Rightarrow> env_specs entries)"

definition load_env_forwarders :: "(rstr \<times> rstr) list \<Rightarrow> spec_error + forwarder_config list" where
  "load_env_forwarders vars = expand_specs (env_specs (sort_key fst (env_entries vars)))"

datatype forwarder_source = SrcEnv | SrcCli | SrcFile | SrcNone

fun source_fmt :: "forwarder_source \<Rightarrow> rstr" where
  "source_fmt SrcEnv = lit ''RFW_FORWARDER_N environment variables''"
| "source_fmt SrcCli = lit ''command-line arguments''"
| "source_fmt SrcFile = lit ''config file''"
| "source_fmt SrcNone = lit ''nowhere''"

definition load_forwarders_with_source ::
  "load_env \<Rightarrow> cli_args \<Rightarrow> config_error + (forwarder_config list \<times> forwarder_source)" where
  "load_forwarders_with_source le cli =
     and_then
       (if cli_forwarders cli \<noteq> []
        then map_err CfgSpec
               (and_then (collect_results (map parse_forwarder_spec (cli_forwarders cli))) (\<lambda>specs.
                and_then (expand_specs specs) (\<lambda>fwds. Inr (fwds, SrcCli))))
        else case cli_config_file cli of
               Some path \<Rightarrow> map_ok (\<lambda>fwds. (fwds, SrcFile)) (load_yaml_forwarders le path)
             | None \<Rightarrow> Inr ([], SrcNone))
       (\<lambda>(configured_forwarders, configured_source).
     and_then (map_err CfgSpec (load_env_forwarders (le_vars le))) (\<lambda>env_forwarders.
     let (forwarders, source) =
           (if env_forwarders = [] then (configured_forwarders, configured_source)
            else (env_forwarders, SrcEnv))
     in and_then (map_err CfgSpec (validate_no_duplicates forwarders)) (\<lambda>_.
        Inr (forwarders, source))))"

definition load_settings ::
  "load_env \<Rightarrow> 'u url_lib \<Rightarrow> cli_args \<Rightarrow> config_error + settings" where
  "load_settings le lib cli =
     and_then
       (case cli_config_file cli of
          Some path \<Rightarrow>
            (case le_read le path of
               Inr content \<Rightarrow> map_ok cf_settings (parse_config_file le content)
             | Inl _ \<Rightarrow> Inr settings_default)
        | None \<Rightarrow> Inr settings_default)
       (\<lambda>s. let s = apply_cli_overrides s cli
            in and_then (map_err CfgSetting (validate lib s)) (\<lambda>_. Inr s))"

section \<open>Validation and clamping\<close>

text \<open>The numeric constraints: what a background task or the copy loop relies on.\<close>

definition safe_settings :: "settings \<Rightarrow> bool" where
  "safe_settings s \<longleftrightarrow>
     1 \<le> st_report_interval_secs s \<and> 1 \<le> st_sample_interval_secs s \<and>
     1 \<le> st_connect_timeout_secs s \<and> 1 \<le> st_dns_timeout_secs s \<and>
     MIN_BUFFER_BYTES \<le> st_buffer_bytes s \<and> st_buffer_bytes s \<le> MAX_BUFFER_BYTES \<and>
     st_socket_buffer_bytes s \<noteq> Some 0 \<and> st_max_connections s \<noteq> Some 0 \<and>
     (0 < st_keepalive_idle_secs s \<longrightarrow>
        1 \<le> st_keepalive_interval_secs s \<and> 1 \<le> st_keepalive_retries s) \<and>
     1 \<le> st_probe_interval_secs s \<and> 1 \<le> st_unreachable_after_secs s \<and>
     1 \<le> st_udp_session_timeout_secs s \<and>
     1 \<le> st_udp_max_sessions s \<and> st_udp_max_sessions s \<le> MAX_UDP_SESSIONS"

text \<open>The two textual fields: the stats address and the webhook URL.\<close>

definition text_fields_ok :: "'u url_lib \<Rightarrow> settings \<Rightarrow> bool" where
  "text_fields_ok lib s \<longleftrightarrow>
     (case st_metrics_addr s of None \<Rightarrow> True | Some a \<Rightarrow> parse_socket_addr a \<noteq> None) \<and>
     (case st_webhook_url s of None \<Rightarrow> True | Some u \<Rightarrow> is_ok (validate_webhook_url lib u))"

lemma map_ok_unit_Inr: "map_ok (\<lambda>_. ()) (map_err f r) = Inr () \<longleftrightarrow> is_ok r"
  by (cases r) auto

lemma validate_Inr:
  "validate lib s = Inr () \<longleftrightarrow> safe_settings s \<and> text_fields_ok lib s"
  by (simp add: validate_def safe_settings_def text_fields_ok_def map_ok_unit_Inr
      split: option.split) linarith

lemma clamp_nat_bounds: "lo \<le> hi \<Longrightarrow> lo \<le> clamp_nat lo hi x \<and> clamp_nat lo hi x \<le> hi"
  by (simp add: clamp_nat_def)

lemma clamp_nat_id [simp]: "lo \<le> x \<Longrightarrow> x \<le> hi \<Longrightarrow> clamp_nat lo hi x = x"
  by (simp add: clamp_nat_def)

lemma floor_u64_ge [simp]: "mn \<le> floor_u64 mn x"
  by (simp add: floor_u64_def)

lemma floor_u64_id [simp]: "mn \<le> x \<Longrightarrow> floor_u64 mn x = x"
  by (simp add: floor_u64_def)

lemmas bound_defs = MIN_BUFFER_BYTES_def MAX_BUFFER_BYTES_def MAX_UDP_SESSIONS_def

lemma clamp_safe: "safe_settings (clamp_in_place s)"
proof -
  have "MIN_BUFFER_BYTES \<le> MAX_BUFFER_BYTES" "1 \<le> MAX_UDP_SESSIONS"
    by (simp_all add: bound_defs)
  with clamp_nat_bounds [of MIN_BUFFER_BYTES MAX_BUFFER_BYTES] clamp_nat_bounds [of 1 MAX_UDP_SESSIONS]
  show ?thesis
    by (auto simp: safe_settings_def clamp_in_place_def Suc_le_eq floor_u64_def)
qed

lemma clamp_id: "safe_settings s \<Longrightarrow> clamp_in_place s = s"
  by (cases s) (auto simp: safe_settings_def clamp_in_place_def)

lemma text_fields_clamp [simp]:
  "text_fields_ok lib (clamp_in_place s) = text_fields_ok lib s"
  by (simp add: text_fields_ok_def clamp_in_place_def)

section \<open>Overrides\<close>

lemma override_simps [simp]:
  "override (Some v) x = v" "override None x = x" "override f (override f x) = override f x"
  by (simp_all add: override_def split: option.split)

lemma override_opt_simps [simp]:
  "override_opt (Some v) y = Some v" "override_opt None y = y"
  "override_opt f (override_opt f y) = override_opt f y"
  by (simp_all add: override_opt_def split: option.split)

lemma apply_cli_overrides_idem:
  "apply_cli_overrides (apply_cli_overrides s cli) cli = apply_cli_overrides s cli"
  by (cases "cli_webhook_url cli") (simp_all add: apply_cli_overrides_def)

section \<open>Knobs\<close>

text \<open>What the data plane may rely on in any snapshot.\<close>

definition safe_snapshot :: "knob_snapshot \<Rightarrow> bool" where
  "safe_snapshot k \<longleftrightarrow>
     MIN_BUFFER_BYTES \<le> ks_buffer_bytes k \<and> ks_buffer_bytes k \<le> MAX_BUFFER_BYTES \<and>
     ks_socket_buffer_bytes k \<noteq> Some 0 \<and>
     from_secs 1 \<le> ks_connect_timeout k \<and> from_secs 1 \<le> ks_dns_timeout k \<and>
     (case ks_keepalive k of
        None \<Rightarrow> True
      | Some ka \<Rightarrow> from_secs 1 \<le> ka_idle ka \<and> from_secs 1 \<le> ka_interval ka \<and> 1 \<le> ka_retries ka)"

lemma from_secs_mono: "a \<le> b \<Longrightarrow> from_secs a \<le> from_secs b"
  by (simp add: from_secs_def)

lemma knobs_update_safe: "safe_snapshot (knobs_snapshot (knobs_update k s))"
proof -
  have "safe_settings (clamp_in_place s)" by (rule clamp_safe)
  then show ?thesis
    by (auto simp: safe_snapshot_def knobs_snapshot_def knobs_update_def safe_settings_def Let_def
        knob_connect_timeout_def knob_dns_timeout_def knob_keepalive_def knob_socket_buffer_bytes_def
        intro: from_secs_mono)
qed

lemma knobs_update_overwrites: "knobs_update (knobs_update k s) t = knobs_update k t"
  by (simp add: knobs_update_def Let_def)

lemma knobs_update_forgets: "knobs_update k s = knobs_update k' s"
  by (simp add: knobs_update_def Let_def)

section \<open>Loading: every source yields distinct endpoints\<close>

lemma deserialize_forwarders_Inr:
  "deserialize_forwarders raw = Inr out \<Longrightarrow>
     \<exists>specs. map into_spec raw = map Inr specs \<and> list_all wf_spec specs
        \<and> out = concat (map fs_expand specs) \<and> distinct (map endpoint out)"
proof -
  assume "deserialize_forwarders raw = Inr out"
  then obtain specs where s: "map into_spec raw = map Inr specs" "expand_specs specs = Inr out"
    by (auto simp: deserialize_forwarders_def and_then_Inr collect_results_Inr)
  have "list_all wf_spec specs"
    using s(1) by (induction raw specs rule: list_induct2') (auto intro: into_spec_wf)
  moreover from this s(2) have "out = concat (map fs_expand specs)" "distinct (map endpoint out)"
    by (auto simp: expand_specs_Inr endpoints_expanded)
  ultimately show ?thesis using s(1) by blast
qed

lemma load_forwarders_distinct:
  "load_forwarders_with_source le cli = Inr (fwds, source) \<Longrightarrow> distinct (map endpoint fwds)"
  by (auto simp: load_forwarders_with_source_def and_then_Inr validate_no_duplicates_unit Let_def
      split: if_splits)

lemma broken_entry_fails_even_with_env:
  assumes "cli_forwarders cli = [text]" "parse_forwarder_spec text = Inl e"
  shows "load_forwarders_with_source le cli = Inl (CfgSpec e)"
  using assms by (simp add: load_forwarders_with_source_def)

section \<open>Properties\<close>

text \<open>
  Clamping repairs every numeric field: whatever the settings block holds, the clamped
  settings pass the startup validation exactly when its two textual fields (stats address,
  webhook URL), which clamping leaves alone, are valid.
\<close>
lemma clamped_settings_validate:
  "validate lib (clamp_in_place s) = Inr () \<longleftrightarrow> text_fields_ok lib s"
  by (simp add: validate_Inr clamp_safe)

text \<open>
  Settings that pass the startup validation are not changed by clamping, and the live knobs
  then hold exactly the configured values: the startup path and the reload path agree.
\<close>
lemma validated_settings_reach_knobs:
  assumes "validate lib s = Inr ()"
  shows "clamp_in_place s = s
    \<and> knobs_snapshot (knobs_update k s) =
       \<lparr>ks_buffer_bytes = st_buffer_bytes s, ks_socket_buffer_bytes = st_socket_buffer_bytes s,
        ks_use_splice = st_use_splice s,
        ks_connect_timeout = from_secs (st_connect_timeout_secs s),
        ks_dns_timeout = from_secs (st_dns_timeout_secs s),
        ks_keepalive =
          (if st_keepalive_idle_secs s = 0 then None
           else Some \<lparr>ka_idle = from_secs (st_keepalive_idle_secs s),
                      ka_interval = from_secs (st_keepalive_interval_secs s),
                      ka_retries = st_keepalive_retries s\<rparr>)\<rparr>
    \<and> knob_probe_interval (knobs_update k s) = from_secs (st_probe_interval_secs s)
    \<and> knob_unreachable_after (knobs_update k s) = from_secs (st_unreachable_after_secs s)
    \<and> knob_udp_session_timeout (knobs_update k s) = from_secs (st_udp_session_timeout_secs s)"
proof -
  have safe: "safe_settings s" using assms by (simp add: validate_Inr)
  then have id: "clamp_in_place s = s" by (rule clamp_id)
  have "max n 1 = n" if "1 \<le> n" for n :: nat using that by simp
  with safe show ?thesis
    by (auto simp: knobs_snapshot_def knobs_update_def id Let_def safe_settings_def
        knob_connect_timeout_def knob_dns_timeout_def knob_keepalive_def
        knob_socket_buffer_bytes_def knob_probe_interval_def knob_unreachable_after_def
        knob_udp_session_timeout_def split: option.splits)
qed

definition sample_url_lib :: "rstr url_lib" where
  "sample_url_lib =
     \<lparr>ul_parse = (\<lambda>s. Inr s), ul_scheme = (\<lambda>_. lit ''https''), ul_host_str = (\<lambda>s. Some s),
      ul_set_username = (\<lambda>_ u. u), ul_set_password = (\<lambda>_ u. u), ul_query = (\<lambda>_. None),
      ul_query_pairs = (\<lambda>_. []), ul_set_query = (\<lambda>_ u. u), ul_to_string = (\<lambda>u. u)\<rparr>"

lemma default_settings_validate: "validate lib settings_default = Inr ()"
  by (simp add: validate_Inr safe_settings_def text_fields_ok_def settings_default_def bound_defs
      default_report_interval_def default_sample_interval_def default_buffer_bytes_def
      default_connect_timeout_def default_dns_timeout_def default_keepalive_idle_def
      default_keepalive_interval_def default_keepalive_retries_def default_probe_interval_def
      default_unreachable_after_def default_udp_session_timeout_def default_udp_max_sessions_def)

text \<open>
  C13. The live data plane is safe under any sequence of hot reloads of any settings: every
  snapshot a connection takes has a copy buffer between 1 KiB and 16 MiB, no zero-sized socket
  buffer, and timeouts and keepalive parameters of at least one second and one probe; the
  monitor and session timers are at least one second.
\<close>
theorem knobs_always_safe:
  "safe_snapshot (knobs_snapshot (foldl knobs_update (knobs_from_settings s) reloads))
   \<and> from_secs 1 \<le> knob_probe_interval (foldl knobs_update (knobs_from_settings s) reloads)
   \<and> from_secs 1 \<le> knob_unreachable_after (foldl knobs_update (knobs_from_settings s) reloads)
   \<and> from_secs 1 \<le> knob_udp_session_timeout (foldl knobs_update (knobs_from_settings s) reloads)"
proof -
  have "\<exists>k t. foldl knobs_update (knobs_from_settings s) reloads = knobs_update k t"
    by (cases reloads rule: rev_cases) (auto simp: knobs_from_settings_def)
  then show ?thesis
    by (auto simp: knobs_update_safe knob_probe_interval_def knob_unreachable_after_def
        knob_udp_session_timeout_def intro: from_secs_mono)
qed

text \<open>
  Command-line flags win on every hot reload: whatever the file's settings block says, a
  knob whose flag was passed holds the (clamped) flag value, and re-applying the overrides
  changes nothing.
\<close>

lemma cli_flags_win:
  shows "apply_cli_overrides (apply_cli_overrides s cli) cli = apply_cli_overrides s cli
    \<and> (cli_buffer_bytes cli = Some b \<longrightarrow>
         kn_buffer_bytes (knobs_update k (apply_cli_overrides s cli))
           = clamp_nat MIN_BUFFER_BYTES MAX_BUFFER_BYTES b)
    \<and> (cli_connect_timeout_secs cli = Some ct \<longrightarrow>
         kn_connect_timeout_secs (knobs_update k (apply_cli_overrides s cli)) = floor_u64 1 ct)
    \<and> (cli_dns_timeout_secs cli = Some dt \<longrightarrow>
         kn_dns_timeout_secs (knobs_update k (apply_cli_overrides s cli)) = floor_u64 1 dt)
    \<and> (cli_keepalive_idle_secs cli = Some ki \<longrightarrow>
         kn_keepalive_idle_secs (knobs_update k (apply_cli_overrides s cli)) = ki)
    \<and> (cli_probe_interval_secs cli = Some pi \<longrightarrow>
         kn_probe_interval_secs (knobs_update k (apply_cli_overrides s cli)) = floor_u64 1 pi)
    \<and> (cli_unreachable_after_secs cli = Some ua \<longrightarrow>
         kn_unreachable_after_secs (knobs_update k (apply_cli_overrides s cli)) = floor_u64 1 ua)
    \<and> (cli_udp_session_timeout_secs cli = Some ut \<longrightarrow>
         kn_udp_session_timeout_secs (knobs_update k (apply_cli_overrides s cli)) = floor_u64 1 ut)
    \<and> (cli_use_splice cli \<longrightarrow> kn_use_splice (knobs_update k (apply_cli_overrides s cli)))
    \<and> (cli_udp_gro_gso cli \<longrightarrow> kn_udp_gro_gso (knobs_update k (apply_cli_overrides s cli)))"
  by (intro conjI impI apply_cli_overrides_idem)
    (simp_all add: apply_cli_overrides_def knobs_update_def clamp_in_place_def Let_def)

lemma cli_flags_win_example:
  "kn_buffer_bytes (knobs_update (knobs_from_settings settings_default)
     (apply_cli_overrides settings_default (cli_default\<lparr>cli_buffer_bytes := Some 5\<rparr>))) = 1024"
  using cli_flags_win [of settings_default "cli_default\<lparr>cli_buffer_bytes := Some 5\<rparr>" 5]
  by (simp add: clamp_nat_def bound_defs)

text \<open>
  A successful load returns a list with pairwise distinct local endpoints, taken from one
  source by precedence: the environment whenever it yields an entry, else the command line
  whenever it has an argument, else the config file, else nothing.
\<close>
lemma load_precedence:
  assumes "load_forwarders_with_source le cli = Inr (fwds, source)"
  shows "distinct (map endpoint fwds)
    \<and> (case source of
         SrcEnv \<Rightarrow> fwds \<noteq> [] \<and> load_env_forwarders (le_vars le) = Inr fwds
       | SrcCli \<Rightarrow> load_env_forwarders (le_vars le) = Inr [] \<and> cli_forwarders cli \<noteq> []
            \<and> (\<exists>specs. map parse_forwarder_spec (cli_forwarders cli) = map Inr specs
                  \<and> fwds = concat (map fs_expand specs))
       | SrcFile \<Rightarrow> load_env_forwarders (le_vars le) = Inr [] \<and> cli_forwarders cli = []
            \<and> (\<exists>path. cli_config_file cli = Some path \<and> load_yaml_forwarders le path = Inr fwds)
       | SrcNone \<Rightarrow> load_env_forwarders (le_vars le) = Inr [] \<and> cli_forwarders cli = []
            \<and> cli_config_file cli = None \<and> fwds = [])"
proof -
  have map_ok_Inr: "map_ok f r = Inr b \<longleftrightarrow> (\<exists>a. r = Inr a \<and> b = f a)" for f :: "'x \<Rightarrow> 'y" and r :: "'e + 'x" and b
    by (cases r) auto
  have "distinct (map endpoint fwds)" using assms by (rule load_forwarders_distinct)
  moreover obtain c0 s0 env where
    base: "(if cli_forwarders cli \<noteq> []
        then map_err CfgSpec
               (and_then (collect_results (map parse_forwarder_spec (cli_forwarders cli))) (\<lambda>specs.
                and_then (expand_specs specs) (\<lambda>fwds. Inr (fwds, SrcCli))))
        else case cli_config_file cli of
               Some path \<Rightarrow> map_ok (\<lambda>fwds. (fwds, SrcFile)) (load_yaml_forwarders le path)
             | None \<Rightarrow> Inr ([], SrcNone)) = Inr (c0, s0)"
    and env: "load_env_forwarders (le_vars le) = Inr env"
    and res: "(fwds, source) = (if env = [] then (c0, s0) else (env, SrcEnv))"
    using assms unfolding load_forwarders_with_source_def
    by (auto simp: and_then_Inr Let_def split: if_splits)
  ultimately show ?thesis
    by (auto simp: and_then_Inr collect_results_Inr expand_specs_Inr map_ok_Inr
        split: if_splits option.splits)
qed

end
