(* ===== verification/F64.thy ===== *)
theory F64
  imports Prelude Complex_Main "HOL-Library.Log_Nat"
begin

text \<open>
  Binary64 arithmetic on the non-negative values the rate computation meets. A value is a
  rational; every operation is the exact operation followed by rounding to 53 significant
  bits, to nearest with ties to even. Overflow and subnormal numbers are outside the range
  the program reaches (byte counts below \<open>2^64\<close> divided by clock intervals between a
  nanosecond and \<open>2^64\<close> seconds), so the exponent is unbounded here.
\<close>

definition log2_floor :: "rat \<Rightarrow> int" where
  "log2_floor q =
     (let (n, d) = quotient_of q; k = bitlen n - bitlen d
      in if 2 powi k \<le> q then k else k - 1)"

definition round_half_even :: "rat \<Rightarrow> int" where
  "round_half_even q =
     (let f = \<lfloor>q\<rfloor>; r = q - of_int f
      in if r < 1 / 2 then f else if r > 1 / 2 then f + 1 else if even f then f else f + 1)"

definition rnd64 :: "rat \<Rightarrow> rat" where
  "rnd64 q =
     (if q \<le> 0 then 0
      else let ulp = 2 powi (log2_floor q - 52) in of_int (round_half_even (q / ulp)) * ulp)"

text \<open>\<open>f64::round\<close> on a non-negative value, then the saturating cast \<open>as u64\<close>.\<close>

definition round_to_u64 :: "rat \<Rightarrow> u64" where
  "round_to_u64 q = of_nat (min (nat \<lfloor>q + 1 / 2\<rfloor>) (2 ^ 64 - 1))"

definition u64_as_f64 :: "u64 \<Rightarrow> rat" where
  "u64_as_f64 n = rnd64 (of_nat (unat n))"

lemma rnd64_zero [simp]: "rnd64 0 = 0"
  by (simp add: rnd64_def)

lemma round_half_even_error: "\<bar>of_int (round_half_even q) - q\<bar> \<le> 1 / 2"
proof -
  obtain f where f: "\<lfloor>q\<rfloor> = f" by simp
  then have "of_int f \<le> q" "q < of_int f + 1" by linarith+
  then show ?thesis
    unfolding round_half_even_def Let_def abs_le_iff f
    by (auto split: if_splits)
qed

lemma log2_floor_le:
  assumes "0 < q"
  shows "2 powi log2_floor q \<le> q"
proof -
  obtain n d where nd: "quotient_of q = (n, d)" by fastforce
  have d: "0 < d" using quotient_of_denom_pos [OF nd] .
  have q: "q = of_int n / of_int d" using quotient_of_div [OF nd] .
  have n: "0 < n" using assms q d by (simp add: zero_less_divide_iff)
  show ?thesis
  proof (cases "(2::rat) powi (bitlen n - bitlen d) \<le> q")
    case True
    then show ?thesis by (simp add: log2_floor_def nd)
  next
    case False
    have "2 ^ nat (bitlen n - 1) \<le> n" using bitlen_bounds [OF n] by simp
    then have "(2::rat) ^ nat (bitlen n - 1) \<le> of_int n"
      by (metis of_int_le_iff of_int_numeral of_int_power)
    moreover have "1 \<le> bitlen n" using n by (simp add: bitlen_alt_def)
    ultimately have lo: "(2::rat) powi (bitlen n - 1) \<le> of_int n"
      by (simp add: power_int_def)
    have "d \<le> 2 ^ nat (bitlen d)" using bitlen_bounds [OF d] by simp
    then have "of_int d \<le> (2::rat) ^ nat (bitlen d)"
      by (metis of_int_le_iff of_int_numeral of_int_power)
    then have hi: "of_int d \<le> (2::rat) powi bitlen d"
      using bitlen_nonneg [of d] by (simp add: power_int_def)
    have "(2::rat) powi (bitlen n - bitlen d - 1) = 2 powi (bitlen n - 1) / 2 powi bitlen d"
      by (simp flip: power_int_diff add: algebra_simps)
    also have "\<dots> \<le> of_int n / of_int d"
      using lo hi n d by (intro frac_le) auto
    finally have "2 powi (bitlen n - bitlen d - 1) \<le> q" using q by simp
    moreover have "log2_floor q = bitlen n - bitlen d - 1"
      using False by (simp add: log2_floor_def nd)
    ultimately show ?thesis by simp
  qed
qed

text \<open>Rounding changes a positive value by at most one part in \<open>2^53\<close>.\<close>

lemma rnd64_error:
  assumes "0 \<le> q"
  shows "\<bar>rnd64 q - q\<bar> \<le> q / 2 ^ 53"
proof (cases "q = 0")
  case False
  with assms have pos: "0 < q" by simp
  define ulp :: rat where "ulp = 2 powi (log2_floor q - 52)"
  have ulp: "0 < ulp" by (simp add: ulp_def)
  have "\<bar>of_int (round_half_even (q / ulp)) * ulp - q\<bar> = \<bar>of_int (round_half_even (q / ulp)) - q / ulp\<bar> * ulp"
    using ulp by (simp add: abs_mult_pos left_diff_distrib)
  also have "\<dots> \<le> 1 / 2 * ulp"
    using ulp by (intro mult_right_mono round_half_even_error) simp
  also have "\<dots> = 2 powi log2_floor q / 2 ^ 53"
    by (simp add: ulp_def power_int_diff)
  also have "\<dots> \<le> q / 2 ^ 53"
    using log2_floor_le [OF pos] by (intro divide_right_mono) simp_all
  finally show ?thesis using pos by (simp add: rnd64_def ulp_def [symmetric] Let_def)
qed simp

lemma rnd64_upper: "0 \<le> q \<Longrightarrow> rnd64 q \<le> q * (1 + 1 / 2 ^ 53)"
  using rnd64_error [of q] abs_ge_self [of "rnd64 q - q"]
  by (simp add: algebra_simps del: divide_const_simps)

lemma rnd64_lower: "0 \<le> q \<Longrightarrow> q * (1 - 1 / 2 ^ 53) \<le> rnd64 q"
  using rnd64_error [of q] abs_ge_minus_self [of "rnd64 q - q"]
  by (simp add: algebra_simps del: divide_const_simps)

lemma rnd64_nonneg [simp]: "0 \<le> q \<Longrightarrow> 0 \<le> rnd64 q"
  using rnd64_lower [of q] by (rule order_trans [rotated]) simp_all

end
