(* ===== verification/Stats.thy ===== *)
theory Stats
  imports Config_Ports Net F64
begin

text \<open>
  The traffic counters of \<open>src/src/stats.rs\<close>: one record per forwarder, the registry that
  owns them, the rate sampler, the evidence the monitors read, and the counting stream.

  Every atomic counter is a field updated by one step (\<open>fetch_add\<close> wraps at its width). A
  function that reads the clock takes the reading as an argument. \<open>tokio::sync::Notify\<close>
  stores at most one permit, so \<open>probe_kick\<close> is a flag.
\<close>

section \<open>State\<close>

datatype icmp_kind = PortUnreachable | IcmpHostUnreachable | IcmpNetworkUnreachable

fun icmp_as_str :: "icmp_kind \<Rightarrow> rstr" where
  "icmp_as_str PortUnreachable = lit ''port unreachable''"
| "icmp_as_str IcmpHostUnreachable = lit ''host unreachable''"
| "icmp_as_str IcmpNetworkUnreachable = lit ''network unreachable''"

fun icmp_to_u8 :: "icmp_kind \<Rightarrow> u8" where
  "icmp_to_u8 PortUnreachable = 1"
| "icmp_to_u8 IcmpHostUnreachable = 2"
| "icmp_to_u8 IcmpNetworkUnreachable = 3"

definition icmp_from_u8 :: "u8 \<Rightarrow> icmp_kind option" where
  "icmp_from_u8 v =
     (if v = 1 then Some PortUnreachable
      else if v = 2 then Some IcmpHostUnreachable
      else if v = 3 then Some IcmpNetworkUnreachable
      else None)"

record udp_sample =
  us_now_ms :: u64
  us_icmp :: "(u64 \<times> icmp_kind) option"
  us_reply_ms :: "u64 option"
  us_sent :: u64

record forwarder_stats =
  sx_label :: rstr
  sx_protocol :: protocol
  sx_bytes_sent :: u64
  sx_bytes_received :: u64
  sx_datagrams_sent :: u64
  sx_datagrams_received :: u64
  sx_datagrams_dropped :: u64
  sx_active_connections :: u64
  sx_rejected_connections :: u64
  sx_rate_sent_bps :: u64
  sx_rate_recv_bps :: u64
  sx_last_sample_sent :: u64
  sx_last_sample_recv :: u64
  sx_listening :: bool
  sx_target_state :: u8
  sx_last_addrs :: "ip_addr list option"
  sx_epoch :: instant
  sx_last_connect_ok_ms :: u64
  sx_probe_kick :: bool
  sx_udp_icmp_error_ms :: u64
  sx_udp_icmp_kind :: u8

definition TARGET_UNKNOWN :: u8 where "TARGET_UNKNOWN = 0"
definition TARGET_UP :: u8 where "TARGET_UP = 1"
definition TARGET_DOWN :: u8 where "TARGET_DOWN = 2"
definition NEVER_MS :: u64 where "NEVER_MS = u64_max"

definition with_protocol :: "rstr \<Rightarrow> protocol \<Rightarrow> instant \<Rightarrow> forwarder_stats" where
  "with_protocol label proto now =
     \<lparr>sx_label = label, sx_protocol = proto, sx_bytes_sent = 0, sx_bytes_received = 0,
      sx_datagrams_sent = 0, sx_datagrams_received = 0, sx_datagrams_dropped = 0,
      sx_active_connections = 0, sx_rejected_connections = 0, sx_rate_sent_bps = 0,
      sx_rate_recv_bps = 0, sx_last_sample_sent = 0, sx_last_sample_recv = 0,
      sx_listening = False, sx_target_state = TARGET_UNKNOWN, sx_last_addrs = None,
      sx_epoch = now, sx_last_connect_ok_ms = NEVER_MS, sx_probe_kick = False,
      sx_udp_icmp_error_ms = NEVER_MS, sx_udp_icmp_kind = 0\<rparr>"

section \<open>Counters\<close>

definition set_listening :: "bool \<Rightarrow> forwarder_stats \<Rightarrow> forwarder_stats" where
  "set_listening b s = s\<lparr>sx_listening := b\<rparr>"

definition add_sent :: "u64 \<Rightarrow> forwarder_stats \<Rightarrow> forwarder_stats" where
  "add_sent n s = s\<lparr>sx_bytes_sent := sx_bytes_sent s + n\<rparr>"

definition add_received :: "u64 \<Rightarrow> forwarder_stats \<Rightarrow> forwarder_stats" where
  "add_received n s = s\<lparr>sx_bytes_received := sx_bytes_received s + n\<rparr>"

definition inc_connections :: "forwarder_stats \<Rightarrow> forwarder_stats" where
  "inc_connections s = s\<lparr>sx_active_connections := sx_active_connections s + 1\<rparr>"

definition dec_connections :: "forwarder_stats \<Rightarrow> forwarder_stats" where
  "dec_connections s = s\<lparr>sx_active_connections := sx_active_connections s - 1\<rparr>"

definition inc_rejected :: "forwarder_stats \<Rightarrow> forwarder_stats" where
  "inc_rejected s = s\<lparr>sx_rejected_connections := sx_rejected_connections s + 1\<rparr>"

definition add_rejected :: "u64 \<Rightarrow> forwarder_stats \<Rightarrow> forwarder_stats" where
  "add_rejected n s = s\<lparr>sx_rejected_connections := sx_rejected_connections s + n\<rparr>"

definition add_datagrams_sent :: "u64 \<Rightarrow> forwarder_stats \<Rightarrow> forwarder_stats" where
  "add_datagrams_sent n s = s\<lparr>sx_datagrams_sent := sx_datagrams_sent s + n\<rparr>"

definition add_datagrams_received :: "u64 \<Rightarrow> forwarder_stats \<Rightarrow> forwarder_stats" where
  "add_datagrams_received n s = s\<lparr>sx_datagrams_received := sx_datagrams_received s + n\<rparr>"

definition add_datagrams_dropped :: "u64 \<Rightarrow> forwarder_stats \<Rightarrow> forwarder_stats" where
  "add_datagrams_dropped n s = s\<lparr>sx_datagrams_dropped := sx_datagrams_dropped s + n\<rparr>"

section \<open>Addresses, reachability, evidence\<close>

text \<open>Returns the previous set on a change, and the updated record.\<close>

definition observe_addrs :: "ip_addr list \<Rightarrow> forwarder_stats \<Rightarrow> ip_addr list option \<times> forwarder_stats" where
  "observe_addrs addrs s =
     (let srt = sort_dedup addrs in
      case sx_last_addrs s of
        Some prev \<Rightarrow>
          if prev = srt then (None, s) else (Some prev, s\<lparr>sx_last_addrs := Some srt\<rparr>)
      | None \<Rightarrow> (None, s\<lparr>sx_last_addrs := Some srt\<rparr>))"

definition elapsed_ms :: "instant \<Rightarrow> forwarder_stats \<Rightarrow> u64" where
  "elapsed_ms now s =
     (let ms = as_millis (now - sx_epoch s) in if ms < 2 ^ 64 then of_nat ms else u64_max - 1)"

definition mark_connect_ok_at :: "u64 \<Rightarrow> forwarder_stats \<Rightarrow> forwarder_stats" where
  "mark_connect_ok_at now_ms s =
     (let lst = sx_last_connect_ok_ms s;
          icmp = sx_udp_icmp_error_ms s;
          due = (lst = NEVER_MS \<or> sat_add lst 100 \<le> now_ms \<or> (icmp \<noteq> NEVER_MS \<and> icmp \<ge> lst))
      in if due then s\<lparr>sx_last_connect_ok_ms := now_ms\<rparr> else s)"

definition mark_udp_icmp_error :: "u64 \<Rightarrow> icmp_kind \<Rightarrow> forwarder_stats \<Rightarrow> forwarder_stats" where
  "mark_udp_icmp_error now_ms kind s =
     s\<lparr>sx_udp_icmp_kind := icmp_to_u8 kind, sx_udp_icmp_error_ms := now_ms, sx_probe_kick := True\<rparr>"

definition mark_connect_ok :: "instant \<Rightarrow> forwarder_stats \<Rightarrow> forwarder_stats" where
  "mark_connect_ok now s = s\<lparr>sx_last_connect_ok_ms := elapsed_ms now s\<rparr>"

definition mark_connect_failed :: "forwarder_stats \<Rightarrow> forwarder_stats" where
  "mark_connect_failed s = s\<lparr>sx_probe_kick := True\<rparr>"

definition last_connect_ok_age :: "instant \<Rightarrow> forwarder_stats \<Rightarrow> duration option" where
  "last_connect_ok_age now s =
     (if sx_last_connect_ok_ms s = NEVER_MS then None
      else Some (from_millis (unat (sat_sub (elapsed_ms now s) (sx_last_connect_ok_ms s)))))"

definition udp_sample_of :: "u64 \<Rightarrow> forwarder_stats \<Rightarrow> udp_sample" where
  "udp_sample_of now_ms s =
     \<lparr>us_now_ms = now_ms,
      us_icmp =
        (if sx_udp_icmp_error_ms s = NEVER_MS then None
         else map_option (\<lambda>k. (sx_udp_icmp_error_ms s, k)) (icmp_from_u8 (sx_udp_icmp_kind s))),
      us_reply_ms =
        (if sx_last_connect_ok_ms s \<noteq> NEVER_MS then Some (sx_last_connect_ok_ms s) else None),
      us_sent = sx_datagrams_sent s\<rparr>"

definition set_target_reachable :: "bool \<Rightarrow> forwarder_stats \<Rightarrow> forwarder_stats" where
  "set_target_reachable r s = s\<lparr>sx_target_state := (if r then TARGET_UP else TARGET_DOWN)\<rparr>"

definition target_reachable :: "forwarder_stats \<Rightarrow> bool option" where
  "target_reachable s =
     (if sx_target_state s = TARGET_UP then Some True
      else if sx_target_state s = TARGET_DOWN then Some False
      else None)"

section \<open>Snapshots and rates\<close>

record stats_snapshot =
  sn_label :: rstr
  sn_protocol :: protocol
  sn_bytes_sent :: u64
  sn_bytes_received :: u64
  sn_datagrams_sent :: u64
  sn_datagrams_received :: u64
  sn_datagrams_dropped :: u64
  sn_active_connections :: u64
  sn_rejected_connections :: u64
  sn_rate_sent_bps :: u64
  sn_rate_recv_bps :: u64
  sn_listening :: bool
  sn_target_reachable :: "bool option"

definition snapshot :: "forwarder_stats \<Rightarrow> stats_snapshot" where
  "snapshot s =
     \<lparr>sn_label = sx_label s, sn_protocol = sx_protocol s, sn_bytes_sent = sx_bytes_sent s,
      sn_bytes_received = sx_bytes_received s, sn_datagrams_sent = sx_datagrams_sent s,
      sn_datagrams_received = sx_datagrams_received s, sn_datagrams_dropped = sx_datagrams_dropped s,
      sn_active_connections = sx_active_connections s,
      sn_rejected_connections = sx_rejected_connections s, sn_rate_sent_bps = sx_rate_sent_bps s,
      sn_rate_recv_bps = sx_rate_recv_bps s, sn_listening = sx_listening s,
      sn_target_reachable = target_reachable s\<rparr>"

definition RATE_ALPHA :: rat where
  "RATE_ALPHA = rnd64 (3 / 10)"

definition compute_rate :: "u64 \<Rightarrow> u64 \<Rightarrow> rat \<Rightarrow> u64 \<Rightarrow> u64" where
  "compute_rate prev cur dt_secs prev_ewma =
     (if dt_secs \<le> 0 then prev_ewma
      else let delta = sat_sub cur prev;
               inst = rnd64 (u64_as_f64 delta / dt_secs);
               ewma = rnd64 (rnd64 (RATE_ALPHA * inst)
                             + rnd64 (rnd64 (1 - RATE_ALPHA) * u64_as_f64 prev_ewma))
           in round_to_u64 ewma)"

definition update_rate :: "rat \<Rightarrow> forwarder_stats \<Rightarrow> forwarder_stats" where
  "update_rate dt_secs s =
     (let cur_sent = sx_bytes_sent s;
          cur_recv = sx_bytes_received s;
          new_sent = compute_rate (sx_last_sample_sent s) cur_sent dt_secs (sx_rate_sent_bps s);
          new_recv = compute_rate (sx_last_sample_recv s) cur_recv dt_secs (sx_rate_recv_bps s)
      in s\<lparr>sx_last_sample_sent := cur_sent, sx_last_sample_recv := cur_recv,
           sx_rate_sent_bps := new_sent, sx_rate_recv_bps := new_recv\<rparr>)"

section \<open>Registry\<close>

type_synonym registry = "forwarder_stats list"

definition registry_new :: registry where
  "registry_new = []"

definition register_with_protocol ::
  "rstr \<Rightarrow> protocol \<Rightarrow> instant \<Rightarrow> registry \<Rightarrow> forwarder_stats \<times> registry" where
  "register_with_protocol label proto now reg =
     (case find (\<lambda>s. sx_label s = label) reg of
        Some existing \<Rightarrow> (existing, reg)
      | None \<Rightarrow> let s = with_protocol label proto now in (s, reg @ [s]))"

definition collect :: "registry \<Rightarrow> stats_snapshot list" where
  "collect reg = map snapshot reg"

definition sample_rates :: "rat \<Rightarrow> registry \<Rightarrow> registry" where
  "sample_rates dt_secs reg = map (update_rate dt_secs) reg"

definition registry_remove :: "rstr \<Rightarrow> registry \<Rightarrow> registry" where
  "registry_remove label reg = filter (\<lambda>s. sx_label s \<noteq> label) reg"

section \<open>Byte counts as text\<close>

definition fmt3 :: "rat \<Rightarrow> rstr" where
  "fmt3 q = (let m = nat (round_half_even (q * 1000))
             in show_nat (m div 1000) @ lit ''.'' @ pad_zero 3 (show_nat (m mod 1000)))"

fun bytes_unit :: "nat \<Rightarrow> rat \<Rightarrow> nat \<Rightarrow> rat \<times> nat" where
  "bytes_unit 0 sz unit_idx = (sz, unit_idx)"
| "bytes_unit (Suc units_left) sz unit_idx =
     (if sz \<ge> 1024 then bytes_unit units_left (sz / 1024) (unit_idx + 1) else (sz, unit_idx))"

definition format_bytes :: "u64 \<Rightarrow> rstr" where
  "format_bytes n =
     (let (sz, unit_idx) = bytes_unit 4 (u64_as_f64 n) 0
      in if unit_idx = 0 then show_nat (unat n) @ lit '' B''
         else fmt3 sz @ lit '' '' @ [lit ''B'', lit ''KB'', lit ''MB'', lit ''GB'', lit ''TB''] ! unit_idx)"

section \<open>Counting stream\<close>

datatype 'a poll = Pending | Ready 'a

text \<open>\<open>before\<close> and \<open>after\<close> are the filled lengths of the buffer around the inner poll.\<close>

definition counting_poll_read ::
  "nat \<Rightarrow> (io_error + unit) poll \<times> nat \<Rightarrow> forwarder_stats \<Rightarrow> (io_error + unit) poll \<times> forwarder_stats" where
  "counting_poll_read before inner s =
     (case inner of (poll, after) \<Rightarrow>
        (poll, if poll = Ready (Inr ())
               then let n = after - before in if n > 0 then add_sent (of_nat n) s else s
               else s))"

definition counting_poll_write ::
  "(io_error + nat) poll \<Rightarrow> forwarder_stats \<Rightarrow> (io_error + nat) poll \<times> forwarder_stats" where
  "counting_poll_write inner s =
     (inner, case inner of
               Ready (Inr n) \<Rightarrow> if n > 0 then add_received (of_nat n) s else s
             | _ \<Rightarrow> s)"

section \<open>Observed addresses\<close>

text \<open>The stored set is sorted and without duplicates.\<close>

definition last_addrs_ok :: "forwarder_stats \<Rightarrow> bool" where
  "last_addrs_ok s = (case sx_last_addrs s of None \<Rightarrow> True | Some p \<Rightarrow> sort_dedup p = p)"

lemma last_addrs_ok_fresh: "last_addrs_ok (with_protocol label proto now)"
  by (simp add: last_addrs_ok_def with_protocol_def)

lemma observe_addrs_stored: "sx_last_addrs (snd (observe_addrs xs s)) = Some (sort_dedup xs)"
  by (cases "sx_last_addrs s") (simp_all add: observe_addrs_def Let_def)

lemma observe_addrs_ok: "last_addrs_ok (snd (observe_addrs xs s))"
  by (simp add: last_addrs_ok_def observe_addrs_stored)

lemma observe_addrs_result:
  "fst (observe_addrs xs s) =
     (case sx_last_addrs s of None \<Rightarrow> None | Some p \<Rightarrow> if p = sort_dedup xs then None else Some p)"
  by (cases "sx_last_addrs s") (simp_all add: observe_addrs_def Let_def)

lemma observe_addrs_quiet:
  "sx_last_addrs s = Some (sort_dedup ys) \<Longrightarrow> observe_addrs ys s = (None, s)"
  unfolding observe_addrs_def Let_def by (simp only: option.case if_True refl)

text \<open>
  A change of the resolved address set is reported exactly once, whatever order and
  repetitions the resolver uses: an observation returns the previous set if and only if one
  was stored and it differs as a set, and the next observation of the same set is silent and
  changes nothing, whoever makes it.\<close>

lemma dns_change_reported_once:
  assumes "last_addrs_ok s" and "observe_addrs xs s = (r, s')"
  shows "last_addrs_ok s'
     \<and> r = (if \<exists>p. sx_last_addrs s = Some p \<and> set p \<noteq> set xs then sx_last_addrs s else None)
     \<and> (\<forall>ys. set ys = set xs \<longrightarrow> observe_addrs ys s' = (None, s'))"
proof (intro conjI allI impI)
  show "last_addrs_ok s'"
    using observe_addrs_ok [of xs s] assms(2) by simp
  have diff: "p = sort_dedup xs \<longleftrightarrow> set p = set xs" if "sx_last_addrs s = Some p" for p
  proof -
    have "sort_dedup p = p" using assms(1) that by (simp add: last_addrs_ok_def)
    then show ?thesis using sort_dedup_eq_iff [of p xs] by simp
  qed
  show "r = (if \<exists>p. sx_last_addrs s = Some p \<and> set p \<noteq> set xs then sx_last_addrs s else None)"
    using observe_addrs_result [of xs s] assms(2) diff by (cases "sx_last_addrs s") auto
  fix ys assume "set ys = set xs"
  then have "sort_dedup ys = sort_dedup xs" by (simp add: sort_dedup_eq_iff)
  then show "observe_addrs ys s' = (None, s')"
    using observe_addrs_stored [of xs s] assms(2) by (intro observe_addrs_quiet) simp
qed

definition sample_stats :: forwarder_stats where
  "sample_stats = (with_protocol (lit ''fwd'') Udp 0)\<lparr>sx_last_addrs := Some [V4 1, V4 2]\<rparr>"

lemma dns_change_reported_once_example:
  "fst (observe_addrs [V4 3, V4 1, V4 3] sample_stats) = Some [V4 1, V4 2]
   \<and> fst (observe_addrs [V4 1, V4 3] (snd (observe_addrs [V4 3, V4 1, V4 3] sample_stats))) = None"
proof -
  have ok: "last_addrs_ok sample_stats"
    by (simp add: last_addrs_ok_def sample_stats_def sort_dedup_def)
  obtain r s' where o: "observe_addrs [V4 3, V4 1, V4 3] sample_stats = (r, s')" by fastforce
  have l: "sx_last_addrs sample_stats = Some [V4 1, V4 2]" by (simp add: sample_stats_def)
  have ne: "set [V4 1, V4 2] \<noteq> set [V4 3, V4 1, V4 3]"
  proof
    assume eq: "set [V4 1, V4 2] = set [V4 3, V4 1, V4 3]"
    have "V4 2 \<in> set [V4 1, V4 2]" by simp
    then show False unfolding eq by simp
  qed
  then have "\<exists>p. sx_last_addrs sample_stats = Some p \<and> set p \<noteq> set [V4 3, V4 1, V4 3]"
    using l by blast
  then have "r = Some [V4 1, V4 2]"
    using dns_change_reported_once [OF ok o] l by (simp only: if_True)
  moreover have "set [V4 1, V4 3] = set [V4 3, V4 1, V4 3]" by auto
  then have "observe_addrs [V4 1, V4 3] s' = (None, s')"
    using dns_change_reported_once [OF ok o] by blast
  ultimately show ?thesis using o by simp
qed

section \<open>The registry as an interface\<close>

text \<open>
  What the manager relies on: a store of labelled entries in which registering adds a label
  once and removing takes it out, and neither touches the entry of another label.
\<close>

locale labelled_store =
  fixes labels :: "'r \<Rightarrow> rstr list"
    and lookup :: "rstr \<Rightarrow> 'r \<Rightarrow> 'e option"
    and register :: "rstr \<Rightarrow> protocol \<Rightarrow> instant \<Rightarrow> 'r \<Rightarrow> 'e \<times> 'r"
    and remove :: "rstr \<Rightarrow> 'r \<Rightarrow> 'r"
  assumes lookup_iff: "lookup l r \<noteq> None \<longleftrightarrow> l \<in> set (labels r)"
    and labels_register:
      "labels (snd (register l p t r)) = (if l \<in> set (labels r) then labels r else labels r @ [l])"
    and labels_remove: "labels (remove l r) = filter (\<lambda>x. x \<noteq> l) (labels r)"
    and register_existing: "lookup l r = Some e \<Longrightarrow> register l p t r = (e, r)"
    and lookup_register: "lookup l (snd (register l p t r)) = Some (fst (register l p t r))"
    and lookup_register_other: "k \<noteq> l \<Longrightarrow> lookup k (snd (register l p t r)) = lookup k r"
    and lookup_remove_other: "k \<noteq> l \<Longrightarrow> lookup k (remove l r) = lookup k r"
begin

lemma distinct_register: "distinct (labels r) \<Longrightarrow> distinct (labels (snd (register l p t r)))"
  by (simp add: labels_register)

lemma distinct_remove: "distinct (labels r) \<Longrightarrow> distinct (labels (remove l r))"
  by (simp add: labels_remove)

lemma register_twice:
  "register l q u (snd (register l p t r)) = (fst (register l p t r), snd (register l p t r))"
  by (rule register_existing) (rule lookup_register)

lemma set_labels_register: "set (labels (snd (register l p t r))) = insert l (set (labels r))"
  by (auto simp: labels_register)

lemma set_labels_remove: "set (labels (remove l r)) = set (labels r) - {l}"
  by (auto simp: labels_remove)

lemma lookup_removed: "lookup l (remove l r) = None"
  using lookup_iff [of l "remove l r"] by (simp add: set_labels_remove)

end

definition registry_labels :: "registry \<Rightarrow> rstr list" where
  "registry_labels reg = map sx_label reg"

definition registry_find :: "rstr \<Rightarrow> registry \<Rightarrow> forwarder_stats option" where
  "registry_find label reg = find (\<lambda>s. sx_label s = label) reg"

lemma sx_label_with_protocol [simp]: "sx_label (with_protocol l p t) = l"
  by (simp add: with_protocol_def)

lemma registry_find_None: "registry_find l reg = None \<longleftrightarrow> l \<notin> set (registry_labels reg)"
  by (auto simp: registry_find_def registry_labels_def find_None_iff)

lemma find_append: "find P (xs @ ys) = (case find P xs of None \<Rightarrow> find P ys | Some x \<Rightarrow> Some x)"
  by (induction xs) auto

lemma registry_find_remove_other: "k \<noteq> l \<Longrightarrow> registry_find k (registry_remove l reg) = registry_find k reg"
  by (induction reg) (auto simp: registry_find_def registry_remove_def)

interpretation stats_reg: labelled_store
  registry_labels registry_find register_with_protocol registry_remove
proof
  fix l k p t e and r :: registry
  show "(registry_find l r \<noteq> None) = (l \<in> set (registry_labels r))"
    by (simp add: registry_find_None)
  show "registry_labels (snd (register_with_protocol l p t r)) =
      (if l \<in> set (registry_labels r) then registry_labels r else registry_labels r @ [l])"
    using registry_find_None [of l r]
    by (auto simp: register_with_protocol_def registry_labels_def registry_find_def Let_def
        split: option.splits)
  show "registry_labels (registry_remove l r) = filter (\<lambda>x. x \<noteq> l) (registry_labels r)"
    by (simp add: registry_labels_def registry_remove_def filter_map comp_def)
  show "registry_find l r = Some e \<Longrightarrow> register_with_protocol l p t r = (e, r)"
    by (simp add: registry_find_def register_with_protocol_def)
  show "registry_find l (snd (register_with_protocol l p t r)) = Some (fst (register_with_protocol l p t r))"
    by (auto simp: registry_find_def register_with_protocol_def find_append Let_def split: option.splits)
  show "k \<noteq> l \<Longrightarrow> registry_find k (snd (register_with_protocol l p t r)) = registry_find k r"
    by (auto simp: registry_find_def register_with_protocol_def find_append Let_def split: option.splits)
  show "k \<noteq> l \<Longrightarrow> registry_find k (registry_remove l r) = registry_find k r"
    by (rule registry_find_remove_other)
qed

section \<open>Rates\<close>

text \<open>The weight of the previous rate, \<open>1.0 - 0.3\<close>, as binary64 computes it.\<close>

lemma rnd64_one_minus_alpha: "rnd64 (1 - RATE_ALPHA) = 6305039478318694 / 2 ^ 53"
  by code_simp

definition idle_ewma :: "u64 \<Rightarrow> rat" where
  "idle_ewma e = rnd64 (rnd64 (rnd64 (1 - RATE_ALPHA) * u64_as_f64 e))"

lemma compute_rate_idle: "0 < dt \<Longrightarrow> compute_rate c c dt e = round_to_u64 (idle_ewma e)"
  by (simp add: compute_rate_def Let_def sat_sub_def u64_as_f64_def idle_ewma_def)

lemma unsigned_rat_nonneg [simp]: "0 \<le> (unsigned (e :: 'a::len word) :: rat)"
  by (metis of_nat_0_le_iff of_nat_unat)

lemma idle_ewma_upper: "idle_ewma e \<le> of_nat (unat e) * (7001 / 10000)"
proof -
  define n :: rat where "n = of_nat (unat e)"
  define k :: rat where "k = 1 + 1 / 2 ^ 53"
  have n: "0 \<le> n" by (simp add: n_def)
  have k: "0 \<le> k" by (simp add: k_def)
  define w :: rat where "w = 6305039478318694 / 2 ^ 53"
  have w: "0 \<le> w" by (simp add: w_def)
  have a: "u64_as_f64 e \<le> n * k" "0 \<le> u64_as_f64 e"
    using rnd64_upper [OF n] n by (simp_all add: u64_as_f64_def n_def k_def)
  have b: "rnd64 (w * u64_as_f64 e) \<le> w * u64_as_f64 e * k" "0 \<le> rnd64 (w * u64_as_f64 e)"
    using rnd64_upper [of "w * u64_as_f64 e"] a(2) w by (simp_all add: k_def)
  have "idle_ewma e \<le> rnd64 (w * u64_as_f64 e) * k"
    using rnd64_upper [OF b(2)] by (simp add: idle_ewma_def rnd64_one_minus_alpha w_def k_def)
  also have "\<dots> \<le> w * u64_as_f64 e * k * k"
    using b(1) k by (intro mult_right_mono)
  also have "\<dots> \<le> w * (n * k) * k * k"
    using a(1) k w by (intro mult_right_mono mult_left_mono) auto
  also have "\<dots> = n * (w * k * k * k)" by simp
  also have "\<dots> \<le> n * (7001 / 10000)"
    using n by (intro mult_left_mono) (simp_all add: w_def k_def)
  finally show ?thesis by (simp add: n_def)
qed

lemma idle_ewma_nonneg: "0 \<le> idle_ewma e"
  by (simp add: idle_ewma_def u64_as_f64_def rnd64_one_minus_alpha)

lemma idle_ewma_lower: "of_nat (unat e) * (6999 / 10000) \<le> idle_ewma e"
proof -
  define n :: rat where "n = of_nat (unat e)"
  define k :: rat where "k = 1 - 1 / 2 ^ 53"
  have n: "0 \<le> n" by (simp add: n_def)
  have k: "0 \<le> k" by (simp add: k_def)
  define w :: rat where "w = 6305039478318694 / 2 ^ 53"
  have w: "0 \<le> w" by (simp add: w_def)
  have a: "n * k \<le> u64_as_f64 e" "0 \<le> u64_as_f64 e"
    using rnd64_lower [OF n] n by (simp_all add: u64_as_f64_def n_def k_def)
  have b: "w * u64_as_f64 e * k \<le> rnd64 (w * u64_as_f64 e)" "0 \<le> rnd64 (w * u64_as_f64 e)"
    using rnd64_lower [of "w * u64_as_f64 e"] a(2) w by (simp_all add: k_def)
  have "n * (6999 / 10000) \<le> n * (w * k * k * k)"
    using n by (intro mult_left_mono) (simp_all add: w_def k_def)
  also have "\<dots> = w * (n * k) * k * k" by simp
  also have "\<dots> \<le> w * u64_as_f64 e * k * k"
    using a(1) k w by (intro mult_right_mono mult_left_mono) auto
  also have "\<dots> \<le> rnd64 (w * u64_as_f64 e) * k"
    using b(1) k by (intro mult_right_mono)
  also have "\<dots> \<le> idle_ewma e"
    using rnd64_lower [OF b(2)] by (simp add: idle_ewma_def rnd64_one_minus_alpha w_def k_def)
  finally show ?thesis by (simp add: n_def)
qed

lemma unat_round_to_u64: "unat (round_to_u64 q) = min (nat \<lfloor>q + 1 / 2\<rfloor>) (2 ^ 64 - 1)"
proof -
  have "min (nat \<lfloor>q + 1 / 2\<rfloor>) (2 ^ 64 - 1) < 2 ^ 64"
    by (simp add: min_less_iff_disj)
  then show ?thesis by (simp add: round_to_u64_def unat_of_nat)
qed

lemma unat_round_to_u64_le: "0 \<le> q \<Longrightarrow> (of_nat (unat (round_to_u64 q)) :: rat) \<le> q + 1 / 2"
proof -
  assume q: "0 \<le> q"
  have "unat (round_to_u64 q) \<le> nat \<lfloor>q + 1 / 2\<rfloor>"
    by (simp add: unat_round_to_u64)
  then have "(of_nat (unat (round_to_u64 q)) :: rat) \<le> of_nat (nat \<lfloor>q + 1 / 2\<rfloor>)"
    by (simp only: of_nat_le_iff)
  also have "\<dots> = of_int \<lfloor>q + 1 / 2\<rfloor>" using q by (intro of_nat_nat) simp
  also have "\<dots> \<le> q + 1 / 2" by linarith
  finally show ?thesis .
qed

lemma unat_round_to_u64_ge_1: "1 / 2 \<le> q \<Longrightarrow> 1 \<le> unat (round_to_u64 q)"
proof -
  assume "1 / 2 \<le> q"
  then have "1 \<le> \<lfloor>q + 1 / 2\<rfloor>" by linarith
  then have "1 \<le> nat \<lfloor>q + 1 / 2\<rfloor>" by linarith
  then show ?thesis unfolding unat_round_to_u64 by simp
qed

lemma idle_rate_positive:
  assumes "0 < dt" and "1 \<le> unat e"
  shows "1 \<le> unat (compute_rate c c dt e)"
proof -
  have "(1::rat) \<le> of_nat (unat e)" using assms(2) by (metis of_nat_1 of_nat_le_iff)
  then have "1 / 2 \<le> of_nat (unat e) * (6999 / 10000 :: rat)" by linarith
  then have "1 / 2 \<le> idle_ewma e" using idle_ewma_lower [of e] by (rule order_trans)
  then show ?thesis unfolding compute_rate_idle [OF assms(1)] by (rule unat_round_to_u64_ge_1)
qed

lemma idle_rate_falls:
  assumes "0 < dt" and "2 \<le> unat e"
  shows "unat (compute_rate c c dt e) < unat e"
proof -
  have "(of_nat (unat (compute_rate c c dt e)) :: rat) \<le> idle_ewma e + 1 / 2"
    using unat_round_to_u64_le [OF idle_ewma_nonneg] assms(1) by (simp add: compute_rate_idle)
  also have "\<dots> \<le> of_nat (unat e) * (7001 / 10000) + 1 / 2"
    using idle_ewma_upper by (simp add: add_right_mono)
  also have "\<dots> < of_nat (unat e)"
  proof -
    have "(2::rat) \<le> of_nat (unat e)" using assms(2) by (metis of_nat_le_iff of_nat_numeral)
    then show ?thesis by (simp add: field_simps)
  qed
  finally show ?thesis by (simp only: of_nat_less_iff)
qed

lemma idle_rate_zero: "0 < dt \<Longrightarrow> compute_rate c c dt 0 = 0"
  by (simp add: compute_rate_idle idle_ewma_def u64_as_f64_def round_to_u64_def)

lemma idle_rate_one: "0 < dt \<Longrightarrow> compute_rate c c dt 1 = 1"
proof -
  assume dt: "0 < dt"
  have "(of_nat (unat (compute_rate c c dt 1)) :: rat) \<le> idle_ewma 1 + 1 / 2"
    using unat_round_to_u64_le [OF idle_ewma_nonneg] dt by (simp add: compute_rate_idle)
  also have "\<dots> < of_nat 2" using idle_ewma_upper [of 1] by simp
  finally have "unat (compute_rate c c dt 1) < 2" by (simp only: of_nat_less_iff)
  moreover have "1 \<le> unat (compute_rate c c dt 1)" by (rule idle_rate_positive [OF dt]) simp
  ultimately have "unat (compute_rate c c dt 1) = unat (1 :: u64)" by simp
  then show ?thesis by (simp only: word_unat_eq_iff)
qed

lemma idle_rate_small: "0 < dt \<Longrightarrow> unat e \<le> 1 \<Longrightarrow> compute_rate c c dt e = e"
proof -
  assume dt: "0 < dt" and e: "unat e \<le> 1"
  have "e = 0 \<or> e = 1" using e by (auto simp: word_unat_eq_iff le_Suc_eq)
  then show ?thesis using idle_rate_zero [OF dt] idle_rate_one [OF dt] by auto
qed

lemma idle_rate_iterate:
  assumes dt: "0 < dt"
  shows "unat e \<le> Suc n \<Longrightarrow> unat ((compute_rate c c dt ^^ n) e) = min 1 (unat e)"
proof (induction n arbitrary: e)
  case 0
  then show ?case by simp
next
  case (Suc n)
  show ?case
  proof (cases "2 \<le> unat e")
    case True
    then have "unat (compute_rate c c dt e) \<le> Suc n" "1 \<le> unat (compute_rate c c dt e)"
      using idle_rate_falls [OF dt True, of c] idle_rate_positive [OF dt, of e c] Suc.prems
      by simp_all
    with Suc.IH True show ?thesis by (simp add: funpow_swap1)
  next
    case False
    then have "compute_rate c c dt e = e" using idle_rate_small [OF dt] by simp
    with Suc.IH [of e] False show ?thesis by (simp add: funpow_swap1)
  qed
qed

text \<open>
  C35. With no new traffic the published rate falls strictly at every sample while it is at
  least 2 bytes per second, and after at most as many samples as the rate was large it has
  reached its limit. That limit is 0 only for a gauge that already was 0: any positive rate
  ends at 1 byte per second and never gets below it, because 0.7 rounds back to 1.\<close>
theorem idle_rate_decays_to_one:
  assumes "0 < dt"
  shows "(2 \<le> unat e \<longrightarrow> unat (compute_rate c c dt e) < unat e)
     \<and> (unat e \<le> n \<longrightarrow> unat ((compute_rate c c dt ^^ n) e) = (if e = 0 then 0 else 1))"
proof (intro conjI impI)
  show "2 \<le> unat e \<Longrightarrow> unat (compute_rate c c dt e) < unat e"
    by (rule idle_rate_falls [OF assms])
  assume "unat e \<le> n"
  then have "unat ((compute_rate c c dt ^^ n) e) = min 1 (unat e)"
    using idle_rate_iterate [OF assms] by simp
  moreover have "e \<noteq> 0 \<Longrightarrow> 1 \<le> unat e" by (simp add: unat_gt_0 Suc_leI)
  ultimately show "unat ((compute_rate c c dt ^^ n) e) = (if e = 0 then 0 else 1)" by auto
qed

theorem idle_rate_decays_to_one_witness:
  "unat (compute_rate 5 5 1 100) < 100 \<and> unat ((compute_rate 5 5 1 ^^ 100) 100) = 1"
  using idle_rate_decays_to_one [of 1 100 5 100] by simp

end
