(* ===== verification/Notify_Text.thy ===== *)
theory Notify_Text
  imports Config_Ports Net
begin

text \<open>
  The events of \<open>src/src/notify.rs\<close> and their text: severity, throttle key, the helpers that
  bound and flatten operator-supplied strings, dates and durations, and the rendered message.
  Characters outside ASCII are written as their code points. The hostname of the machine and
  the clock are arguments.
\<close>

section \<open>Constants\<close>

definition MAX_TEXT_CHARS :: nat where "MAX_TEXT_CHARS = 4000"
definition MAX_DETAIL_CHARS :: nat where "MAX_DETAIL_CHARS = 300"
definition THROTTLE_DNS :: duration where "THROTTLE_DNS = from_secs 60"
definition THROTTLE_BIND :: duration where "THROTTLE_BIND = from_secs 300"
definition THROTTLE_LIMIT :: duration where "THROTTLE_LIMIT = from_secs 300"
definition THROTTLE_RELOAD_FAILED :: duration where "THROTTLE_RELOAD_FAILED = from_secs 60"
definition THROTTLE_INTERNAL :: duration where "THROTTLE_INTERNAL = from_secs 60"

section \<open>Events\<close>

datatype severity = Info | Warning | Critical

record probe_report =
  pr_label :: rstr
  pr_target :: rstr
  pr_protocol :: protocol
  pr_outcome :: "rstr + (socket_addr \<times> duration)"

datatype event =
    Started "probe_report list"
  | Stopping rstr u64
  | DnsChanged rstr rstr "ip_addr list" "ip_addr list"
  | TargetUnreachable rstr rstr duration rstr
  | TargetRecovered rstr rstr duration "socket_addr option"
  | BindFailed rstr rstr rstr u32
  | BindRecovered rstr rstr u32
  | ConfigReloaded nat "rstr list" "rstr list"
  | ConfigReloadFailed rstr rstr
  | ConnectionLimitReached rstr u64
  | UdpSessionLimitReached rstr u64
  | Internal rstr rstr

fun event_kind :: "event \<Rightarrow> rstr" where
  "event_kind (Started _) = lit ''started''"
| "event_kind (Stopping _ _) = lit ''stopping''"
| "event_kind (DnsChanged _ _ _ _) = lit ''dns_changed''"
| "event_kind (TargetUnreachable _ _ _ _) = lit ''target_unreachable''"
| "event_kind (TargetRecovered _ _ _ _) = lit ''target_recovered''"
| "event_kind (BindFailed _ _ _ _) = lit ''bind_failed''"
| "event_kind (BindRecovered _ _ _) = lit ''bind_recovered''"
| "event_kind (ConfigReloaded _ _ _) = lit ''config_reloaded''"
| "event_kind (ConfigReloadFailed _ _) = lit ''config_reload_failed''"
| "event_kind (ConnectionLimitReached _ _) = lit ''connection_limit_reached''"
| "event_kind (UdpSessionLimitReached _ _) = lit ''udp_session_limit_reached''"
| "event_kind (Internal _ _) = lit ''internal''"

fun event_severity :: "event \<Rightarrow> severity" where
  "event_severity (Started forwarders) =
     (if list_ex (\<lambda>f. \<not> is_ok (pr_outcome f)) forwarders then Warning else Info)"
| "event_severity (Stopping _ _) = Info"
| "event_severity (DnsChanged _ _ _ _) = Info"
| "event_severity (TargetRecovered _ _ _ _) = Info"
| "event_severity (BindRecovered _ _ _) = Info"
| "event_severity (ConfigReloaded _ _ _) = Info"
| "event_severity (ConfigReloadFailed _ _) = Warning"
| "event_severity (ConnectionLimitReached _ _) = Warning"
| "event_severity (UdpSessionLimitReached _ _) = Warning"
| "event_severity (Internal _ _) = Warning"
| "event_severity (TargetUnreachable _ _ _ _) = Critical"
| "event_severity (BindFailed _ _ _ _) = Critical"

fun event_throttle :: "event \<Rightarrow> (rstr \<times> duration) option" where
  "event_throttle (DnsChanged label _ _ _) = Some (lit ''dns:'' @ label, THROTTLE_DNS)"
| "event_throttle (BindFailed label _ _ _) = Some (lit ''bind:'' @ label, THROTTLE_BIND)"
| "event_throttle (ConnectionLimitReached label _) = Some (lit ''limit:'' @ label, THROTTLE_LIMIT)"
| "event_throttle (UdpSessionLimitReached label _) = Some (lit ''limit:'' @ label, THROTTLE_LIMIT)"
| "event_throttle (ConfigReloadFailed _ _) = Some (lit ''reload-failed'', THROTTLE_RELOAD_FAILED)"
| "event_throttle (Internal component _) = Some (lit ''internal:'' @ component, THROTTLE_INTERNAL)"
| "event_throttle _ = None"

section \<open>Text helpers\<close>

fun strip_control_loop :: "bool \<Rightarrow> rstr \<Rightarrow> rstr" where
  "strip_control_loop last_space [] = []"
| "strip_control_loop last_space (c # cs) =
     (let c' = (if is_control c then 32 else c)
      in if c' = 32
         then (if last_space then [] else [32]) @ strip_control_loop True cs
         else c' # strip_control_loop False cs)"

definition strip_control :: "rstr \<Rightarrow> rstr" where
  "strip_control s = trim (strip_control_loop False s)"

definition truncate_chars :: "rstr \<Rightarrow> nat \<Rightarrow> rstr" where
  "truncate_chars s mx = (if length s \<le> mx then s else take (mx - 1) s @ [0x2026])"

text \<open>96 is the backtick, 39 the apostrophe that replaces it.\<close>

definition mono_text :: "rstr \<Rightarrow> rstr" where
  "mono_text s =
     (let inner = truncate_chars (map (\<lambda>c. if c = 96 then 39 else c) s) MAX_DETAIL_CHARS
      in [96] @ strip_control inner @ [96])"

definition plain_text :: "rstr \<Rightarrow> rstr" where
  "plain_text s = truncate_chars (strip_control s) MAX_DETAIL_CHARS"

definition join_ips :: "ip_addr list \<Rightarrow> rstr" where
  "join_ips ips = (if ips = [] then lit ''(none)'' else join_str (lit '', '') (map show_ip ips))"

definition join_mono :: "rstr list \<Rightarrow> rstr" where
  "join_mono items = join_str (lit '', '') (map mono_text items)"

definition fmt_duration :: "duration \<Rightarrow> rstr" where
  "fmt_duration d =
     (let secs = as_secs d in
      if secs < 60 then show_nat secs @ lit ''s''
      else if secs < 3600
      then show_nat (secs div 60) @ lit ''m '' @ pad_zero 2 (show_nat (secs mod 60)) @ lit ''s''
      else if secs < 86400
      then show_nat (secs div 3600) @ lit ''h ''
             @ pad_zero 2 (show_nat (secs mod 3600 div 60)) @ lit ''m''
      else show_nat (secs div 86400) @ lit ''d ''
             @ pad_zero 2 (show_nat (secs mod 86400 div 3600)) @ lit ''h'')"

text \<open>
  The date arithmetic runs on \<open>i64\<close>; its operands stay below \<open>2^60\<close> for every \<open>u64\<close>
  number of seconds, and all of them are non-negative, so \<open>nat\<close> computes the same values.
\<close>

definition civil_from_days :: "nat \<Rightarrow> nat \<times> nat \<times> nat" where
  "civil_from_days days =
     (let z = days + 719468;
          era = z div 146097;
          doe = z mod 146097;
          yoe = (doe - doe div 1460 + doe div 36524 - doe div 146096) div 365;
          y = yoe + era * 400;
          doy = doe - (365 * yoe + yoe div 4 - yoe div 100);
          mp = (5 * doy + 2) div 153;
          d = doy - (153 * mp + 2) div 5 + 1;
          month = (if mp < 10 then mp + 3 else mp - 9);
          year = (if month \<le> 2 then y + 1 else y)
      in (year, month, d))"

definition format_utc :: "u64 \<Rightarrow> rstr" where
  "format_utc unix_secs =
     (let n = unat unix_secs;
          rem = n mod 86400;
          (h, m, s) = (rem div 3600, rem mod 3600 div 60, rem mod 60);
          (year, month, d) = civil_from_days (n div 86400);
          two = (\<lambda>k. pad_zero 2 (show_nat k))
      in pad_zero 4 (show_nat year) @ lit ''-'' @ two month @ lit ''-'' @ two d @ lit '' ''
           @ two h @ lit '':'' @ two m @ lit '':'' @ two s @ lit '' UTC'')"

section \<open>Instance\<close>

record instance_info =
  ii_name :: rstr
  ii_version :: rstr
  ii_pid :: u32

text \<open>
  \<open>env\<close> is the process environment, \<open>os_hostname\<close> what \<open>gethostname\<close> wrote, up to the first
  zero byte, when the call succeeds and the bytes are UTF-8.
\<close>

definition default_instance_name :: "(rstr \<Rightarrow> rstr option) \<Rightarrow> rstr option \<Rightarrow> rstr" where
  "default_instance_name env os_hostname =
     (let usable = (\<lambda>var. case env var of Some v \<Rightarrow> trim v \<noteq> [] | None \<Rightarrow> False)
      in if usable (lit ''HOSTNAME'') then the (env (lit ''HOSTNAME''))
         else if usable (lit ''COMPUTERNAME'') then the (env (lit ''COMPUTERNAME''))
         else case os_hostname of
                Some s \<Rightarrow> if s \<noteq> [] then s else lit ''rfw''
              | None \<Rightarrow> lit ''rfw'')"

definition instance_info_new ::
  "rstr option \<Rightarrow> (rstr \<Rightarrow> rstr option) \<Rightarrow> rstr option \<Rightarrow> rstr \<Rightarrow> u32 \<Rightarrow> instance_info" where
  "instance_info_new name env os_hostname version pid =
     \<lparr>ii_name = (case name of
                   Some n \<Rightarrow> if trim n \<noteq> [] then n else default_instance_name env os_hostname
                 | None \<Rightarrow> default_instance_name env os_hostname),
      ii_version = version, ii_pid = pid\<rparr>"

section \<open>Messages\<close>

text \<open>The icons and punctuation outside ASCII.\<close>

definition green_circle :: rstr where "green_circle = [0x1F7E2]"
definition orange_circle :: rstr where "orange_circle = [0x1F7E0]"
definition red_circle :: rstr where "red_circle = [0x1F534]"
definition yellow_circle :: rstr where "yellow_circle = [0x1F7E1]"
definition blue_circle :: rstr where "blue_circle = [0x1F535]"
definition check_mark :: rstr where "check_mark = [0x2705]"
definition cross_mark :: rstr where "cross_mark = [0x274C]"
definition em_dash :: rstr where "em_dash = [32, 0x2014, 32]"
definition nl :: rstr where "nl = [10]"

fun severity_icon :: "severity \<Rightarrow> rstr" where
  "severity_icon Info = green_circle"
| "severity_icon Warning = orange_circle"
| "severity_icon Critical = red_circle"

definition render_probe :: "probe_report \<Rightarrow> rstr" where
  "render_probe f =
     nl @ [0x2022, 32] @ mono_text (pr_label f) @ lit '' '' @
     (case pr_outcome f of
        Inr (addr, latency) \<Rightarrow>
          if pr_protocol f = Udp
          then check_mark @ lit '' resolved to '' @ mono_text (show_socket_addr addr) @ lit '' (''
                 @ show_nat (as_millis latency) @ lit '' ms, udp: passive check)''
          else check_mark @ lit '' reachable at '' @ mono_text (show_socket_addr addr) @ lit '' (''
                 @ show_nat (as_millis latency) @ lit '' ms)''
      | Inl e \<Rightarrow> cross_mark @ lit '' unreachable: '' @ plain_text e)"

definition ends_with :: "rstr \<Rightarrow> rstr \<Rightarrow> bool" where
  "ends_with suffix s \<longleftrightarrow> strip_prefix (rev suffix) (rev s) \<noteq> None"

text \<open>The part of the message that depends on the event.\<close>

fun render_body :: "instance_info \<Rightarrow> event \<Rightarrow> rstr" where
  "render_body inst (Started forwarders) =
     (let bad = length (filter (\<lambda>f. \<not> is_ok (pr_outcome f)) forwarders)
      in severity_icon (event_severity (Started forwarders)) @ lit '' *rfw started* on ''
           @ mono_text (ii_name inst) @ em_dash @ show_nat (length forwarders) @ lit '' forwarder(s)''
           @ (if bad > 0 then lit '', '' @ show_nat bad @ lit '' target(s) unreachable'' else [])
           @ concat (map render_probe forwarders))"
| "render_body inst (Stopping signal active_connections) =
     yellow_circle @ lit '' *rfw stopping* on '' @ mono_text (ii_name inst) @ lit '' (''
       @ plain_text signal @ lit '')'' @ em_dash @ lit ''draining ''
       @ show_nat (unat active_connections) @ lit '' active connection(s)''"
| "render_body inst (DnsChanged label host old new) =
     blue_circle @ lit '' *DNS change* for '' @ mono_text host @ nl @ lit ''Forwarder '' @ mono_text label
       @ nl @ mono_text (join_ips old) @ [32, 0x2192, 32] @ mono_text (join_ips new) @ nl
       @ (if ends_with (lit ''/udp'') label
          then lit ''New UDP sessions now go to the new address; sessions to addresses no longer published were closed.''
          else lit ''New connections now go to the new address; connections already open stay on the old one.'')"
| "render_body inst (TargetUnreachable label target down_for last_error) =
     severity_icon Critical @ lit '' *Target unreachable* '' @ mono_text target @ nl @ lit ''Forwarder ''
       @ mono_text label @ nl @ lit ''Failing for '' @ fmt_duration down_for
       @ lit ''; clients connecting to this port are being refused.'' @ nl @ lit ''Last error: ''
       @ plain_text last_error"
| "render_body inst (TargetRecovered label target down_for address) =
     check_mark @ lit '' *Target reachable again* '' @ mono_text target @ nl @ lit ''Forwarder ''
       @ mono_text label @ nl @ lit ''Was unreachable for '' @ fmt_duration down_for
       @ (case address of
            Some addr \<Rightarrow> nl @ lit ''Answering at '' @ mono_text (show_socket_addr addr)
          | None \<Rightarrow> [])"
| "render_body inst (BindFailed label local_addr err attempts) =
     severity_icon Critical @ lit '' *Cannot bind* '' @ mono_text local_addr @ nl @ lit ''Forwarder ''
       @ mono_text label @ nl @ lit ''Error: '' @ plain_text err @ nl @ lit ''Attempt ''
       @ show_nat (unat attempts)
       @ lit ''; retrying every 5 s. Clients cannot connect to this port until it binds.''"
| "render_body inst (BindRecovered label local_addr failed_attempts) =
     check_mark @ lit '' *Listening again* on '' @ mono_text local_addr @ nl @ lit ''Forwarder ''
       @ mono_text label @ nl @ lit ''Bound after '' @ show_nat (unat failed_attempts)
       @ lit '' failed attempt(s)''"
| "render_body inst (ConfigReloaded active added removed) =
     blue_circle @ lit '' *Config reloaded* on '' @ mono_text (ii_name inst) @ em_dash
       @ show_nat active @ lit '' forwarder(s) active''
       @ (if added = [] \<and> removed = []
          then nl @ lit ''Forwarder list unchanged (settings only)'' else [])
       @ (if added \<noteq> [] then nl @ lit ''Added: '' @ join_mono added else [])
       @ (if removed \<noteq> [] then nl @ lit ''Removed: '' @ join_mono removed else [])"
| "render_body inst (ConfigReloadFailed path err) =
     severity_icon Warning @ lit '' *Config reload failed* on '' @ mono_text (ii_name inst) @ em_dash
       @ lit ''running configuration kept'' @ nl @ lit ''File: '' @ mono_text path @ nl
       @ lit ''Error: '' @ plain_text err"
| "render_body inst (ConnectionLimitReached label rejected_total) =
     severity_icon Warning @ lit '' *Connection limit reached*'' @ nl @ lit ''Forwarder ''
       @ mono_text label @ nl
       @ lit ''max_connections is saturated; new connections are being refused (''
       @ show_nat (unat rejected_total) @ lit '' refused so far).''"
| "render_body inst (UdpSessionLimitReached label rejected_total) =
     severity_icon Warning @ lit '' *UDP session limit reached*'' @ nl @ lit ''Forwarder ''
       @ mono_text label @ nl
       @ lit ''udp_max_sessions is saturated; datagrams from new clients are being dropped (''
       @ show_nat (unat rejected_total) @ lit '' refused so far).''"
| "render_body inst (Internal component message) =
     severity_icon Warning @ lit '' *Internal problem* in '' @ mono_text component @ lit '' on ''
       @ mono_text (ii_name inst) @ nl @ plain_text message"

definition render_footer :: "instance_info \<Rightarrow> u64 \<Rightarrow> rstr" where
  "render_footer inst unix_secs =
     nl @ lit ''_'' @ plain_text (ii_name inst) @ [32, 0xB7, 32] @ lit ''pid ''
       @ show_nat (unat (ii_pid inst)) @ [32, 0xB7, 32] @ lit ''rfw '' @ ii_version inst
       @ [32, 0xB7, 32] @ format_utc unix_secs @ lit ''_''"

definition render_event :: "event \<Rightarrow> instance_info \<Rightarrow> u64 \<Rightarrow> u64 \<Rightarrow> rstr" where
  "render_event ev inst suppressed unix_secs =
     truncate_chars
       (render_body inst ev
        @ (if suppressed > 0
           then nl @ lit ''_(+'' @ show_nat (unat suppressed)
                  @ lit '' similar event(s) suppressed since the previous message)_''
           else [])
        @ render_footer inst unix_secs)
       MAX_TEXT_CHARS"

section \<open>Bounds\<close>

lemma truncate_chars_length: "0 < mx \<Longrightarrow> length (truncate_chars s mx) \<le> mx"
  by (simp add: truncate_chars_def)

lemma truncate_chars_set: "set (truncate_chars s mx) \<subseteq> insert 0x2026 (set s)"
  by (auto simp: truncate_chars_def dest: in_set_takeD)

lemma length_trim_le: "length (trim s) \<le> length s"
proof -
  have *: "length (trim_start u) \<le> length u" for u
    unfolding trim_start_def by (rule length_dropWhile_le)
  show ?thesis unfolding trim_def using *[of "rev (trim_start s)"] *[of s] by simp
qed

lemma set_trim_subset: "set (trim s) \<subseteq> set s"
proof -
  have *: "set (trim_start u) \<subseteq> set u" for u
    unfolding trim_start_def by (auto dest: set_dropWhileD)
  show ?thesis unfolding trim_def using *[of "rev (trim_start s)"] *[of s] by auto
qed

lemma strip_loop_length: "length (strip_control_loop b s) \<le> length s"
  by (induction b s rule: strip_control_loop.induct) (auto simp: Let_def)

lemma strip_loop_no_control: "c \<in> set (strip_control_loop b s) \<Longrightarrow> \<not> is_control c"
  by (induction b s rule: strip_control_loop.induct)
    (auto simp: Let_def is_control_def split: if_splits)

lemma strip_loop_set: "set (strip_control_loop b s) \<subseteq> insert 32 (set s)"
  by (induction b s rule: strip_control_loop.induct) (auto simp: Let_def split: if_splits)

lemma strip_control_length: "length (strip_control s) \<le> length s"
  unfolding strip_control_def using length_trim_le strip_loop_length order_trans by blast

lemma strip_control_no_control: "c \<in> set (strip_control s) \<Longrightarrow> \<not> is_control c"
  unfolding strip_control_def using set_trim_subset strip_loop_no_control by blast

lemma strip_control_set: "set (strip_control s) \<subseteq> insert 32 (set s)"
  unfolding strip_control_def using set_trim_subset strip_loop_set by blast

text \<open>
  C27. Operator-supplied text cannot break out of a message: a value shown in monospace is one
  pair of backticks around at most 300 characters, none of them a backtick or a control
  character (so no line break either), and flattened error text is at most 300 characters
  without control characters, whatever the input.\<close>
theorem operator_text_contained:
  "(\<exists>inner. mono_text s = 96 # inner @ [96] \<and> length inner \<le> 300 \<and> 96 \<notin> set inner
      \<and> list_all (\<lambda>c. \<not> is_control c) inner)
   \<and> length (plain_text s) \<le> 300 \<and> list_all (\<lambda>c. \<not> is_control c) (plain_text s)"
proof (intro conjI exI [of _ "strip_control (truncate_chars (map (\<lambda>c. if c = 96 then 39 else c) s) 300)"])
  let ?t = "truncate_chars (map (\<lambda>c. if c = 96 then 39 else c) s) 300"
  show "mono_text s = 96 # strip_control ?t @ [96]"
    by (simp add: mono_text_def MAX_DETAIL_CHARS_def)
  show "length (strip_control ?t) \<le> 300"
    using strip_control_length [of ?t] truncate_chars_length [of 300] by (meson order_trans zero_less_numeral)
  have "96 \<notin> set ?t"
    using truncate_chars_set [of "map (\<lambda>c. if c = 96 then 39 else c) s" 300] by auto
  then show "96 \<notin> set (strip_control ?t)"
    using strip_control_set [of ?t] by auto
  show "length (plain_text s) \<le> 300"
    unfolding plain_text_def MAX_DETAIL_CHARS_def by (rule truncate_chars_length) simp
  show "list_all (\<lambda>c. \<not> is_control c) (strip_control ?t)"
    using strip_control_no_control by (auto simp: list_all_iff)
  have "\<not> is_control 0x2026" by (simp add: is_control_def)
  then show "list_all (\<lambda>c. \<not> is_control c) (plain_text s)"
    using strip_control_no_control [of _ s] truncate_chars_set [of "strip_control s" MAX_DETAIL_CHARS]
    unfolding plain_text_def list_all_iff by blast
qed

lemma render_event_length: "length (render_event ev inst suppressed unix_secs) \<le> 4000"
  unfolding render_event_def MAX_TEXT_CHARS_def by (rule truncate_chars_length) simp

end
