(* ===== verification/Gate.thy ===== *)
theory Gate
  imports Prelude
begin

text \<open>
  Rate limiting with suppression counts, the contract that two pieces of the program share:
  the webhook throttle (per key, \<open>Throttle::admit\<close> in \<open>src/src/notify.rs\<close>) and the log gate
  of the UDP engine (\<open>LogGate::check\<close> in \<open>src/src/udp.rs\<close>). Asked at a time, a gate answers
  \<open>Some n\<close> (let it through, \<open>n\<close> were suppressed before it) or \<open>None\<close> (suppressed and
  counted). Counts are 64-bit words and wrap.
\<close>

text \<open>The answers of a gate to a sequence of questions with one spacing.\<close>

fun gate_run :: "(duration \<Rightarrow> instant \<Rightarrow> 'g \<Rightarrow> u64 option \<times> 'g) \<Rightarrow> duration \<Rightarrow> instant list \<Rightarrow> 'g
    \<Rightarrow> u64 option list \<times> 'g" where
  "gate_run check w [] g = ([], g)"
| "gate_run check w (t # ts) g =
     (let (r, g') = check w t g; (rs, g'') = gate_run check w ts g' in (r # rs, g''))"

text \<open>The times that were let through, the count reported with them, the number suppressed.\<close>

fun passed_times :: "instant list \<Rightarrow> u64 option list \<Rightarrow> instant list" where
  "passed_times (t # ts) (Some n # rs) = t # passed_times ts rs"
| "passed_times (t # ts) (None # rs) = passed_times ts rs"
| "passed_times _ _ = []"

definition reported :: "u64 option list \<Rightarrow> u64" where
  "reported rs = sum_list (map (\<lambda>r. case r of None \<Rightarrow> 0 | Some n \<Rightarrow> n) rs)"

definition suppressed_in :: "u64 option list \<Rightarrow> u64" where
  "suppressed_in rs = of_nat (length (filter (\<lambda>r. r = None) rs))"

definition spaced :: "duration \<Rightarrow> instant option \<Rightarrow> instant list \<Rightarrow> bool" where
  "spaced w before ts \<longleftrightarrow>
     successively (\<lambda>a b. w \<le> b - a) ((case before of None \<Rightarrow> [] | Some l \<Rightarrow> [l]) @ ts)"

lemma reported_simps [simp]:
  "reported [] = 0" "reported (None # rs) = reported rs" "reported (Some n # rs) = n + reported rs"
  by (simp_all add: reported_def)

lemma suppressed_in_simps [simp]:
  "suppressed_in [] = 0" "suppressed_in (None # rs) = 1 + suppressed_in rs"
  "suppressed_in (Some n # rs) = suppressed_in rs"
  by (simp_all add: suppressed_in_def)

lemma spaced_Cons: "spaced w before (t # ts) \<longleftrightarrow> (\<forall>l. before = Some l \<longrightarrow> w \<le> t - l) \<and> spaced w (Some t) ts"
  by (cases before) (auto simp: spaced_def)

lemma spaced_Nil [simp]: "spaced w before []"
  by (cases before) (simp_all add: spaced_def)

locale gate =
  fixes check :: "duration \<Rightarrow> instant \<Rightarrow> 'g \<Rightarrow> u64 option \<times> 'g"
    and view :: "'g \<Rightarrow> instant option \<times> u64"
  assumes check_suppress:
      "\<lbrakk>view g = (Some l, n); t - l < w\<rbrakk>
       \<Longrightarrow> fst (check w t g) = None \<and> view (snd (check w t g)) = (Some l, n + 1)"
    and check_pass:
      "\<lbrakk>view g = (last_passed, n); \<forall>l. last_passed = Some l \<longrightarrow> w \<le> t - l\<rbrakk>
       \<Longrightarrow> fst (check w t g) = Some n \<and> view (snd (check w t g)) = (Some t, 0)"
begin

lemma check_cases:
  obtains (suppress) l n where "view g = (Some l, n)" "t - l < w" "fst (check w t g) = None"
      "view (snd (check w t g)) = (Some l, n + 1)"
  | (pass) last_passed n where "view g = (last_passed, n)" "\<forall>l. last_passed = Some l \<longrightarrow> w \<le> t - l"
      "fst (check w t g) = Some n" "view (snd (check w t g)) = (Some t, 0)"
proof -
  obtain lp n where v: "view g = (lp, n)" by fastforce
  show thesis
  proof (cases "\<exists>l. lp = Some l \<and> t - l < w")
    case True
    then obtain l where "lp = Some l" "t - l < w" by blast
    then show thesis using check_suppress [of g l n t w] v suppress by blast
  next
    case False
    then have "\<forall>l. lp = Some l \<longrightarrow> w \<le> t - l" by (auto simp: not_less)
    then show thesis using check_pass [OF v] v pass by blast
  qed
qed

lemma run_spaced: "spaced w (fst (view g)) (passed_times ts (fst (gate_run check w ts g)))"
proof (induction ts arbitrary: g)
  case (Cons t ts)
  obtain r g' where c: "check w t g = (r, g')" by fastforce
  have IH: "spaced w (fst (view g')) (passed_times ts (fst (gate_run check w ts g')))"
    by (rule Cons.IH)
  show ?case
    by (rule check_cases [of g t w]) (use IH c in \<open>auto simp: spaced_Cons split: prod.split\<close>)
qed simp

lemma run_conserves:
  "reported (fst (gate_run check w ts g)) + snd (view (snd (gate_run check w ts g)))
   = snd (view g) + suppressed_in (fst (gate_run check w ts g))"
proof (induction ts arbitrary: g)
  case (Cons t ts)
  obtain r g' where c: "check w t g = (r, g')" by fastforce
  obtain rs g'' where run: "gate_run check w ts g' = (rs, g'')" by fastforce
  have IH: "reported rs + snd (view g'') = snd (view g') + suppressed_in rs"
    using Cons.IH [of g'] run by simp
  show ?case
    by (rule check_cases [of g t w]) (use IH c run in \<open>auto simp: algebra_simps\<close>)
qed simp

lemma fresh_passes: "view g = (None, 0) \<Longrightarrow> fst (check w t g) = Some 0"
  using check_pass [of g None 0] by simp

end

end
