(* ===== verification/Notify.thy ===== *)
theory Notify
  imports Notify_Text Gate
begin

text \<open>
  Delivery of alerts, the rest of \<open>src/src/notify.rs\<close>: the per-key throttle, the bounded
  queue between producers and the worker, the worker's handling of one event and the retry
  loop of one delivery. The HTTP client is the parameter \<open>post\<close> (a world, the text, and the
  answer); clock readings are arguments, in the order the code takes them; what the code
  sleeps is part of the result. \<open>process\<close> and \<open>deliver\<close> are one event taken through without a
  break; \<open>alert_step\<close> is the same worker cut at its awaits, with producers in between, and
  \<open>process_runs\<close> connects the two.
\<close>

section \<open>Throttle\<close>

record throttle_entry =
  te_last_sent :: instant
  te_suppressed :: u64

type_synonym throttle = "rstr \<rightharpoonup> throttle_entry"

datatype admit = Send u64 | Suppress

definition throttle_admit :: "rstr \<Rightarrow> duration \<Rightarrow> instant \<Rightarrow> throttle \<Rightarrow> admit \<times> throttle" where
  "throttle_admit key window now th =
     (case th key of
        Some e \<Rightarrow>
          if now - te_last_sent e < window
          then (Suppress, th(key \<mapsto> e\<lparr>te_suppressed := te_suppressed e + 1\<rparr>))
          else (Send (te_suppressed e), th(key \<mapsto> \<lparr>te_last_sent = now, te_suppressed = 0\<rparr>))
      | None \<Rightarrow> (Send 0, th(key \<mapsto> \<lparr>te_last_sent = now, te_suppressed = 0\<rparr>)))"

definition throttle_prune :: "instant \<Rightarrow> duration \<Rightarrow> throttle \<Rightarrow> throttle" where
  "throttle_prune now max_idle th =
     (\<lambda>k. case th k of
             Some e \<Rightarrow> if now - te_last_sent e < max_idle then Some e else None
           | None \<Rightarrow> None)"

section \<open>Counters and queue\<close>

definition QUEUE_CAPACITY :: nat where "QUEUE_CAPACITY = 256"
definition MAX_ATTEMPTS :: nat where "MAX_ATTEMPTS = 3"
definition RETRY_BASE_DELAY :: duration where "RETRY_BASE_DELAY = from_secs 1"
definition MAX_RETRY_AFTER :: duration where "MAX_RETRY_AFTER = from_secs 30"
definition MIN_SEND_SPACING :: duration where "MIN_SEND_SPACING = from_millis 1000"

record notifier_counters =
  nc_enabled :: bool
  nc_sent :: u64
  nc_failed :: u64
  nc_dropped :: u64
  nc_suppressed :: u64

definition counters_new :: "bool \<Rightarrow> notifier_counters" where
  "counters_new enabled =
     \<lparr>nc_enabled = enabled, nc_sent = 0, nc_failed = 0, nc_dropped = 0, nc_suppressed = 0\<rparr>"

text \<open>
  One record holds both ends: the sending handle (\<open>Notifier\<close>: whether there is a channel),
  the channel, the shared counters, and what the worker keeps (\<open>Worker\<close>).
\<close>

record alerting =
  al_enabled :: bool
  al_queue :: "event list"
  al_closed :: bool
  al_counters :: notifier_counters
  al_throttle :: throttle
  al_last_send :: "instant option"

definition notifier_disabled :: alerting where
  "notifier_disabled =
     \<lparr>al_enabled = False, al_queue = [], al_closed = False, al_counters = counters_new False,
      al_throttle = Map.empty, al_last_send = None\<rparr>"

definition notifier_start :: alerting where
  "notifier_start =
     \<lparr>al_enabled = True, al_queue = [], al_closed = False, al_counters = counters_new True,
      al_throttle = Map.empty, al_last_send = None\<rparr>"

definition bump_dropped :: "alerting \<Rightarrow> alerting" where
  "bump_dropped al = al\<lparr>al_counters := (al_counters al)\<lparr>nc_dropped := nc_dropped (al_counters al) + 1\<rparr>\<rparr>"

definition bump_suppressed :: "alerting \<Rightarrow> alerting" where
  "bump_suppressed al =
     al\<lparr>al_counters := (al_counters al)\<lparr>nc_suppressed := nc_suppressed (al_counters al) + 1\<rparr>\<rparr>"

definition bump_outcome :: "bool \<Rightarrow> alerting \<Rightarrow> alerting" where
  "bump_outcome ok al =
     al\<lparr>al_counters :=
          (if ok then (al_counters al)\<lparr>nc_sent := nc_sent (al_counters al) + 1\<rparr>
           else (al_counters al)\<lparr>nc_failed := nc_failed (al_counters al) + 1\<rparr>)\<rparr>"

text \<open>\<open>try_send\<close> on the bounded channel: a closed channel is seen before a full one.\<close>

definition notify :: "event \<Rightarrow> alerting \<Rightarrow> alerting" where
  "notify ev al =
     (if \<not> al_enabled al then al
      else if al_closed al then bump_dropped al
      else if length (al_queue al) \<ge> QUEUE_CAPACITY then bump_dropped al
      else al\<lparr>al_queue := al_queue al @ [ev]\<rparr>)"

section \<open>Delivery\<close>

record http_response =
  hr_status :: nat
  hr_retry_after :: "rstr option"
  hr_body :: rstr

datatype io_op = Post | Sleep duration

definition backoff :: "nat \<Rightarrow> duration" where
  "backoff attempt = RETRY_BASE_DELAY * min (2 ^ (attempt - 1)) (2 ^ 32 - 1)"

text \<open>\<open>hr_retry_after\<close> is the header when it is present and readable as text.\<close>

definition parse_retry_after :: "http_response \<Rightarrow> duration option" where
  "parse_retry_after resp =
     (case hr_retry_after resp of
        None \<Rightarrow> None
      | Some v \<Rightarrow> (case parse_u64 (trim v) of
                     Inl _ \<Rightarrow> None
                   | Inr s \<Rightarrow> Some (min (from_secs s) MAX_RETRY_AFTER)))"

definition http_error :: "http_response \<Rightarrow> rstr" where
  "http_error resp = lit ''HTTP '' @ show_nat (hr_status resp) @ lit '': '' @ plain_text (hr_body resp)"

datatype attempt_result = Delivered | GiveUp rstr | RetryAfter rstr duration

text \<open>What one answer of the client means; \<open>Inl\<close> is a transport error without the URL.\<close>

definition classify_attempt :: "nat \<Rightarrow> rstr + http_response \<Rightarrow> attempt_result" where
  "classify_attempt attempt sent =
     (case sent of
        Inr resp \<Rightarrow>
          if 200 \<le> hr_status resp \<and> hr_status resp < 300 then Delivered
          else if hr_status resp = 429 \<or> (500 \<le> hr_status resp \<and> hr_status resp < 600)
          then RetryAfter (http_error resp)
                 (case parse_retry_after resp of Some d \<Rightarrow> d | None \<Rightarrow> backoff attempt)
          else GiveUp (http_error resp)
      | Inl e \<Rightarrow> RetryAfter (lit ''transport error: '' @ e) (backoff attempt))"

fun deliver_loop :: "('w \<Rightarrow> rstr \<Rightarrow> (rstr + http_response) \<times> 'w) \<Rightarrow> rstr \<Rightarrow> nat \<Rightarrow> nat \<Rightarrow> rstr
    \<Rightarrow> 'w \<Rightarrow> (rstr + unit) \<times> io_op list \<times> 'w" where
  "deliver_loop post text 0 attempt last_err w =
     (Inl (last_err @ lit '' (after '' @ show_nat MAX_ATTEMPTS @ lit '' attempts)''), [], w)"
| "deliver_loop post text (Suc left) attempt last_err w =
     (let (sent, w') = post w text in
      case classify_attempt attempt sent of
        Delivered \<Rightarrow> (Inr (), [Post], w')
      | GiveUp e \<Rightarrow> (Inl e, [Post], w')
      | RetryAfter e delay \<Rightarrow>
          (let (r, ops, w'') = deliver_loop post text left (attempt + 1) e w'
           in (r, Post # (if attempt < MAX_ATTEMPTS then [Sleep delay] else []) @ ops, w'')))"

definition deliver :: "('w \<Rightarrow> rstr \<Rightarrow> (rstr + http_response) \<times> 'w) \<Rightarrow> rstr \<Rightarrow> 'w
    \<Rightarrow> (rstr + unit) \<times> io_op list \<times> 'w" where
  "deliver post text w = deliver_loop post text MAX_ATTEMPTS 1 (lit ''no attempt made'') w"

section \<open>Worker\<close>

text \<open>The clock readings of one \<open>process\<close> call: on entry, when pacing, after the sleep, and UTC.\<close>

record clock_readings =
  cl_now :: instant
  cl_pace :: instant
  cl_send :: instant
  cl_utc :: u64

definition PRUNE_IDLE :: duration where "PRUNE_IDLE = from_secs 3600"

text \<open>The throttling head of \<open>process\<close>: the suppressed count to mention, or nothing to send.\<close>

definition throttle_step :: "event \<Rightarrow> instant \<Rightarrow> throttle \<Rightarrow> u64 option \<times> throttle" where
  "throttle_step ev now th =
     (case event_throttle ev of
        Some (key, window) \<Rightarrow>
          (case throttle_admit key window now th of
             (Send n, th') \<Rightarrow> (Some n, throttle_prune now PRUNE_IDLE th')
           | (Suppress, th') \<Rightarrow> (None, th'))
      | None \<Rightarrow> (Some 0, throttle_prune now PRUNE_IDLE th))"

definition pacing_wait :: "instant option \<Rightarrow> instant \<Rightarrow> duration" where
  "pacing_wait last_send now =
     (case last_send of None \<Rightarrow> 0 | Some l \<Rightarrow> MIN_SEND_SPACING - (now - l))"

definition process :: "('w \<Rightarrow> rstr \<Rightarrow> (rstr + http_response) \<times> 'w) \<Rightarrow> instance_info \<Rightarrow> clock_readings
    \<Rightarrow> event \<Rightarrow> alerting \<times> 'w \<Rightarrow> (alerting \<times> 'w) \<times> io_op list" where
  "process post inst clk ev st =
     (let (al, w) = st;
          (admitted, th) = throttle_step ev (cl_now clk) (al_throttle al);
          al1 = al\<lparr>al_throttle := th\<rparr>
      in case admitted of
           None \<Rightarrow> ((bump_suppressed al1, w), [])
         | Some suppressed \<Rightarrow>
             (let wait = pacing_wait (al_last_send al1) (cl_pace clk);
                  text = render_event ev inst suppressed (cl_utc clk);
                  (r, ops, w') = deliver post text w
              in ((bump_outcome (is_ok r) (al1\<lparr>al_last_send := Some (cl_send clk)\<rparr>), w'),
                  (if wait = 0 then [] else [Sleep wait]) @ ops)))"

text \<open>
  The worker as steps, cut at the awaits of \<open>run\<close>, \<open>process\<close> and \<open>deliver\<close>. Between two of them
  the event it has taken is in delivery: it waits for the spacing of messages, its request
  is under way, or it waits before the next attempt.
\<close>

datatype delivery = Pacing event u64 | Posting rstr nat | Waiting rstr nat duration

definition process_begin :: "instant \<Rightarrow> event \<Rightarrow> alerting \<Rightarrow> delivery option \<times> alerting" where
  "process_begin now ev al =
     (let (admitted, th) = throttle_step ev now (al_throttle al);
          al1 = al\<lparr>al_throttle := th\<rparr>
      in case admitted of
           None \<Rightarrow> (None, bump_suppressed al1)
         | Some suppressed \<Rightarrow> (Some (Pacing ev suppressed), al1))"

definition attempt_end :: "rstr \<Rightarrow> nat \<Rightarrow> rstr + http_response \<Rightarrow> alerting \<Rightarrow> delivery option \<times> alerting" where
  "attempt_end text attempt sent al =
     (case classify_attempt attempt sent of
        Delivered \<Rightarrow> (None, bump_outcome True al)
      | GiveUp e \<Rightarrow> (None, bump_outcome False al)
      | RetryAfter e delay \<Rightarrow>
          if attempt < MAX_ATTEMPTS then (Some (Waiting text attempt delay), al) else (None, bump_outcome False al))"

text \<open>
  The token is looked at only between two events. The shutdown closes the channel and then
  drains what is queued; when every sender is gone and the queue is empty, the worker returns.
  Producers may act at any moment.
\<close>

datatype phase = Running | Flushing | Stopped

type_synonym worker = "phase \<times> delivery option"

inductive alert_step :: "('w \<Rightarrow> rstr \<Rightarrow> (rstr + http_response) \<times> 'w) \<Rightarrow> instance_info
    \<Rightarrow> worker \<times> nat \<times> alerting \<times> 'w \<Rightarrow> worker \<times> nat \<times> alerting \<times> 'w \<Rightarrow> bool"
  for post :: "'w \<Rightarrow> rstr \<Rightarrow> (rstr + http_response) \<times> 'w" and inst :: instance_info where
  produce: "alert_step post inst (wk, n, al, w) (wk, Suc n, notify ev al, w)"
| recv: "al_queue al = ev # evs \<Longrightarrow> ph \<noteq> Stopped \<Longrightarrow> process_begin now ev (al\<lparr>al_queue := evs\<rparr>) = (d, al')
    \<Longrightarrow> alert_step post inst ((ph, None), n, al, w) ((ph, d), n, al', w)"
| paced: "alert_step post inst ((ph, Some (Pacing ev suppressed)), n, al, w)
      ((ph, Some (Posting (render_event ev inst suppressed utc) 1)), n, al\<lparr>al_last_send := Some now\<rparr>, w)"
| answered: "post w text = (sent, w') \<Longrightarrow> attempt_end text attempt sent al = (d, al')
    \<Longrightarrow> alert_step post inst ((ph, Some (Posting text attempt)), n, al, w) ((ph, d), n, al', w')"
| retry: "alert_step post inst ((ph, Some (Waiting text attempt delay)), n, al, w)
      ((ph, Some (Posting text (attempt + 1))), n, al, w)"
| cancelled: "alert_step post inst ((Running, None), n, al, w) ((Flushing, None), n, al\<lparr>al_closed := True\<rparr>, w)"
| flushed: "al_queue al = [] \<Longrightarrow> alert_step post inst ((Flushing, None), n, al, w) ((Stopped, None), n, al, w)"
| senders_gone: "al_queue al = []
    \<Longrightarrow> alert_step post inst ((Running, None), n, al, w) ((Stopped, None), n, al\<lparr>al_closed := True\<rparr>, w)"

inductive_cases alert_stepE: "alert_step post inst s s'"

section \<open>The throttle as a gate\<close>

definition throttle_check :: "rstr \<Rightarrow> duration \<Rightarrow> instant \<Rightarrow> throttle \<Rightarrow> u64 option \<times> throttle" where
  "throttle_check key w t th =
     (case throttle_admit key w t th of (Send n, th') \<Rightarrow> (Some n, th') | (Suppress, th') \<Rightarrow> (None, th'))"

definition throttle_view :: "rstr \<Rightarrow> throttle \<Rightarrow> instant option \<times> u64" where
  "throttle_view key th =
     (case th key of None \<Rightarrow> (None, 0) | Some e \<Rightarrow> (Some (te_last_sent e), te_suppressed e))"

interpretation throttle_gate: gate "throttle_check key" "throttle_view key" for key
proof
  fix g :: throttle and l n t w
  assume "throttle_view key g = (Some l, n)" and "t - l < w"
  then show "fst (throttle_check key w t g) = None
      \<and> throttle_view key (snd (throttle_check key w t g)) = (Some l, n + 1)"
    by (auto simp: throttle_check_def throttle_view_def throttle_admit_def split: option.splits)
next
  fix g :: throttle and last_passed n t w
  assume "throttle_view key g = (last_passed, n)" and "\<forall>l. last_passed = Some l \<longrightarrow> w \<le> t - l"
  then show "fst (throttle_check key w t g) = Some n
      \<and> throttle_view key (snd (throttle_check key w t g)) = (Some t, 0)"
    by (auto simp: throttle_check_def throttle_view_def throttle_admit_def split: option.splits)
qed

text \<open>
  The throttle's contract for one key, over any sequence of times: two messages let
  through are at least the window apart (also from the last one before the sequence), and no
  suppressed event is forgotten - the counts mentioned in the messages plus the count still
  pending equal the count pending before plus the number of events suppressed.\<close>

lemma throttle_key_contract:
  "spaced w (fst (throttle_view key th))
     (passed_times ts (fst (gate_run (throttle_check key) w ts th)))
   \<and> reported (fst (gate_run (throttle_check key) w ts th))
       + snd (throttle_view key (snd (gate_run (throttle_check key) w ts th)))
     = snd (throttle_view key th) + suppressed_in (fst (gate_run (throttle_check key) w ts th))"
  using throttle_gate.run_spaced throttle_gate.run_conserves by blast

section \<open>The throttle inside the worker\<close>

text \<open>A key determines its window, so two events that share a key agree on it.\<close>

lemma event_window_by_key:
  "event_throttle ev = Some (k, w) \<Longrightarrow> event_throttle ev' = Some (k, w') \<Longrightarrow> w = w'"
  by (cases ev; cases ev') (auto simp: THROTTLE_DNS_def THROTTLE_RELOAD_FAILED_def THROTTLE_INTERNAL_def)

lemma event_window_le: "event_throttle ev = Some (k, w) \<Longrightarrow> w \<le> PRUNE_IDLE"
  by (cases ev) (auto simp: PRUNE_IDLE_def THROTTLE_DNS_def THROTTLE_RELOAD_FAILED_def THROTTLE_INTERNAL_def
      THROTTLE_BIND_def THROTTLE_LIMIT_def from_secs_def)

definition event_key :: "event \<Rightarrow> rstr option" where
  "event_key ev = map_option fst (event_throttle ev)"

fun throttle_run :: "(event \<times> instant) list \<Rightarrow> throttle \<Rightarrow> u64 option list \<times> throttle" where
  "throttle_run [] th = ([], th)"
| "throttle_run ((ev, t) # evs) th =
     (let (r, th') = throttle_step ev t th; (rs, th'') = throttle_run evs th' in (r # rs, th''))"

text \<open>The times at which events of a key were admitted, and the answers its events got.\<close>

fun key_passed :: "rstr \<Rightarrow> (event \<times> instant) list \<Rightarrow> u64 option list \<Rightarrow> instant list" where
  "key_passed k ((ev, t) # evs) (r # rs) =
     (if event_key ev = Some k \<and> r \<noteq> None then t # key_passed k evs rs else key_passed k evs rs)"
| "key_passed k _ _ = []"

fun key_answers :: "rstr \<Rightarrow> (event \<times> instant) list \<Rightarrow> u64 option list \<Rightarrow> u64 option list" where
  "key_answers k ((ev, t) # evs) (r # rs) =
     (if event_key ev = Some k then r # key_answers k evs rs else key_answers k evs rs)"
| "key_answers k _ _ = []"

lemma prune_idle_pos: "0 < PRUNE_IDLE"
  by (simp add: PRUNE_IDLE_def from_secs_def)

lemma throttle_step_other_key:
  assumes "throttle_step ev t th = (r, th')" and "event_key ev \<noteq> Some k"
  shows "throttle_view k th' = throttle_view k th
     \<or> (\<exists>l n. throttle_view k th = (Some l, n) \<and> PRUNE_IDLE \<le> t - l \<and> throttle_view k th' = (None, 0))"
proof -
  have "th' k = th k \<or> th' k = throttle_prune t PRUNE_IDLE th k"
    using assms
    by (auto simp: throttle_step_def throttle_admit_def event_key_def throttle_prune_def
        split: option.splits if_splits)
  then have "throttle_view k th' = throttle_view k th
      \<or> throttle_view k th' = throttle_view k (throttle_prune t PRUNE_IDLE th)"
    by (auto simp: throttle_view_def)
  then show ?thesis
    by (cases "th k") (auto simp: throttle_prune_def throttle_view_def split: if_splits)
qed

lemma throttle_step_same_key:
  assumes "throttle_step ev t th = (r, th')" and "event_throttle ev = Some (k, w)"
    and "throttle_view k th = (lp, n)"
  shows "if \<exists>l. lp = Some l \<and> t - l < w
         then r = None \<and> throttle_view k th' = (lp, n + 1)
         else r = Some n \<and> throttle_view k th' = (Some t, 0)"
  using assms prune_idle_pos
  by (auto simp: throttle_step_def throttle_admit_def throttle_view_def throttle_prune_def
      split: option.splits if_splits)

text \<open>A step of the worker seen from one key.\<close>

lemma throttle_step_view:
  assumes "throttle_step ev t th = (r, th')"
  obtains (suppress) l n w where "event_throttle ev = Some (k, w)" "throttle_view k th = (Some l, n)"
      "r = None" "throttle_view k th' = (Some l, n + 1)"
  | (pass) w l n where "event_throttle ev = Some (k, w)" "throttle_view k th = (l, n)"
      "\<forall>x. l = Some x \<longrightarrow> w \<le> t - x" "r = Some n" "throttle_view k th' = (Some t, 0)"
  | (other) "event_key ev \<noteq> Some k" "throttle_view k th' = throttle_view k th"
  | (pruned) l n where "event_key ev \<noteq> Some k" "throttle_view k th = (Some l, n)" "PRUNE_IDLE \<le> t - l"
      "throttle_view k th' = (None, 0)"
proof (cases "event_key ev = Some k")
  case True
  then obtain w where w: "event_throttle ev = Some (k, w)" by (auto simp: event_key_def)
  obtain lp n where v: "throttle_view k th = (lp, n)" by fastforce
  note step = throttle_step_same_key [OF assms w v]
  show thesis
  proof (cases "\<exists>l. lp = Some l \<and> t - l < w")
    case True
    then show thesis using step suppress w v by auto
  next
    case False
    then have "\<forall>x. lp = Some x \<longrightarrow> w \<le> t - x" by (auto simp: not_less)
    then show thesis using False step pass [OF w v] by auto
  qed
next
  case False
  with throttle_step_other_key [OF assms] show thesis using other pruned by blast
qed

text \<open>
  \<open>before\<close> is the last message of the key; the throttle either still has its time, or forgot
  the key at a moment from which every later event is at least an hour away.
\<close>

lemma throttle_run_spaced:
  assumes "event_throttle ev0 = Some (k, w)" and "sorted (map snd evs)"
    and "\<forall>l. fst (throttle_view k th) = Some l \<longrightarrow> before = Some l"
    and "\<forall>l \<in> set_option before. fst (throttle_view k th) = None \<longrightarrow> (\<forall>t \<in> set (map snd evs). w \<le> t - l)"
  shows "spaced w before (key_passed k evs (fst (throttle_run evs th)))"
  using assms(2-4)
proof (induction evs arbitrary: th before)
  case (Cons p evs)
  obtain ev t where p: "p = (ev, t)" by fastforce
  obtain r th' where step: "throttle_step ev t th = (r, th')" by fastforce
  obtain rs th'' where run: "throttle_run evs th' = (rs, th'')" by fastforce
  have srt: "sorted (map snd evs)" and later: "\<forall>u \<in> set (map snd evs). t \<le> u"
    using Cons.prems(1) p by auto
  note IH = Cons.IH [OF srt, where th = th', unfolded run fst_conv]
  from step show ?case
  proof (cases rule: throttle_step_view [where k = k])
    case (suppress l n w')
    with Cons.prems IH [of before] show ?thesis
      by (simp add: p step run key_passed.simps)
  next
    case (pass w' l n)
    have "w' = w" using pass(1) assms(1) by (rule event_window_by_key)
    moreover have "\<forall>x. before = Some x \<longrightarrow> w \<le> t - x"
      using pass \<open>w' = w\<close> Cons.prems(2,3) p by (cases l) auto
    moreover have "event_key ev = Some k" using pass(1) by (simp add: event_key_def)
    ultimately show ?thesis
      using pass IH [of "Some t"] by (simp add: p step run spaced_Cons)
  next
    case other
    with Cons.prems IH [of before] show ?thesis
      by (simp add: p step run)
  next
    case (pruned l n)
    have "w \<le> u - l" if "u \<in> set (map snd evs)" for u
      using event_window_le [OF assms(1)] pruned(3) later that by (meson diff_le_mono order_trans)
    with pruned Cons.prems IH [of before] show ?thesis
      by (simp add: p step run)
  qed
qed simp

text \<open>
  C23. Inside the worker, with the hourly pruning and with events of other keys interleaved in
  any way, two events with the same throttle key are never admitted for delivery closer
  together than that key's window. The times are those at which the worker takes the events;
  pacing and retries delay each message after its admission.\<close>
theorem same_key_admissions_spaced:
  assumes "event_throttle ev0 = Some (k, w)" and "sorted (map snd evs)"
  shows "spaced w None (key_passed k evs (fst (throttle_run evs Map.empty)))"
  using throttle_run_spaced [OF assms, of Map.empty None] by (simp add: throttle_view_def)

definition dns_event :: event where
  "dns_event = DnsChanged (lit ''fwd'') (lit ''db'') [V4 1] [V4 2]"

definition dns_events :: "(event \<times> instant) list" where
  "dns_events =
     [(dns_event, 0), (dns_event, from_secs 10), (Started [], from_secs 3700), (dns_event, from_secs 3701)]"

theorem same_key_admissions_spaced_witness:
  "spaced (from_secs 60) None (key_passed (lit ''dns:fwd'') dns_events (fst (throttle_run dns_events Map.empty)))"
  by (rule same_key_admissions_spaced [where ?ev0.0 = dns_event])
    (simp_all add: dns_event_def THROTTLE_DNS_def dns_events_def from_secs_def)

text \<open>
  The exception to \<open>throttle_key_contract\<close>: a count pending for longer than an hour is pruned
  when another event is processed, so in this run one event is suppressed and no message ever
  mentions it.
\<close>

lemma suppressed_count_lost:
  "fst (throttle_run dns_events Map.empty) = [Some 0, None, Some 0, Some 0]"
  by (simp add: dns_events_def dns_event_def throttle_step_def throttle_admit_def throttle_prune_def
      PRUNE_IDLE_def THROTTLE_DNS_def from_secs_def)

lemma throttle_run_conserves:
  assumes "\<forall>l. fst (throttle_view k th) = Some l \<longrightarrow> t0 \<le> l"
    and "list_all (\<lambda>(ev, t). t0 \<le> t \<and> t < t0 + PRUNE_IDLE) evs"
  shows "reported (key_answers k evs (fst (throttle_run evs th))) + snd (throttle_view k (snd (throttle_run evs th)))
    = snd (throttle_view k th) + suppressed_in (key_answers k evs (fst (throttle_run evs th)))"
  using assms
proof (induction evs arbitrary: th)
  case (Cons p evs)
  obtain ev t where p: "p = (ev, t)" by fastforce
  obtain r th' where step: "throttle_step ev t th = (r, th')" by fastforce
  obtain rs th'' where run: "throttle_run evs th' = (rs, th'')" by fastforce
  have t: "t0 \<le> t" "t < t0 + PRUNE_IDLE" and rest: "list_all (\<lambda>(ev, t). t0 \<le> t \<and> t < t0 + PRUNE_IDLE) evs"
    using Cons.prems(2) p by auto
  note IH = Cons.IH [OF _ rest, where th = th', unfolded run fst_conv snd_conv]
  from step show ?case
  proof (cases rule: throttle_step_view [where k = k])
    case (suppress l n w')
    moreover have "event_key ev = Some k" using suppress(1) by (simp add: event_key_def)
    ultimately show ?thesis using IH Cons.prems(1) by (simp add: p step run algebra_simps)
  next
    case (pass w' l n)
    moreover have "event_key ev = Some k" using pass(1) by (simp add: event_key_def)
    ultimately show ?thesis using IH t by (simp add: p step run algebra_simps)
  next
    case other
    then show ?thesis using IH Cons.prems(1) by (simp add: p step run)
  next
    case (pruned l n)
    then have "t0 \<le> l" using Cons.prems(1) by simp
    then have False using pruned(3) t by simp
    then show ?thesis ..
  qed
qed simp

text \<open>
  C29. For an hour after a key's last admission nothing of its count is lost. Let the worker
  have handled any events, let the key then have no entry or one admitted at \<open>t0\<close> or later, and
  let more events of any keys follow before \<open>t0\<close> plus one hour: the counts mentioned in the
  messages of the key and the count still pending are together the count pending before and the
  events of the key suppressed in between. Pruning that key's entry is possible only later.\<close>
theorem suppressed_counts_kept_for_an_hour:
  assumes "throttle_run before Map.empty = (rs0, th0)" and "\<forall>e. th0 k = Some e \<longrightarrow> t0 \<le> te_last_sent e"
    and "list_all (\<lambda>(ev, t). t0 \<le> t \<and> t < t0 + from_secs 3600) evs" and "throttle_run evs th0 = (rs, th)"
  shows "reported (key_answers k evs rs) + snd (throttle_view k th)
    = snd (throttle_view k th0) + suppressed_in (key_answers k evs rs)"
proof -
  have "\<forall>l. fst (throttle_view k th0) = Some l \<longrightarrow> t0 \<le> l"
    using assms(2) by (auto simp: throttle_view_def split: option.splits)
  from throttle_run_conserves [OF this, of evs] assms(3,4) show ?thesis by (simp add: PRUNE_IDLE_def)
qed

theorem suppressed_counts_kept_for_an_hour_witness:
  "\<exists>rs th. throttle_run [(dns_event, from_secs 10), (dns_event, from_secs 70)] (snd (throttle_run [(dns_event, 0)] Map.empty)) = (rs, th)
     \<and> reported (key_answers (lit ''dns:fwd'') [(dns_event, from_secs 10), (dns_event, from_secs 70)] rs)
         + snd (throttle_view (lit ''dns:fwd'') th)
       = suppressed_in (key_answers (lit ''dns:fwd'') [(dns_event, from_secs 10), (dns_event, from_secs 70)] rs)"
proof -
  let ?evs = "[(dns_event, from_secs 10), (dns_event, from_secs 70)]" and ?k = "lit ''dns:fwd''"
  obtain rs0 th0 where b: "throttle_run [(dns_event, 0)] Map.empty = (rs0, th0)" by fastforce
  obtain rs th where run: "throttle_run ?evs th0 = (rs, th)" by fastforce
  have th0: "th0 ?k = Some \<lparr>te_last_sent = 0, te_suppressed = 0\<rparr>"
    using b by (auto simp: dns_event_def throttle_step_def throttle_admit_def throttle_prune_def PRUNE_IDLE_def
        from_secs_def split: prod.splits)
  have "list_all (\<lambda>(ev, t). 0 \<le> t \<and> t < 0 + from_secs 3600) ?evs" by (simp add: from_secs_def)
  from suppressed_counts_kept_for_an_hour [OF b _ this run, of ?k] th0 b run show ?thesis
    by (simp add: throttle_view_def)
qed

section \<open>Delivery\<close>

fun sleep_of :: "io_op \<Rightarrow> duration" where
  "sleep_of Post = 0"
| "sleep_of (Sleep d) = d"

lemma retry_delay_le:
  assumes "classify_attempt attempt sent = RetryAfter e d" and "attempt \<le> 3"
  shows "d \<le> MAX_RETRY_AFTER"
proof -
  have "(2::nat) ^ (attempt - 1) \<le> 2 ^ 2" using assms(2) by (intro power_increasing) auto
  then have "backoff attempt \<le> MAX_RETRY_AFTER"
    by (simp add: backoff_def RETRY_BASE_DELAY_def MAX_RETRY_AFTER_def from_secs_def min_def)
  moreover have "parse_retry_after resp = Some x \<Longrightarrow> x \<le> MAX_RETRY_AFTER" for resp x
    by (auto simp: parse_retry_after_def split: option.splits sum.splits)
  ultimately show ?thesis
    using assms(1) by (auto simp: classify_attempt_def split: sum.splits if_splits option.splits)
qed

lemma deliver_loop_bounds:
  assumes "deliver_loop post text n attempt e w = (r, ops, w')" and "attempt + n = 4"
  shows "count_list ops Post \<le> n \<and> (n > 0 \<longrightarrow> ops \<noteq> [] \<and> last ops = Post)
     \<and> sum_list (map sleep_of ops) \<le> (n - 1) * MAX_RETRY_AFTER"
  using assms
proof (induction n arbitrary: attempt e w r ops w')
  case (Suc n)
  obtain sent w1 where post: "post w text = (sent, w1)" by fastforce
  show ?case
  proof (cases "classify_attempt attempt sent")
    case (RetryAfter er d)
    obtain r2 ops2 w2 where rec: "deliver_loop post text n (Suc attempt) er w1 = (r2, ops2, w2)"
      by (metis prod.exhaust_sel)
    have IH: "count_list ops2 Post \<le> n \<and> (n > 0 \<longrightarrow> ops2 \<noteq> [] \<and> last ops2 = Post)
        \<and> sum_list (map sleep_of ops2) \<le> (n - 1) * MAX_RETRY_AFTER"
      using Suc.IH [OF rec] Suc.prems(2) by simp
    have d: "d \<le> MAX_RETRY_AFTER"
      by (rule retry_delay_le [OF RetryAfter]) (use Suc.prems(2) in simp)
    have ops: "ops = Post # (if attempt < 3 then [Sleep d] else []) @ ops2"
      using Suc.prems(1) by (simp add: post RetryAfter rec MAX_ATTEMPTS_def)
    show ?thesis
    proof (cases n)
      case 0
      then have "\<not> attempt < 3" using Suc.prems(2) by simp
      with 0 IH ops rec show ?thesis by auto
    next
      case (Suc k)
      with IH ops d show ?thesis by auto
    qed
  qed (use Suc.prems(1) post in auto)
qed auto

text \<open>
  C30. One delivery is bounded, whatever the server answers: it makes at least one and at most
  three requests, never sleeps after the last one, and sleeps at most a minute in all.\<close>
theorem deliver_bounded:
  "case deliver post text w of (r, ops, w') \<Rightarrow>
     1 \<le> count_list ops Post \<and> count_list ops Post \<le> 3 \<and> last ops = Post
     \<and> sum_list (map sleep_of ops) \<le> from_secs 60"
proof -
  obtain r ops w' where d: "deliver post text w = (r, ops, w')" by (metis prod.exhaust_sel)
  then have b: "count_list ops Post \<le> 3" "ops \<noteq> []" "last ops = Post"
      "sum_list (map sleep_of ops) \<le> 2 * MAX_RETRY_AFTER"
    using deliver_loop_bounds [OF d [unfolded deliver_def MAX_ATTEMPTS_def]] by auto
  then have "Post \<in> set ops" using last_in_set [of ops] by simp
  then have "count_list ops Post \<noteq> 0" by (simp add: count_list_0_iff)
  then have "1 \<le> count_list ops Post" by simp
  with b d show ?thesis by (simp add: MAX_RETRY_AFTER_def from_secs_def)
qed

section \<open>Pacing\<close>

text \<open>
  Two deliveries start at least a second apart, given a monotonic clock and a sleep that
  lasts at least as long as asked: if an event is not suppressed, the new \<open>last_send\<close> is the
  reading taken after the wait, at least \<open>MIN_SEND_SPACING\<close> after the previous one.\<close>

lemma deliveries_paced:
  assumes "al_last_send al = Some l" and "l \<le> cl_pace clk"
    and "cl_pace clk + pacing_wait (Some l) (cl_pace clk) \<le> cl_send clk"
    and "process post inst clk ev (al, w) = ((al', w'), ops)"
    and "fst (throttle_step ev (cl_now clk) (al_throttle al)) \<noteq> None"
  shows "al_last_send al' = Some (cl_send clk) \<and> l + MIN_SEND_SPACING \<le> cl_send clk"
proof -
  have "al_last_send al' = Some (cl_send clk)"
    using assms(4,5)
    by (auto simp: process_def Let_def bump_outcome_def split: prod.splits option.splits)
  moreover have "l + MIN_SEND_SPACING \<le> cl_send clk"
    using assms(2,3) by (simp add: pacing_wait_def)
  ultimately show ?thesis ..
qed

definition sample_inst :: instance_info where
  "sample_inst = \<lparr>ii_name = lit ''gw'', ii_version = lit ''1'', ii_pid = 7\<rparr>"

definition ok_post :: "unit \<Rightarrow> rstr \<Rightarrow> (rstr + http_response) \<times> unit" where
  "ok_post w text = (Inr \<lparr>hr_status = 200, hr_retry_after = None, hr_body = []\<rparr>, w)"

definition sample_clock :: clock_readings where
  "sample_clock = \<lparr>cl_now = from_millis 100, cl_pace = from_millis 300, cl_send = from_millis 1001, cl_utc = 0\<rparr>"

lemma deliveries_paced_example:
  "\<exists>al' w' ops. process ok_post sample_inst sample_clock (Started [])
       (notifier_start\<lparr>al_last_send := Some 0\<rparr>, ()) = ((al', w'), ops)
     \<and> al_last_send al' = Some (from_millis 1001) \<and> 0 + MIN_SEND_SPACING \<le> from_millis 1001"
proof -
  obtain al' w' ops where p: "process ok_post sample_inst sample_clock (Started [])
      (notifier_start\<lparr>al_last_send := Some 0\<rparr>, ()) = ((al', w'), ops)"
    by (metis prod.exhaust_sel)
  have "al_last_send al' = Some (cl_send sample_clock) \<and> 0 + MIN_SEND_SPACING \<le> cl_send sample_clock"
    by (rule deliveries_paced [OF _ _ _ p])
      (simp_all add: sample_clock_def pacing_wait_def MIN_SEND_SPACING_def from_millis_def throttle_step_def)
  with p show ?thesis by (simp add: sample_clock_def)
qed

section \<open>The pipeline\<close>

text \<open>What happened to every event handed to an enabled notifier.\<close>

definition events_accounted :: "alerting \<Rightarrow> u64" where
  "events_accounted al =
     (let c = al_counters al
      in nc_sent c + nc_failed c + nc_dropped c + nc_suppressed c + of_nat (length (al_queue al)))"

text \<open>An event in delivery is neither queued nor counted yet.\<close>

definition in_delivery :: "worker \<Rightarrow> u64" where
  "in_delivery wk = (if snd wk = None then 0 else 1)"

definition alert_inv :: "worker \<times> nat \<times> alerting \<times> 'w \<Rightarrow> bool" where
  "alert_inv st =
     (case st of (wk, n, al, w) \<Rightarrow>
        al_enabled al \<and> length (al_queue al) \<le> QUEUE_CAPACITY \<and> events_accounted al + in_delivery wk = of_nat n
        \<and> (fst wk \<noteq> Running \<longrightarrow> al_closed al) \<and> (fst wk = Stopped \<longrightarrow> snd wk = None \<and> al_queue al = []))"

lemma alert_inv_start: "alert_inv ((Running, None), 0, notifier_start, w)"
  by (simp add: alert_inv_def notifier_start_def events_accounted_def counters_new_def in_delivery_def)

lemma bump_accounts [simp]:
  "events_accounted (bump_suppressed al) = events_accounted al + 1" "events_accounted (bump_outcome ok al) = events_accounted al + 1"
  by (simp_all add: events_accounted_def bump_outcome_def bump_suppressed_def Let_def)

lemma bump_frame [simp]:
  "al_queue (bump_suppressed al) = al_queue al" "al_queue (bump_outcome ok al) = al_queue al"
  "al_enabled (bump_suppressed al) = al_enabled al" "al_enabled (bump_outcome ok al) = al_enabled al"
  "al_closed (bump_suppressed al) = al_closed al" "al_closed (bump_outcome ok al) = al_closed al"
  by (simp_all add: bump_outcome_def bump_suppressed_def)

lemma events_frame [simp]:
  "events_accounted (al\<lparr>al_throttle := th\<rparr>) = events_accounted al" "events_accounted (al\<lparr>al_last_send := l\<rparr>) = events_accounted al"
  "events_accounted (al\<lparr>al_closed := c\<rparr>) = events_accounted al"
  by (simp_all add: events_accounted_def)

lemma process_begin_accounts:
  assumes "process_begin now ev al = (d, al')"
  shows "events_accounted al' + in_delivery (ph, d) = events_accounted al + 1" "al_queue al' = al_queue al"
    "al_enabled al' = al_enabled al" "al_closed al' = al_closed al"
  using assms by (auto simp: process_begin_def Let_def in_delivery_def split: prod.splits option.splits)

lemma attempt_end_accounts:
  assumes "attempt_end text attempt sent al = (d, al')"
  shows "events_accounted al' + in_delivery (ph, d) = events_accounted al + 1" "al_queue al' = al_queue al"
    "al_enabled al' = al_enabled al" "al_closed al' = al_closed al"
  using assms by (auto simp: attempt_end_def in_delivery_def split: attempt_result.splits if_splits)

lemma notify_accounts:
  assumes "al_enabled al"
  shows "events_accounted (notify ev al) = events_accounted al + 1"
  using assms by (simp add: notify_def events_accounted_def bump_dropped_def Let_def)

lemma notify_frame:
  "al_enabled (notify ev al) = al_enabled al" "al_closed (notify ev al) = al_closed al"
  "length (al_queue al) \<le> QUEUE_CAPACITY \<Longrightarrow> length (al_queue (notify ev al)) \<le> QUEUE_CAPACITY"
  "al_closed al \<Longrightarrow> al_queue (notify ev al) = al_queue al"
  by (simp_all add: notify_def bump_dropped_def)

lemma taking_accounts:
  "al_queue al = ev # evs \<Longrightarrow> events_accounted (al\<lparr>al_queue := evs\<rparr>) + 1 = events_accounted al"
  by (simp add: events_accounted_def Let_def)

lemma alert_inv_step: "alert_step post inst s s' \<Longrightarrow> alert_inv s \<Longrightarrow> alert_inv s'"
proof (induction rule: alert_step.induct)
  case (produce wk n al w ev)
  then show ?case
    by (auto simp: alert_inv_def notify_accounts notify_frame algebra_simps)
next
  case (recv al ev evs ph now d al' n w)
  then show ?case
    using process_begin_accounts(1) [OF recv(3), of ph] process_begin_accounts(2,3,4) [OF recv(3)] taking_accounts [OF recv(1)]
    by (auto simp: alert_inv_def in_delivery_def split: if_splits)
next
  case (answered w msg sent w' attempt al d al' ph n)
  then show ?case
    using attempt_end_accounts(1) [OF answered(2), of ph] attempt_end_accounts(2,3,4) [OF answered(2)]
    by (auto simp: alert_inv_def in_delivery_def split: if_splits)
qed (auto simp: alert_inv_def in_delivery_def)

lemma alert_inv_reachable:
  "(alert_step post inst)\<^sup>*\<^sup>* s s' \<Longrightarrow> alert_inv s \<Longrightarrow> alert_inv s'"
  by (induction rule: rtranclp_induct) (auto intro: alert_inv_step)

section \<open>One event from the queue to its end\<close>

text \<open>Undisturbed, the steps of one event come to what \<open>process\<close> computes.\<close>

lemma deliver_runs:
  assumes "deliver_loop post text left attempt e w = (r, ops, w')" and "left > 0" and "attempt + left = Suc MAX_ATTEMPTS"
  shows "(alert_step post inst)\<^sup>*\<^sup>* ((ph, Some (Posting text attempt)), n, al, w) ((ph, None), n, bump_outcome (is_ok r) al, w')"
  using assms
proof (induction left arbitrary: attempt e w r ops w')
  case (Suc left)
  obtain sent w1 where post: "post w text = (sent, w1)" by fastforce
  have step: "alert_step post inst ((ph, Some (Posting text attempt)), n, al, w) ((ph, d), n, al', w1)"
    if "attempt_end text attempt sent al = (d, al')" for d al'
    using post that by (rule alert_step.answered)
  show ?case
  proof (cases "classify_attempt attempt sent")
    case (RetryAfter er delay)
    obtain r2 ops2 w2 where rec: "deliver_loop post text left (Suc attempt) er w1 = (r2, ops2, w2)" by (metis prod.exhaust_sel)
    show ?thesis
    proof (cases "left > 0")
      case True
      then have "attempt_end text attempt sent al = (Some (Waiting text attempt delay), al)"
        using RetryAfter Suc.prems(3) by (simp add: attempt_end_def)
      from step [OF this] have "(alert_step post inst)\<^sup>*\<^sup>* ((ph, Some (Posting text attempt)), n, al, w)
          ((ph, Some (Posting text (attempt + 1))), n, al, w1)"
        by (meson alert_step.retry converse_rtranclp_into_rtranclp r_into_rtranclp)
      moreover have "(alert_step post inst)\<^sup>*\<^sup>* ((ph, Some (Posting text (Suc attempt))), n, al, w1)
          ((ph, None), n, bump_outcome (is_ok r2) al, w2)"
        using Suc.IH [OF rec True] Suc.prems(3) by simp
      moreover have "r = r2" "w' = w2" using Suc.prems(1) by (simp_all add: post RetryAfter rec)
      ultimately show ?thesis by (simp add: rtranclp_trans)
    next
      case False
      then have "attempt_end text attempt sent al = (None, bump_outcome False al)" "\<not> is_ok r" "w' = w1"
        using RetryAfter Suc.prems(1,3) rec by (auto simp: attempt_end_def post)
      then show ?thesis using step by (simp add: r_into_rtranclp)
    qed
  qed (use Suc.prems(1) post step in \<open>auto simp: attempt_end_def\<close>)
qed simp

lemma process_runs:
  assumes "process post inst clk ev (al\<lparr>al_queue := evs\<rparr>, w) = ((al', w'), ops)" and "al_queue al = ev # evs" and "ph \<noteq> Stopped"
  shows "(alert_step post inst)\<^sup>*\<^sup>* ((ph, None), n, al, w) ((ph, None), n, al', w')"
proof -
  obtain adm th where t: "throttle_step ev (cl_now clk) (al_throttle al) = (adm, th)" by fastforce
  let ?al1 = "al\<lparr>al_queue := evs, al_throttle := th\<rparr>"
  have first: "alert_step post inst ((ph, None), n, al, w) ((ph, d), n, al1, w)"
    if "process_begin (cl_now clk) ev (al\<lparr>al_queue := evs\<rparr>) = (d, al1)" for d al1
    using assms(2,3) that by (rule alert_step.recv)
  show ?thesis
  proof (cases adm)
    case None
    then have "al' = bump_suppressed ?al1" "w' = w" using assms(1) t by (auto simp: process_def)
    with first [of None] None t show ?thesis by (simp add: process_begin_def r_into_rtranclp)
  next
    case (Some s)
    let ?text = "render_event ev inst s (cl_utc clk)" and ?al2 = "?al1\<lparr>al_last_send := Some (cl_send clk)\<rparr>"
    obtain r ops' w2 where d: "deliver post ?text w = (r, ops', w2)" by (metis prod.exhaust)
    have res: "al' = bump_outcome (is_ok r) ?al2" "w' = w2" using assms(1) t Some d by (auto simp: process_def Let_def)
    have "(alert_step post inst)\<^sup>*\<^sup>* ((ph, None), n, al, w) ((ph, Some (Posting ?text 1)), n, ?al2, w)"
    proof (rule converse_rtranclp_into_rtranclp)
      show "alert_step post inst ((ph, None), n, al, w) ((ph, Some (Pacing ev s)), n, ?al1, w)"
        using first [of "Some (Pacing ev s)" ?al1] Some t by (simp add: process_begin_def)
      show "(alert_step post inst)\<^sup>*\<^sup>* ((ph, Some (Pacing ev s)), n, ?al1, w) ((ph, Some (Posting ?text 1)), n, ?al2, w)"
        by (rule r_into_rtranclp) (rule alert_step.paced)
    qed
    moreover have "(alert_step post inst)\<^sup>*\<^sup>* ((ph, Some (Posting ?text 1)), n, ?al2, w) ((ph, None), n, al', w')"
      unfolding res by (rule deliver_runs [OF d [unfolded deliver_def]]) (simp_all add: MAX_ATTEMPTS_def)
    ultimately show ?thesis by (rule rtranclp_trans)
  qed
qed

text \<open>
  C10. Whatever producers, the worker and the shutdown do, and in any order: the queue never
  holds more than 256 events, and every event handed to the notifier is counted exactly once as
  sent, failed, suppressed or dropped, or is still queued, or is the one event in delivery, which
  waits for its spacing, its answer or its next attempt (64-bit counters). A worker that has
  returned left nothing in the queue or in delivery; what is still there when the process stops
  waiting for the flush is abandoned uncounted.\<close>
theorem alerts_accounted:
  assumes "(alert_step post inst)\<^sup>*\<^sup>* ((Running, None), 0, notifier_start, w0) ((ph, d), n, al, w)"
  shows "length (al_queue al) \<le> 256 \<and> events_accounted al + (if d = None then 0 else 1) = of_nat n
     \<and> (ph = Stopped \<longrightarrow> d = None \<and> al_queue al = [])"
  using alert_inv_reachable [OF assms alert_inv_start] by (auto simp: alert_inv_def QUEUE_CAPACITY_def in_delivery_def)

text \<open>Two alerts, the first one taken for delivery.\<close>

theorem alerts_accounted_witness:
  "\<exists>al. (alert_step ok_post sample_inst)\<^sup>*\<^sup>* ((Running, None), 0, notifier_start, ()) ((Running, Some (Pacing (Started []) 0)), 2, al, ())
     \<and> events_accounted al + 1 = 2 \<and> al_queue al = [dns_event]"
proof -
  let ?al = "notify dns_event (notify (Started []) notifier_start)"
  let ?al' = "?al\<lparr>al_queue := [dns_event], al_throttle := throttle_prune 0 PRUNE_IDLE (al_throttle ?al)\<rparr>"
  let ?step = "alert_step ok_post sample_inst"
  have q: "al_queue ?al = [Started [], dns_event]" by (simp add: notify_def notifier_start_def QUEUE_CAPACITY_def)
  have "?step ((Running, None), 0, notifier_start, ()) ((Running, None), Suc 0, notify (Started []) notifier_start, ())"
    by (rule alert_step.produce)
  moreover have "?step ((Running, None), Suc 0, notify (Started []) notifier_start, ()) ((Running, None), Suc (Suc 0), ?al, ())"
    by (rule alert_step.produce)
  moreover have "?step ((Running, None), Suc (Suc 0), ?al, ()) ((Running, Some (Pacing (Started []) 0)), Suc (Suc 0), ?al', ())"
    by (rule alert_step.recv [OF q, where now = 0]) (simp_all add: process_begin_def throttle_step_def)
  ultimately have run: "?step\<^sup>*\<^sup>* ((Running, None), 0, notifier_start, ()) ((Running, Some (Pacing (Started []) 0)), Suc (Suc 0), ?al', ())"
    by (meson converse_rtranclp_into_rtranclp r_into_rtranclp)
  from alerts_accounted [OF run] have "events_accounted ?al' + 1 = 2" by simp
  with run show ?thesis by (intro exI [of _ ?al']) (simp add: numeral_2_eq_2)
qed

end
