(* ===== verification/Manager.thy ===== *)
theory Manager
  imports Config_Settings Stats Notify
begin

text \<open>
  The forwarder manager of \<open>src/src/manager.rs\<close>: the table of running forwarders, their
  entries in the statistics registry, and the operations that start, stop and synchronise
  them. A handle is the forwarder's task: the configuration it serves and a number that
  identifies it. The manager only reaches the registry through the interface
  \<open>labelled_store\<close> of \<open>Stats\<close>, and its lemmas rest on that interface.

  Waiting for a cancelled task is bounded: how the wait ended is an argument, and a task that
  did not end in time is kept in \<open>mg_lingering\<close>, where it may still hold its port.
\<close>

section \<open>State\<close>

record fwd_handle =
  fh_task :: nat
  fh_config :: forwarder_config

record manager =
  mg_forwarders :: "(rstr \<times> fwd_handle) list"
  mg_registry :: registry
  mg_knobs :: runtime_knobs
  mg_conn_limit :: "nat option"
  mg_udp_limit :: nat
  mg_alerts :: alerting
  mg_next_task :: nat
  mg_lingering :: "fwd_handle list"

definition STOP_LISTENER_GRACE :: duration where "STOP_LISTENER_GRACE = from_secs 5"
definition SHUTDOWN_DRAIN_GRACE :: duration where "SHUTDOWN_DRAIN_GRACE = from_secs 10"

definition conn_limit_of :: "settings \<Rightarrow> nat option" where
  "conn_limit_of s = (case st_max_connections s of Some n \<Rightarrow> if n > 0 then Some n else None | None \<Rightarrow> None)"

text \<open>\<open>builder\<close> is what building the DNS resolver answers.\<close>

definition manager_new :: "rstr + unit \<Rightarrow> settings \<Rightarrow> alerting \<Rightarrow> rstr + manager" where
  "manager_new builder s al =
     and_then builder (\<lambda>_. Inr
       \<lparr>mg_forwarders = [], mg_registry = registry_new, mg_knobs = knobs_from_settings s,
        mg_conn_limit = conn_limit_of s, mg_udp_limit = clamp_nat 1 MAX_UDP_SESSIONS (st_udp_max_sessions s),
        mg_alerts = al, mg_next_task = 0, mg_lingering = []\<rparr>)"

definition running_labels :: "manager \<Rightarrow> rstr list" where
  "running_labels m = map fst (mg_forwarders m)"

definition update_knobs :: "settings \<Rightarrow> manager \<Rightarrow> manager" where
  "update_knobs s m = m\<lparr>mg_knobs := knobs_update (mg_knobs m) s\<rparr>"

section \<open>Starting and stopping\<close>

text \<open>The second registration, for the monitor, finds the entry the first one made.\<close>

definition start_one :: "instant \<Rightarrow> forwarder_config \<Rightarrow> manager \<Rightarrow> manager" where
  "start_one now cfg m =
     (let label = fc_label cfg in
      if label \<in> set (running_labels m) then m
      else let (_, reg1) = register_with_protocol label (fc_protocol cfg) now (mg_registry m);
               (_, reg2) = register_with_protocol label (fc_protocol cfg) now reg1
           in m\<lparr>mg_registry := reg2,
                mg_forwarders := mg_forwarders m @ [(label, \<lparr>fh_task = mg_next_task m, fh_config = cfg\<rparr>)],
                mg_next_task := mg_next_task m + 1\<rparr>)"

definition start_all :: "instant \<Rightarrow> forwarder_config list \<Rightarrow> manager \<Rightarrow> manager" where
  "start_all now cfgs m = fold (start_one now) cfgs m"

datatype join_outcome = JoinOk | JoinFailed | JoinTimeout

definition stop_one :: "(rstr \<Rightarrow> join_outcome) \<Rightarrow> rstr \<Rightarrow> manager \<Rightarrow> manager" where
  "stop_one wait label m =
     (case map_of (mg_forwarders m) label of
        None \<Rightarrow> m
      | Some h \<Rightarrow>
          m\<lparr>mg_forwarders := filter (\<lambda>(l, _). l \<noteq> label) (mg_forwarders m),
            mg_lingering := (if wait label = JoinTimeout then mg_lingering m @ [h] else mg_lingering m),
            mg_registry := registry_remove label (mg_registry m)\<rparr>)"

text \<open>
  The calls of one \<open>sync\<close>, in order: the labels that are no longer wanted, then the
  configurations that were not running when it began.
\<close>

datatype sync_op = StopOp rstr | StartOp forwarder_config

definition sync_plan :: "forwarder_config list \<Rightarrow> manager \<Rightarrow> sync_op list" where
  "sync_plan cfgs m =
     (let current = running_labels m; desired = map fc_label cfgs
      in map StopOp (filter (\<lambda>l. l \<notin> set desired) current)
         @ map StartOp (filter (\<lambda>c. fc_label c \<notin> set current) cfgs))"

fun run_op :: "(rstr \<Rightarrow> join_outcome) \<Rightarrow> instant \<Rightarrow> sync_op \<Rightarrow> manager \<Rightarrow> manager" where
  "run_op wait now (StopOp label) m = stop_one wait label m"
| "run_op wait now (StartOp cfg) m = start_one now cfg m"

definition sync :: "(rstr \<Rightarrow> join_outcome) \<Rightarrow> instant \<Rightarrow> forwarder_config list \<Rightarrow> manager \<Rightarrow> manager" where
  "sync wait now cfgs m = fold (run_op wait now) (sync_plan cfgs m) m"

definition shutdown_all :: "(rstr \<Rightarrow> join_outcome) \<Rightarrow> manager \<Rightarrow> manager" where
  "shutdown_all wait m =
     fold (\<lambda>(label, h) m.
             m\<lparr>mg_lingering := (if wait label = JoinTimeout then mg_lingering m @ [h] else mg_lingering m),
               mg_registry := registry_remove label (mg_registry m)\<rparr>)
       (mg_forwarders m) (m\<lparr>mg_forwarders := []\<rparr>)"

text \<open>The supervisor of a forwarder's task: only a panic is reported.\<close>

datatype task_end = TaskDone | TaskPanicked rstr | TaskAborted

definition supervise :: "rstr \<Rightarrow> task_end \<Rightarrow> alerting \<Rightarrow> alerting" where
  "supervise label r al =
     (case r of
        TaskPanicked e \<Rightarrow>
          notify (Internal (lit ''forwarder'')
            (lit ''accept loop of '' @ label @ lit '' panicked: '' @ e
               @ lit ''. The port is no longer served until the process restarts'')) al
      | _ \<Rightarrow> al)"

section \<open>Labels identify configurations\<close>

definition hosts_plain :: "forwarder_config \<Rightarrow> bool" where
  "hosts_plain c \<longleftrightarrow> ch (CHR ''>'') \<notin> set (fc_local_host c) \<and> ch (CHR ''>'') \<notin> set (fc_remote_host c)"

lemma host_port_inject:
  fixes c :: nat
  assumes eq: "h @ c # s = h' @ c # s'" and "c \<notin> set s" "c \<notin> set s'"
  shows "h = h' \<and> s = s'"
proof -
  have "rsplit_once c (h @ c # s) = Some (h, s)" "rsplit_once c (h' @ c # s') = Some (h', s')"
    using assms(2,3) by (simp_all add: rsplit_once_append)
  with eq show ?thesis by (metis Pair_inject option.inject)
qed

lemma show_nat_other [simp]:
  "62 \<notin> set (show_nat n)" "58 \<notin> set (show_nat n)" "47 \<notin> set (show_nat n)"
  by (simp_all add: show_nat_notin is_ascii_digit_def)

lemma label_identifies:
  assumes "hosts_plain c" "hosts_plain d" and "fc_label c = fc_label d"
  shows "c = d"
proof -
  define port :: "forwarder_config \<Rightarrow> rstr" where "port = (\<lambda>c. show_nat (unat (fc_local_port c)) @ [45])"
  define left :: "forwarder_config \<Rightarrow> rstr" where "left = (\<lambda>c. fc_local_host c @ 58 # port c)"
  define tail :: "forwarder_config \<Rightarrow> rstr" where "tail = (\<lambda>c. show_nat (unat (fc_remote_port c)) @ (case fc_protocol c of Tcp \<Rightarrow> [] | Udp \<Rightarrow> lit ''/udp''))"
  have label: "fc_label c = left c @ 62 # (fc_remote_host c @ 58 # tail c)" for c
    by (cases "fc_protocol c") (simp_all add: fc_label_def Let_def left_def port_def tail_def)
  have gt: "62 \<notin> set (left c)" if "hosts_plain c" for c
    using that by (simp add: hosts_plain_def left_def port_def)
  have col: "58 \<notin> set (tail c)" "58 \<notin> set (port c)" for c
    by (simp_all add: tail_def port_def split: protocol.split)
  have parts: "left c = left d" "fc_remote_host c @ 58 # tail c = fc_remote_host d @ 58 # tail d"
    using append_cons_inject [OF assms(3) [unfolded label] gt gt] assms(1,2) by blast+
  have loc: "fc_local_host c = fc_local_host d" "fc_local_port c = fc_local_port d"
    using host_port_inject [OF parts(1) [unfolded left_def] col(2) col(2)] by (simp_all add: port_def word_unat_eq_iff)
  have rem: "fc_remote_host c = fc_remote_host d" "tail c = tail d"
    using host_port_inject [OF parts(2) col(1) col(1)] by blast+
  have "47 \<in> set (tail c) \<longleftrightarrow> fc_protocol c = Udp" for c
    by (cases "fc_protocol c") (simp_all add: tail_def)
  then have proto: "fc_protocol c = fc_protocol d" using rem(2) by (metis protocol.exhaust)
  then have "fc_remote_port c = fc_remote_port d" using rem(2) by (simp add: tail_def word_unat_eq_iff)
  with loc rem(1) proto show ?thesis by simp
qed

lemma plain_labels: "list_all hosts_plain cs \<Longrightarrow> inj_on fc_label (set cs)"
  by (auto simp: inj_on_def list_all_iff intro: label_identifies)

text \<open>
  Nothing checks the hosts of a YAML entry for \<open>>\<close>, and with it labels are ambiguous: these two
  entries claim different endpoints, pass the duplicate check and have the same label, so the
  second one is skipped when both are started.
\<close>

definition ambiguous :: "forwarder_config list" where
  "ambiguous =
     [\<lparr>fc_local_host = lit ''a'', fc_local_port = 1, fc_remote_host = lit ''b:2->c'', fc_remote_port = 3, fc_protocol = Tcp\<rparr>,
      \<lparr>fc_local_host = lit ''a:1->b'', fc_local_port = 2, fc_remote_host = lit ''c'', fc_remote_port = 3, fc_protocol = Tcp\<rparr>]"

lemma ambiguous_facts:
  "fc_label (ambiguous ! 0) = fc_label (ambiguous ! 1)" "distinct (map endpoint ambiguous)"
  by (simp_all add: ambiguous_def fc_label_def endpoint_def show_nat.simps)

section \<open>The table and the registry agree\<close>

definition manager_ok :: "manager \<Rightarrow> bool" where
  "manager_ok m \<longleftrightarrow>
     distinct (running_labels m)
     \<and> list_all (\<lambda>(l, h). l = fc_label (fh_config h) \<and> fh_task h < mg_next_task m) (mg_forwarders m)
     \<and> distinct (map (\<lambda>(l, h). fh_task h) (mg_forwarders m))
     \<and> set (registry_labels (mg_registry m)) = set (running_labels m)"

definition handle_of :: "rstr \<Rightarrow> manager \<Rightarrow> fwd_handle option" where
  "handle_of label m = map_of (mg_forwarders m) label"

text \<open>
  The configurations of the table, and with them those whose task was given up on: it may still
  hold its port.
\<close>

definition serving :: "manager \<Rightarrow> forwarder_config list" where
  "serving m = map (\<lambda>(l, h). fh_config h) (mg_forwarders m)"

definition holding :: "manager \<Rightarrow> forwarder_config list" where
  "holding m = serving m @ map fh_config (mg_lingering m)"

lemma handle_of_iff: "handle_of l m = None \<longleftrightarrow> l \<notin> set (running_labels m)"
  by (simp add: handle_of_def running_labels_def map_of_eq_None_iff)

lemma start_one_running: "fc_label c \<in> set (running_labels m) \<Longrightarrow> start_one now c m = m"
  by (simp add: start_one_def Let_def)

lemma start_one_fresh:
  assumes "fc_label c \<notin> set (running_labels m)"
  shows "start_one now c m =
    m\<lparr>mg_registry := snd (register_with_protocol (fc_label c) (fc_protocol c) now (mg_registry m)),
      mg_forwarders := mg_forwarders m @ [(fc_label c, \<lparr>fh_task = mg_next_task m, fh_config = c\<rparr>)],
      mg_next_task := mg_next_task m + 1\<rparr>"
proof -
  obtain e reg where r: "register_with_protocol (fc_label c) (fc_protocol c) now (mg_registry m) = (e, reg)" by fastforce
  then have "register_with_protocol (fc_label c) (fc_protocol c) now reg = (e, reg)"
    using stats_reg.register_twice [of "fc_label c" "fc_protocol c" now "fc_protocol c" now "mg_registry m"] by simp
  with assms r show ?thesis by (simp add: start_one_def Let_def)
qed

lemma start_one_fields:
  assumes "fc_label c \<notin> set (running_labels m)"
  shows "mg_forwarders (start_one now c m) = mg_forwarders m @ [(fc_label c, \<lparr>fh_task = mg_next_task m, fh_config = c\<rparr>)]"
    "mg_registry (start_one now c m) = snd (register_with_protocol (fc_label c) (fc_protocol c) now (mg_registry m))"
    "mg_next_task (start_one now c m) = mg_next_task m + 1"
    "running_labels (start_one now c m) = running_labels m @ [fc_label c]"
  by (simp_all add: start_one_fresh [OF assms] running_labels_def)

lemma running_start: "set (running_labels (start_one now c m)) = insert (fc_label c) (set (running_labels m))"
proof (cases "fc_label c \<in> set (running_labels m)")
  case False
  then show ?thesis by (simp add: start_one_fields)
qed (auto simp: start_one_running)

lemma stop_one_absent: "l \<notin> set (running_labels m) \<Longrightarrow> stop_one wait l m = m"
  using handle_of_iff [of l m] by (simp add: stop_one_def handle_of_def)

lemma stop_one_forwarders: "mg_forwarders (stop_one wait l m) = filter (\<lambda>(k, _). k \<noteq> l) (mg_forwarders m)"
proof (cases "l \<in> set (running_labels m)")
  case False
  then have "filter (\<lambda>(k, _). k \<noteq> l) (mg_forwarders m) = mg_forwarders m"
    by (force simp: running_labels_def filter_id_conv)
  with False show ?thesis by (simp add: stop_one_absent)
next
  case True
  then obtain h where "map_of (mg_forwarders m) l = Some h" using handle_of_iff [of l m] by (auto simp: handle_of_def)
  then show ?thesis by (simp add: stop_one_def)
qed

lemma running_stop: "running_labels (stop_one wait l m) = filter (\<lambda>k. k \<noteq> l) (running_labels m)"
  by (simp add: running_labels_def stop_one_forwarders filter_map comp_def case_prod_unfold)

lemma registry_stop:
  assumes "set (registry_labels (mg_registry m)) = set (running_labels m)"
  shows "set (registry_labels (mg_registry (stop_one wait l m))) = set (running_labels m) - {l}"
proof (cases "l \<in> set (running_labels m)")
  case True
  then obtain h where "map_of (mg_forwarders m) l = Some h" using handle_of_iff [of l m] by (auto simp: handle_of_def)
  then show ?thesis using assms by (simp add: stop_one_def stats_reg.set_labels_remove)
qed (use assms in \<open>simp add: stop_one_absent\<close>)

lemma next_task_stop: "mg_next_task (stop_one wait l m) = mg_next_task m"
  by (simp add: stop_one_def split: option.split)

lemma stop_one_ok: "manager_ok m \<Longrightarrow> manager_ok (stop_one wait l m)"
  using distinct_map_filter [of "\<lambda>(l, h). fh_task h" "mg_forwarders m" "\<lambda>(k, _). k \<noteq> l"] registry_stop [of m wait l]
  by (auto simp: manager_ok_def running_stop stop_one_forwarders next_task_stop list_all_iff)

lemma start_one_ok: "manager_ok m \<Longrightarrow> manager_ok (start_one now c m)"
proof (cases "fc_label c \<in> set (running_labels m)")
  case False
  assume ok: "manager_ok m"
  note f = start_one_fields [OF False, of now]
  have "mg_next_task m \<notin> set (map (\<lambda>(l, h). fh_task h) (mg_forwarders m))"
    using ok by (auto simp: manager_ok_def list_all_iff)
  moreover have "list_all (\<lambda>(l, h). l = fc_label (fh_config h) \<and> fh_task h < mg_next_task m + 1) (mg_forwarders m)"
    using ok by (auto simp: manager_ok_def list_all_iff)
  ultimately show ?thesis
    using ok False unfolding manager_ok_def f by (simp add: stats_reg.set_labels_register)
qed (simp add: start_one_running)

lemma serving_labels: "manager_ok m \<Longrightarrow> map fc_label (serving m) = running_labels m"
  by (auto simp: manager_ok_def list_all_iff serving_def running_labels_def)

lemma run_op_ok: "manager_ok m \<Longrightarrow> manager_ok (run_op wait now p m)"
  by (cases p) (simp_all add: stop_one_ok start_one_ok)

lemma run_ops_ok: "manager_ok m \<Longrightarrow> manager_ok (fold (run_op wait now) ops m)"
  by (induction ops arbitrary: m) (simp_all add: run_op_ok)

section \<open>Synchronising\<close>

lemma stop_run: "set (running_labels (fold (run_op wait now) (map StopOp ls) m)) = set (running_labels m) - set ls"
  by (induction ls arbitrary: m) (auto simp: running_stop)

lemma start_run:
  "set (running_labels (fold (run_op wait now) (map StartOp cs) m)) = set (running_labels m) \<union> fc_label ` set cs"
  by (induction cs arbitrary: m) (auto simp: running_start)

lemma running_sync: "set (running_labels (sync wait now cfgs m)) = fc_label ` set cfgs"
  by (auto simp: sync_def sync_plan_def Let_def stop_run start_run)

text \<open>A call that does not name a label leaves its task and its statistics alone.\<close>

definition op_label :: "sync_op \<Rightarrow> rstr" where
  "op_label p = (case p of StopOp l \<Rightarrow> l | StartOp c \<Rightarrow> fc_label c)"

lemma map_of_filter_other: "l \<noteq> k \<Longrightarrow> map_of (filter (\<lambda>(x, _). x \<noteq> k) xs) l = map_of xs l"
  by (induction xs) auto

lemma run_op_other:
  assumes "op_label p \<noteq> l"
  shows "handle_of l (run_op wait now p m) = handle_of l m
    \<and> registry_find l (mg_registry (run_op wait now p m)) = registry_find l (mg_registry m)"
proof (cases p)
  case (StopOp k)
  with assms show ?thesis
    by (auto simp: op_label_def handle_of_def stop_one_def map_of_filter_other stats_reg.lookup_remove_other
        split: option.split)
next
  case (StartOp c)
  then have ne: "fc_label c \<noteq> l" using assms by (simp add: op_label_def)
  show ?thesis
  proof (cases "fc_label c \<in> set (running_labels m)")
    case False
    then show ?thesis
      using StartOp ne stats_reg.lookup_register_other [of l "fc_label c" "fc_protocol c" now "mg_registry m"]
      by (auto simp: start_one_fields handle_of_def map_add_def split: option.split)
  qed (simp add: StartOp start_one_running)
qed

lemma run_ops_other:
  "l \<notin> op_label ` set ops \<Longrightarrow> handle_of l (fold (run_op wait now) ops m) = handle_of l m
    \<and> registry_find l (mg_registry (fold (run_op wait now) ops m)) = registry_find l (mg_registry m)"
  by (induction ops arbitrary: m) (auto simp: run_op_other)

lemma sync_survivor:
  assumes "l \<in> set (running_labels m)" and "l \<in> fc_label ` set cfgs"
  shows "handle_of l (sync wait now cfgs m) = handle_of l m
    \<and> registry_find l (mg_registry (sync wait now cfgs m)) = registry_find l (mg_registry m)"
  unfolding sync_def
  by (rule run_ops_other) (use assms in \<open>auto simp: sync_plan_def Let_def op_label_def\<close>)

lemma serving_run_ops:
  "set (serving (fold (run_op wait now) ops m)) \<subseteq> set (serving m) \<union> {c. StartOp c \<in> set ops}"
proof (induction ops arbitrary: m)
  case (Cons p ops)
  have "set (serving (run_op wait now p m)) \<subseteq> set (serving m) \<union> {c. p = StartOp c}"
  proof (cases p)
    case (StopOp l)
    then show ?thesis by (auto simp: serving_def stop_one_forwarders)
  next
    case (StartOp c)
    then show ?thesis
      by (cases "fc_label c \<in> set (running_labels m)") (auto simp: start_one_running start_one_fields serving_def)
  qed
  with Cons [of "run_op wait now p m"] show ?case by auto
qed simp

lemma serving_stops:
  assumes "manager_ok m"
  shows "set (serving (fold (run_op wait now) (map StopOp ls) m)) \<subseteq> {c \<in> set (serving m). fc_label c \<notin> set ls}"
proof
  let ?m = "fold (run_op wait now) (map StopOp ls) m"
  fix c assume c: "c \<in> set (serving ?m)"
  have "fc_label ` set (serving ?m) = set (running_labels ?m)"
    using serving_labels [OF run_ops_ok [OF assms]] by (metis list.set_map)
  then have "fc_label c \<notin> set ls" using c stop_run [of wait now ls m] by auto
  moreover have "c \<in> set (serving m)" using c serving_run_ops [of wait now "map StopOp ls" m] by auto
  ultimately show "c \<in> {c \<in> set (serving m). fc_label c \<notin> set ls}" by simp
qed

lemma serving_sync:
  assumes "manager_ok m" and inj: "inj_on fc_label (set (serving m) \<union> set cfgs)"
  shows "set (serving (sync wait now cfgs m)) = set cfgs"
proof -
  let ?m = "sync wait now cfgs m"
  have ok: "manager_ok ?m" using assms(1) by (simp add: sync_def run_ops_ok)
  have labels: "fc_label ` set (serving ?m) = fc_label ` set cfgs"
    using serving_labels [OF ok] running_sync [of wait now cfgs m] by (metis list.set_map)
  have "set (serving ?m) \<subseteq> set (serving m) \<union> set cfgs"
    using serving_run_ops [of wait now "sync_plan cfgs m" m] by (auto simp: sync_def sync_plan_def Let_def)
  then have "inj_on fc_label (set (serving ?m) \<union> set cfgs)"
    by (intro inj_on_subset [OF inj]) simp
  then show ?thesis using labels by (metis inj_on_image_eq_iff sup_ge1 sup_ge2)
qed

text \<open>Tasks that serve different labels of one duplicate-free list do not share a port.\<close>

lemma ports_distinct:
  assumes "manager_ok m" and "distinct (map endpoint cfgs)" and "set (serving m) \<subseteq> set cfgs"
  shows "distinct (map endpoint (serving m))"
proof -
  have "distinct (serving m)"
    using serving_labels [OF assms(1)] assms(1) by (metis distinct_map manager_ok_def)
  moreover have "inj_on endpoint (set (serving m))"
    using assms(2,3) by (auto simp: distinct_map intro: inj_on_subset)
  ultimately show ?thesis by (simp add: distinct_map)
qed

lemma sync_prefix_serving:
  assumes ok: "manager_ok m" and inj: "inj_on fc_label (set (serving m) \<union> set cfgs)"
  shows "set (serving (fold (run_op wait now) (take n (sync_plan cfgs m)) m)) \<subseteq> set (serving m)
    \<or> set (serving (fold (run_op wait now) (take n (sync_plan cfgs m)) m)) \<subseteq> set cfgs"
proof -
  define stops where "stops = filter (\<lambda>l. l \<notin> fc_label ` set cfgs) (running_labels m)"
  define starts where "starts = filter (\<lambda>c. fc_label c \<notin> set (running_labels m)) cfgs"
  have plan: "sync_plan cfgs m = map StopOp stops @ map StartOp starts"
    by (simp add: sync_plan_def Let_def stops_def starts_def)
  show ?thesis
  proof (cases "n \<le> length stops")
    case True
    then have "take n (sync_plan cfgs m) = map StopOp (take n stops)" by (simp add: plan take_map)
    then show ?thesis using serving_run_ops [of wait now "map StopOp (take n stops)" m] by auto
  next
    case False
    define m' where "m' = fold (run_op wait now) (map StopOp stops) m"
    have "set (serving m') \<subseteq> set cfgs"
    proof
      fix c assume "c \<in> set (serving m')"
      then have c: "c \<in> set (serving m)" "fc_label c \<notin> set stops"
        using serving_stops [OF ok, of wait now stops] by (auto simp: m'_def)
      have "fc_label c \<in> set (running_labels m)" using c(1) serving_labels [OF ok] by (metis image_eqI list.set_map)
      then obtain d where d: "d \<in> set cfgs" "fc_label d = fc_label c" using c(2) by (auto simp: stops_def)
      then have "d = c" using c(1) by (intro inj_onD [OF inj d(2)]) simp_all
      with d(1) show "c \<in> set cfgs" by simp
    qed
    moreover have "take n (sync_plan cfgs m) = map StopOp stops @ map StartOp (take (n - length stops) starts)"
      using False by (simp add: plan take_map)
    moreover have "{c. StartOp c \<in> set (map StartOp (take (n - length stops) starts))} \<subseteq> set cfgs"
      by (auto simp: starts_def dest: in_set_takeD)
    ultimately have "set (serving (fold (run_op wait now) (take n (sync_plan cfgs m)) m)) \<subseteq> set cfgs"
      using serving_run_ops [of wait now "map StartOp (take (n - length stops) starts)" m'] by (simp add: m'_def) blast
    then show ?thesis ..
  qed
qed

text \<open>The tasks left behind by the calls of a \<open>sync\<close>: each was running before, is no longer wanted, and its wait timed out.\<close>

lemma lingering_op: "h \<in> set (mg_lingering (run_op wait now p m)) \<Longrightarrow> h \<in> set (mg_lingering m) \<or>
    (\<exists>l. p = StopOp l \<and> handle_of l m = Some h \<and> wait l = JoinTimeout)"
  by (cases p) (auto simp: handle_of_def stop_one_def start_one_def Let_def split: option.splits prod.splits if_splits)

lemma stop_handle: "handle_of l (stop_one wait k m) = Some h \<Longrightarrow> handle_of l m = Some h"
proof (cases "l = k")
  case True
  assume h: "handle_of l (stop_one wait k m) = Some h"
  have "l \<notin> set (running_labels (stop_one wait k m))" using True by (simp add: running_stop)
  with h show ?thesis using handle_of_iff [of l "stop_one wait k m"] by simp
qed (simp add: handle_of_def stop_one_forwarders map_of_filter_other)

lemma lingering_stops:
  "h \<in> set (mg_lingering (fold (run_op wait now) (map StopOp ls) m)) \<Longrightarrow> h \<in> set (mg_lingering m) \<or>
     (\<exists>l \<in> set ls. handle_of l m = Some h \<and> wait l = JoinTimeout)"
proof (induction ls arbitrary: m)
  case (Cons l ls)
  then show ?case using stop_handle [of _ wait l m h] lingering_op [of h wait now "StopOp l" m] by fastforce
qed simp

lemma lingering_starts: "mg_lingering (fold (run_op wait now) (map StartOp cs) m) = mg_lingering m"
proof (induction cs arbitrary: m)
  case (Cons c cs)
  have "mg_lingering (start_one now c m) = mg_lingering m" by (simp add: start_one_def Let_def split: prod.split)
  with Cons show ?case by simp
qed simp

lemma sync_lingering:
  assumes "h \<in> set (mg_lingering (fold (run_op wait now) (take n (sync_plan cfgs m)) m))"
  shows "h \<in> set (mg_lingering m) \<or> (\<exists>l. handle_of l m = Some h \<and> l \<notin> fc_label ` set cfgs \<and> wait l = JoinTimeout)"
proof -
  define stops where "stops = filter (\<lambda>l. l \<notin> fc_label ` set cfgs) (running_labels m)"
  define starts where "starts = filter (\<lambda>c. fc_label c \<notin> set (running_labels m)) cfgs"
  have "take n (sync_plan cfgs m) = map StopOp (take n stops) @ map StartOp (take (n - length stops) starts)"
    by (simp add: sync_plan_def Let_def stops_def starts_def take_map)
  then have "h \<in> set (mg_lingering (fold (run_op wait now) (map StopOp (take n stops)) m))"
    using assms by (simp add: lingering_starts)
  from lingering_stops [OF this] show ?thesis
  proof
    assume "\<exists>l \<in> set (take n stops). handle_of l m = Some h \<and> wait l = JoinTimeout"
    then obtain l where "l \<in> set stops" "handle_of l m = Some h" "wait l = JoinTimeout" by (auto dest: in_set_takeD)
    then show ?thesis by (auto simp: stops_def)
  qed simp
qed

lemma shutdown_fold:
  "mg_forwarders (fold (\<lambda>(label, h) m.
             m\<lparr>mg_lingering := (if wait label = JoinTimeout then mg_lingering m @ [h] else mg_lingering m),
               mg_registry := registry_remove label (mg_registry m)\<rparr>) hs m) = mg_forwarders m
   \<and> set (registry_labels (mg_registry (fold (\<lambda>(label, h) m.
             m\<lparr>mg_lingering := (if wait label = JoinTimeout then mg_lingering m @ [h] else mg_lingering m),
               mg_registry := registry_remove label (mg_registry m)\<rparr>) hs m)))
      = set (registry_labels (mg_registry m)) - fst ` set hs"
proof (induction hs arbitrary: m)
  case (Cons lh hs)
  obtain l h where lh: "lh = (l, h)" by fastforce
  show ?case by (simp add: lh Cons stats_reg.set_labels_remove) blast
qed simp

lemma manager_new_ok: "manager_new builder s al = Inr m \<Longrightarrow> manager_ok m \<and> serving m = []"
  by (auto simp: manager_new_def and_then_Inr manager_ok_def running_labels_def serving_def registry_new_def
      registry_labels_def)


definition sample_configs :: "rstr \<Rightarrow> forwarder_config list" where
  "sample_configs target =
     [\<lparr>fc_local_host = lit ''0.0.0.0'', fc_local_port = 80, fc_remote_host = target, fc_remote_port = 80, fc_protocol = Tcp\<rparr>,
      \<lparr>fc_local_host = lit ''0.0.0.0'', fc_local_port = 53, fc_remote_host = lit ''dns'', fc_remote_port = 53, fc_protocol = Udp\<rparr>]"

definition sample_manager :: manager where
  "sample_manager =
     start_all 0 (sample_configs (lit ''a''))
       \<lparr>mg_forwarders = [], mg_registry = [], mg_knobs = knobs_from_settings settings_default, mg_conn_limit = None,
        mg_udp_limit = 1, mg_alerts = notifier_start, mg_next_task = 0, mg_lingering = []\<rparr>"

lemma sample_manager_facts:
  "manager_ok sample_manager" "serving sample_manager = sample_configs (lit ''a'')"
proof -
  let ?m0 = "\<lparr>mg_forwarders = [], mg_registry = [], mg_knobs = knobs_from_settings settings_default, mg_conn_limit = None,
        mg_udp_limit = 1, mg_alerts = notifier_start, mg_next_task = 0, mg_lingering = []\<rparr>"
  have "manager_ok ?m0" by (simp add: manager_ok_def running_labels_def registry_labels_def)
  then show "manager_ok sample_manager"
    by (simp add: sample_manager_def start_all_def sample_configs_def start_one_ok)
  show "serving sample_manager = sample_configs (lit ''a'')"
    by (simp add: sample_manager_def start_all_def sample_configs_def start_one_def Let_def running_labels_def
        fc_label_def serving_def show_nat.simps split: prod.split)
qed

lemma sample_labels: "inj_on fc_label (set (serving sample_manager) \<union> set (sample_configs t))" if "ch (CHR ''>'') \<notin> set t"
  using plain_labels [of "serving sample_manager @ sample_configs t"] that
  by (simp add: sample_manager_facts) (simp add: sample_configs_def hosts_plain_def)


lemma lingering_grows: "set (mg_lingering m) \<subseteq> set (mg_lingering (fold (run_op wait now) ops m))"
proof (induction ops arbitrary: m)
  case (Cons p ops)
  have "set (mg_lingering m) \<subseteq> set (mg_lingering (run_op wait now p m))"
    by (cases p) (auto simp: stop_one_def start_one_def Let_def split: option.split prod.split)
  with Cons [of "run_op wait now p m"] show ?case by auto
qed simp

lemma stops_give_up:
  "l \<in> set ls \<Longrightarrow> handle_of l m = Some h \<Longrightarrow> wait l = JoinTimeout
   \<Longrightarrow> h \<in> set (mg_lingering (fold (run_op wait now) (map StopOp ls) m))"
proof (induction ls arbitrary: m)
  case (Cons k ls)
  show ?case
  proof (cases "k = l")
    case True
    with Cons.prems have "h \<in> set (mg_lingering (stop_one wait k m))" by (simp add: stop_one_def handle_of_def)
    then show ?thesis using lingering_grows [of "stop_one wait k m" wait now "map StopOp ls"] by auto
  next
    case False
    then have "handle_of l (stop_one wait k m) = Some h"
      using Cons.prems(2) by (simp add: handle_of_def stop_one_forwarders map_of_filter_other)
    with Cons False show ?thesis by simp
  qed
qed simp

text \<open>
  With a wait that timed out the contention is real: the task given up on and the forwarder
  started on its endpoint both claim it, until the former has ended.\<close>

lemma timed_out_stop_contends:
  assumes "manager_ok m" and "inj_on fc_label (set (serving m) \<union> set cfgs)" and "handle_of l m = Some h"
    and "l \<notin> fc_label ` set cfgs" and "wait l = JoinTimeout" and "c \<in> set cfgs" and "endpoint c = endpoint (fh_config h)"
  shows "\<not> distinct (map endpoint (holding (sync wait now cfgs m)))"
proof -
  have "l \<in> set (running_labels m)" using assms(3) handle_of_iff [of l m] by auto
  then have "h \<in> set (mg_lingering (sync wait now cfgs m))"
    using stops_give_up [of l "filter (\<lambda>l. l \<notin> fc_label ` set cfgs) (running_labels m)" m h wait now] assms(3-5)
    by (simp add: sync_def sync_plan_def Let_def lingering_starts)
  moreover have "c \<in> set (serving (sync wait now cfgs m))" using serving_sync [OF assms(1,2)] assms(6) by simp
  ultimately show ?thesis using assms(7) by (auto simp: holding_def)
qed

section \<open>What is served, label by label\<close>

text \<open>Of several configurations with one label the first is started.\<close>

fun first_by_label :: "forwarder_config list \<Rightarrow> forwarder_config list" where
  "first_by_label [] = []"
| "first_by_label (c # cs) = c # filter (\<lambda>d. fc_label d \<noteq> fc_label c) (first_by_label cs)"

lemma first_by_label_set: "set (first_by_label cs) \<subseteq> set cs"
  by (induction cs) auto

lemma first_by_label_labels: "fc_label ` set (first_by_label cs) = fc_label ` set cs"
proof (induction cs)
  case (Cons c cs)
  have "fc_label ` set (first_by_label (c # cs)) = insert (fc_label c) (fc_label ` set (first_by_label cs))" by auto
  with Cons show ?case by simp
qed simp

lemma first_by_label_distinct: "distinct (map fc_label cs) \<Longrightarrow> first_by_label cs = cs"
  by (induction cs) (auto simp: filter_id_conv image_iff)

lemma distinct_first_by_label: "distinct (map fc_label (first_by_label cs))"
  by (induction cs) (auto simp: distinct_map_filter)

lemma serving_starts:
  "serving (fold (start_one now) cs m) = serving m @ filter (\<lambda>c. fc_label c \<notin> set (running_labels m)) (first_by_label cs)"
proof (induction cs arbitrary: m)
  case (Cons c cs)
  show ?case
  proof (cases "fc_label c \<in> set (running_labels m)")
    case True
    have "filter (\<lambda>d. fc_label d \<notin> set (running_labels m)) (first_by_label cs)
        = filter (\<lambda>d. fc_label d \<noteq> fc_label c \<and> fc_label d \<notin> set (running_labels m)) (first_by_label cs)"
      using True by (intro filter_cong) auto
    with Cons [of m] True show ?thesis by (simp add: start_one_running)
  next
    case False
    have "serving (start_one now c m) = serving m @ [c]" by (simp add: serving_def start_one_fields [OF False])
    with Cons [of "start_one now c m"] False show ?thesis by (simp add: start_one_fields conj_commute)
  qed
qed simp

lemma handle_kept: "l \<in> set (running_labels m) \<Longrightarrow> handle_of l (fold (run_op wait now) (map StartOp cs) m) = handle_of l m"
proof (induction cs arbitrary: m)
  case (Cons c cs)
  have "handle_of l (start_one now c m) = handle_of l m"
  proof (cases "fc_label c \<in> set (running_labels m)")
    case False
    obtain h where "map_of (mg_forwarders m) l = Some h" using Cons.prems handle_of_iff [of l m] by (auto simp: handle_of_def)
    then show ?thesis by (simp add: handle_of_def start_one_fields [OF False] map_add_def)
  qed (simp add: start_one_running)
  with Cons.IH [of "start_one now c m"] Cons.prems show ?case by (simp add: running_start)
qed simp

lemma handle_started:
  "l \<notin> set (running_labels m) \<Longrightarrow>
   map_option fh_config (handle_of l (fold (run_op wait now) (map StartOp cs) m)) = find (\<lambda>c. fc_label c = l) cs"
proof (induction cs arbitrary: m)
  case Nil
  then show ?case using handle_of_iff [of l m] by simp
next
  case (Cons c cs)
  show ?case
  proof (cases "fc_label c = l")
    case True
    then have l: "fc_label c \<notin> set (running_labels m)" using Cons.prems by simp
    then have "map_of (mg_forwarders m) l = None" using True handle_of_iff [of l m] by (simp add: handle_of_def)
    then have "handle_of l (start_one now c m) = Some \<lparr>fh_task = mg_next_task m, fh_config = c\<rparr>"
      using True by (simp add: handle_of_def start_one_fields [OF l] map_add_def)
    with True handle_kept [of l "start_one now c m" wait now cs] show ?thesis by (simp add: running_start)
  next
    case False
    with Cons.IH [of "start_one now c m"] Cons.prems show ?thesis by (simp add: running_start)
  qed
qed

text \<open>The configuration behind each label, and what a \<open>sync\<close> makes of it.\<close>

definition served_by :: "manager \<Rightarrow> rstr \<rightharpoonup> forwarder_config" where
  "served_by m = (\<lambda>l. map_option fh_config (handle_of l m))"

definition spec_sync :: "forwarder_config list \<Rightarrow> (rstr \<rightharpoonup> forwarder_config) \<Rightarrow> rstr \<rightharpoonup> forwarder_config" where
  "spec_sync cfgs old =
     (\<lambda>l. case find (\<lambda>c. fc_label c = l) cfgs of
             None \<Rightarrow> None
           | Some c \<Rightarrow> (case old l of Some d \<Rightarrow> Some d | None \<Rightarrow> Some c))"

lemma find_filter: "(\<And>c. P c \<Longrightarrow> Q c) \<Longrightarrow> find P (filter Q cs) = find P cs"
  by (induction cs) auto

lemma find_label: "find (\<lambda>c. fc_label c = l) cfgs = None \<longleftrightarrow> l \<notin> fc_label ` set cfgs"
  by (auto simp: find_None_iff)

lemma served_sync: "served_by (sync wait now cfgs m) = spec_sync cfgs (served_by m)"
proof
  fix l
  define stops where "stops = filter (\<lambda>l. l \<notin> fc_label ` set cfgs) (running_labels m)"
  define m1 where "m1 = fold (run_op wait now) (map StopOp stops) m"
  have sync: "sync wait now cfgs m
      = fold (run_op wait now) (map StartOp (filter (\<lambda>c. fc_label c \<notin> set (running_labels m)) cfgs)) m1"
    by (simp add: sync_def sync_plan_def Let_def stops_def m1_def)
  consider (gone) "l \<notin> fc_label ` set cfgs" | (kept) "l \<in> fc_label ` set cfgs" "l \<in> set (running_labels m)"
    | (new) "l \<in> fc_label ` set cfgs" "l \<notin> set (running_labels m)" by blast
  then show "served_by (sync wait now cfgs m) l = spec_sync cfgs (served_by m) l"
  proof cases
    case gone
    then have "handle_of l (sync wait now cfgs m) = None" by (simp add: handle_of_iff running_sync)
    with gone find_label [of l cfgs] show ?thesis by (simp add: served_by_def spec_sync_def)
  next
    case kept
    then obtain h where "handle_of l m = Some h" using handle_of_iff [of l m] by blast
    moreover have "find (\<lambda>c. fc_label c = l) cfgs \<noteq> None" using kept(1) find_label by blast
    ultimately show ?thesis using sync_survivor [OF kept(2,1), of wait now] by (auto simp: served_by_def spec_sync_def)
  next
    case new
    then have "l \<notin> set (running_labels m1)" by (simp add: m1_def stop_run)
    moreover have "handle_of l m = None" using new(2) by (simp add: handle_of_iff)
    moreover have "find (\<lambda>c. fc_label c = l) (filter (\<lambda>c. fc_label c \<notin> set (running_labels m)) cfgs) = find (\<lambda>c. fc_label c = l) cfgs"
      using new(2) by (intro find_filter) auto
    ultimately show ?thesis
      using handle_started [of l m1 wait now] by (simp add: served_by_def spec_sync_def sync split: option.split)
  qed
qed

text \<open>
  Shutting down leaves no forwarder in the table and no statistics in the registry, whatever
  the waits for the tasks answer.\<close>

lemma shutdown_complete:
  assumes "manager_ok m"
  shows "mg_forwarders (shutdown_all wait m) = [] \<and> registry_labels (mg_registry (shutdown_all wait m)) = []"
  using assms shutdown_fold [of wait "mg_forwarders m" "m\<lparr>mg_forwarders := []\<rparr>"]
  by (simp add: shutdown_all_def manager_ok_def running_labels_def)

end
