(* ===== verification/Fd_Limits.thy ===== *)
theory Fd_Limits
  imports Config_Settings
begin

text \<open>
  Open-file limits: \<open>src/src/fdlimit.rs\<close> at startup and \<open>ensure_fd_budget\<close> of
  \<open>src/src/udp.rs\<close> when a UDP forwarder is configured. The process limit is the pair of its
  soft and hard value; whether \<open>getrlimit\<close> and \<open>setrlimit\<close> succeed is a parameter.
\<close>

record rlimit =
  rlim_cur :: u64
  rlim_max :: u64

record rlimit_calls =
  rc_get :: bool
  rc_set :: "u64 \<Rightarrow> bool"

section \<open>TCP\<close>

definition SOFT_LIMIT_CAP :: u64 where "SOFT_LIMIT_CAP = 1048576"
definition BASE_FDS :: u64 where "BASE_FDS = 128"

datatype plan = Keep | Raise u64

definition plan_limit :: "u64 \<Rightarrow> u64 \<Rightarrow> plan" where
  "plan_limit soft hard = (let target = min hard SOFT_LIMIT_CAP in if target > soft then Raise target else Keep)"

definition fds_for :: "u64 \<Rightarrow> bool \<Rightarrow> u64" where
  "fds_for max_connections use_splice = sat_add (sat_mul max_connections (if use_splice then 6 else 2)) BASE_FDS"

text \<open>The result says whether the operator was warned that the limit does not fit.\<close>

definition raise_soft_limit :: "rlimit_calls \<Rightarrow> nat option \<Rightarrow> bool \<Rightarrow> rlimit \<Rightarrow> bool \<times> rlimit" where
  "raise_soft_limit rc max_connections use_splice rl =
     (if \<not> rc_get rc then (False, rl)
      else let rl' = (case plan_limit (rlim_cur rl) (rlim_max rl) of
                        Raise to \<Rightarrow> if rc_set rc to then rl\<lparr>rlim_cur := to\<rparr> else rl
                      | Keep \<Rightarrow> rl)
           in (case max_connections of
                 Some mx \<Rightarrow> rlim_cur rl' < fds_for (of_nat mx) use_splice
               | None \<Rightarrow> False,
               rl'))"

section \<open>UDP\<close>

definition FD_HEADROOM :: u64 where "FD_HEADROOM = 256"

datatype fd_plan = FdEnough | FdRaise u64 bool | FdShort

definition fd_plan_for :: "u64 \<Rightarrow> u64 \<Rightarrow> u64 \<Rightarrow> fd_plan" where
  "fd_plan_for soft hard needed =
     (if soft \<ge> needed then FdEnough
      else if hard > soft then (let to = min hard needed in FdRaise to (to \<ge> needed))
      else FdShort)"

definition ensure_fd_budget :: "rlimit_calls \<Rightarrow> nat \<Rightarrow> rlimit \<Rightarrow> bool \<times> rlimit" where
  "ensure_fd_budget rc udp_max_sessions rl =
     (let needed = of_nat udp_max_sessions + FD_HEADROOM in
      if \<not> rc_get rc then (False, rl)
      else case fd_plan_for (rlim_cur rl) (rlim_max rl) needed of
             FdEnough \<Rightarrow> (False, rl)
           | FdShort \<Rightarrow> (True, rl)
           | FdRaise to sufficient \<Rightarrow>
               if rc_set rc to then (\<not> sufficient, rl\<lparr>rlim_cur := to\<rparr>) else (True, rl))"

text \<open>What startup does to the limit: the TCP step, then the UDP step if a forwarder needs it.\<close>

definition startup_limits :: "rlimit_calls \<Rightarrow> settings \<Rightarrow> forwarder_config list \<Rightarrow> rlimit \<Rightarrow> bool \<times> bool \<times> rlimit" where
  "startup_limits rc s fwds rl =
     (let (warn_tcp, rl1) = raise_soft_limit rc (st_max_connections s) (st_use_splice s) rl;
          (warn_udp, rl2) = (if list_ex (\<lambda>f. fc_protocol f = Udp) fwds
                             then ensure_fd_budget rc (st_udp_max_sessions s) rl1 else (False, rl1))
      in (warn_tcp, warn_udp, rl2))"

section \<open>Limits only rise\<close>

lemma raise_soft_limit_grows:
  assumes "rlim_cur rl \<le> rlim_max rl" and "raise_soft_limit rc mx use_splice rl = (w, rl')"
  shows "rlim_cur rl \<le> rlim_cur rl' \<and> rlim_cur rl' \<le> rlim_max rl' \<and> rlim_max rl' = rlim_max rl
    \<and> (rc_get rc \<longrightarrow> w = (case mx of Some n \<Rightarrow> rlim_cur rl' < fds_for (of_nat n) use_splice | None \<Rightarrow> False))"
  using assms
  by (cases mx) (auto simp: raise_soft_limit_def plan_limit_def Let_def split: if_splits)

lemma ensure_fd_budget_grows:
  assumes "rlim_cur rl \<le> rlim_max rl" and "ensure_fd_budget rc n rl = (w, rl')"
  shows "rlim_cur rl \<le> rlim_cur rl' \<and> rlim_cur rl' \<le> rlim_max rl' \<and> rlim_max rl' = rlim_max rl
    \<and> (rc_get rc \<longrightarrow> w = (rlim_cur rl' < of_nat n + FD_HEADROOM))"
  using assms
  by (auto simp: ensure_fd_budget_def fd_plan_for_def Let_def min_def split: if_splits)

text \<open>
  C34. The open-file limit is only ever raised, and never above what the system allows: after
  both startup steps, whatever the system calls answer, the soft limit is at least what it was
  and at most the hard limit, which is unchanged. When the limit can be read, no
  warning about the TCP cap means that the final limit covers what the cap can need, and the
  warning about UDP is raised exactly when the final limit is below the session cap plus
  headroom.\<close>
theorem fd_limit_only_raised:
  assumes "rlim_cur rl \<le> rlim_max rl"
  shows "case startup_limits rc s fwds rl of (warn_tcp, warn_udp, rl') \<Rightarrow>
     rlim_cur rl \<le> rlim_cur rl' \<and> rlim_cur rl' \<le> rlim_max rl' \<and> rlim_max rl' = rlim_max rl
     \<and> (rc_get rc \<and> \<not> warn_tcp \<longrightarrow>
          (case st_max_connections s of Some n \<Rightarrow> fds_for (of_nat n) (st_use_splice s) \<le> rlim_cur rl' | None \<Rightarrow> True))
     \<and> (rc_get rc \<and> list_ex (\<lambda>f. fc_protocol f = Udp) fwds \<longrightarrow>
          warn_udp = (rlim_cur rl' < of_nat (st_udp_max_sessions s) + FD_HEADROOM))"
proof -
  obtain w1 rl1 where r: "raise_soft_limit rc (st_max_connections s) (st_use_splice s) rl = (w1, rl1)" by fastforce
  note tcp = raise_soft_limit_grows [OF assms r]
  obtain w2 rl2 where e: "ensure_fd_budget rc (st_udp_max_sessions s) rl1 = (w2, rl2)" by fastforce
  have "rlim_cur rl1 \<le> rlim_max rl1" using tcp by blast
  note udp = ensure_fd_budget_grows [OF this e]
  have need: "fds_for (of_nat n) (st_use_splice s) \<le> rlim_cur rl1"
    if "rc_get rc" "\<not> w1" "st_max_connections s = Some n" for n
    using tcp that by (simp add: not_less)
  show ?thesis
    using tcp udp need
    by (auto simp: startup_limits_def r e split: option.split intro: order_trans)
qed

theorem fd_limit_only_raised_witness:
  "case startup_limits \<lparr>rc_get = True, rc_set = (\<lambda>_. True)\<rparr> settings_default [] \<lparr>rlim_cur = 1024, rlim_max = 4096\<rparr> of
     (warn_tcp, warn_udp, rl') \<Rightarrow> 1024 \<le> rlim_cur rl' \<and> rlim_cur rl' \<le> rlim_max rl'"
  using fd_limit_only_raised [of "\<lparr>rlim_cur = 1024, rlim_max = 4096\<rparr>" "\<lparr>rc_get = True, rc_set = (\<lambda>_. True)\<rparr>" settings_default "[]"]
  by (auto split: prod.splits)

end
