(* ===== verification/Permits.thy ===== *)
theory Permits
  imports Prelude
begin

text \<open>
  Counted permits. \<open>tokio::sync::Semaphore\<close> is used by the program only through
  \<open>try_acquire_owned\<close> and the drop of the permit, so a semaphore is its number of free
  permits. The locale states what a component that hands permits to the things it creates
  has to keep - each step moves permits between the semaphore and their holders - and gives
  the bound. It is interpreted for the TCP accept loop and for the UDP engine.
\<close>

definition try_acquire :: "nat \<Rightarrow> bool \<times> nat" where
  "try_acquire free = (if free > 0 then (True, free - 1) else (False, free))"

definition release :: "nat \<Rightarrow> nat" where
  "release free = free + 1"

locale permit_pool =
  fixes inv :: "'s \<Rightarrow> bool"
    and step :: "'s \<Rightarrow> 's \<Rightarrow> bool"
    and free :: "'s \<Rightarrow> nat"
    and held :: "'s \<Rightarrow> nat"
  assumes step_inv: "inv s \<Longrightarrow> step s s' \<Longrightarrow> inv s'"
    and step_conserves: "inv s \<Longrightarrow> step s s' \<Longrightarrow> free s' + held s' = free s + held s"
begin

lemma reachable: "step\<^sup>*\<^sup>* s s' \<Longrightarrow> inv s \<Longrightarrow> inv s' \<and> free s' + held s' = free s + held s"
  by (induction rule: rtranclp_induct) (auto dest: step_inv step_conserves)

lemma held_bounded: "step\<^sup>*\<^sup>* s s' \<Longrightarrow> inv s \<Longrightarrow> held s = 0 \<Longrightarrow> held s' \<le> free s"
  using reachable [of s s'] by simp

lemma all_released: "step\<^sup>*\<^sup>* s s' \<Longrightarrow> inv s \<Longrightarrow> held s = 0 \<Longrightarrow> held s' = 0 \<Longrightarrow> free s' = free s"
  using reachable [of s s'] by simp

end

end
