(* ===== verification/Metrics.thy ===== *)
theory Metrics
  imports Stats Notify Permits Ip_Parse
begin

text \<open>
  The HTTP endpoint of \<open>src/src/metrics.rs\<close>: reading a request head, routing, the health
  verdict and its probe, and the Prometheus and JSON renderings. Bytes are numbers below
  256; the UTF-8 encoder and the lossy decoder of the standard library are written out.
  What a socket delivers is a list of read answers.
\<close>

section \<open>UTF-8\<close>

fun utf8_char :: "nat \<Rightarrow> nat list" where
  "utf8_char c =
     (if c < 0x80 then [c]
      else if c < 0x800 then [0xC0 + c div 64, 0x80 + c mod 64]
      else if c < 0x10000 then [0xE0 + c div 4096, 0x80 + c div 64 mod 64, 0x80 + c mod 64]
      else [0xF0 + c div 262144, 0x80 + c div 4096 mod 64, 0x80 + c div 64 mod 64, 0x80 + c mod 64])"

definition as_bytes :: "rstr \<Rightarrow> nat list" where
  "as_bytes s = concat (map utf8_char s)"

definition is_cont :: "nat \<Rightarrow> bool" where
  "is_cont b \<longleftrightarrow> 0x80 \<le> b \<and> b \<le> 0xBF"

text \<open>
  \<open>String::from_utf8_lossy\<close>: a valid sequence is its character, and the longest prefix of a
  valid sequence that is cut short becomes one replacement character.
\<close>

definition second_ok :: "nat \<Rightarrow> nat \<Rightarrow> bool" where
  "second_ok b c \<longleftrightarrow>
     (if b = 0xE0 then 0xA0 \<le> c \<and> c \<le> 0xBF else if b = 0xED then 0x80 \<le> c \<and> c \<le> 0x9F
      else if b = 0xF0 then 0x90 \<le> c \<and> c \<le> 0xBF else if b = 0xF4 then 0x80 \<le> c \<and> c \<le> 0x8F
      else is_cont c)"

definition seq_len :: "nat \<Rightarrow> nat" where
  "seq_len b =
     (if b < 0x80 then 1 else if 0xC2 \<le> b \<and> b \<le> 0xDF then 2 else if 0xE0 \<le> b \<and> b \<le> 0xEF then 3
      else if 0xF0 \<le> b \<and> b \<le> 0xF4 then 4 else 0)"

text \<open>The character at the front and how many bytes it takes.\<close>

definition decode_front :: "nat list \<Rightarrow> nat \<times> nat" where
  "decode_front bs =
     (case bs of
        [] \<Rightarrow> (0, 1)
      | b # rest \<Rightarrow>
          let n = seq_len b; bad = 0xFFFD in
          if n = 1 then (b, 1)
          else if n = 0 then (bad, 1)
          else (case rest of
                  [] \<Rightarrow> (bad, 1)
                | c # rest2 \<Rightarrow>
                    if \<not> second_ok b c then (bad, 1)
                    else if n = 2 then (b mod 32 * 64 + c mod 64, 2)
                    else (case rest2 of
                            [] \<Rightarrow> (bad, 2)
                          | d # rest3 \<Rightarrow>
                              if \<not> is_cont d then (bad, 2)
                              else if n = 3 then (b mod 16 * 4096 + c mod 64 * 64 + d mod 64, 3)
                              else (case rest3 of
                                      [] \<Rightarrow> (bad, 3)
                                    | e # _ \<Rightarrow>
                                        if \<not> is_cont e then (bad, 3)
                                        else (b mod 8 * 262144 + c mod 64 * 4096 + d mod 64 * 64 + e mod 64, 4)))))"

function from_utf8_lossy :: "nat list \<Rightarrow> rstr" where
  "from_utf8_lossy [] = []"
| "from_utf8_lossy (b # bs) =
     (case decode_front (b # bs) of (c, n) \<Rightarrow> c # from_utf8_lossy (drop (n - 1) bs))"
  by pat_completeness auto
termination by (relation "measure length") auto

section \<open>Reading the head\<close>

definition MAX_REQUEST_BYTES :: nat where "MAX_REQUEST_BYTES = 8192"
definition MAX_CONCURRENT_REQUESTS :: nat where "MAX_CONCURRENT_REQUESTS = 32"

text \<open>\<open>windows(4).any(|w| w == b"\r\n\r\n")\<close>.\<close>

fun has_terminator :: "nat list \<Rightarrow> bool" where
  "has_terminator [] = False"
| "has_terminator (x # xs) = (take 4 (x # xs) = [13, 10, 13, 10] \<or> has_terminator xs)"

datatype head_result = HeadRead "nat list" | HeadFailed io_error | HeadDeadline

text \<open>
  The answers of successive reads; when they run out the client is silent and the deadline
  ends the request. \<open>scanned\<close> is the length already searched.
\<close>

fun read_head :: "nat list \<Rightarrow> nat \<Rightarrow> (io_error + nat list) list \<Rightarrow> head_result" where
  "read_head buf scanned [] = HeadDeadline"
| "read_head buf scanned (Inl e # rs) = HeadFailed e"
| "read_head buf scanned (Inr bytes # rs) =
     (if bytes = [] then HeadRead buf
      else let buf' = buf @ bytes; from = scanned - 3
           in if has_terminator (drop from buf') \<or> length buf' \<ge> MAX_REQUEST_BYTES then HeadRead buf'
              else read_head buf' (length buf') rs)"

section \<open>Requests\<close>

text \<open>\<open>lines().next()\<close>: up to the first line feed, without the carriage return before it.\<close>

definition first_line :: "rstr \<Rightarrow> rstr option" where
  "first_line s =
     (if s = [] then None
      else case split_once 10 s of
             None \<Rightarrow> Some s
           | Some (a, _) \<Rightarrow> Some (if a \<noteq> [] \<and> List.last a = 13 then butlast a else a))"

function split_whitespace :: "rstr \<Rightarrow> rstr list" where
  "split_whitespace [] = []"
| "split_whitespace (c # cs) =
     (if is_whitespace c then split_whitespace cs
      else (c # takeWhile (\<lambda>x. \<not> is_whitespace x) cs) # split_whitespace (dropWhile (\<lambda>x. \<not> is_whitespace x) cs))"
  by pat_completeness auto
termination by (relation "measure length") (auto simp: less_Suc_eq_le length_dropWhile_le)

definition parse_request_target :: "rstr \<Rightarrow> rstr option" where
  "parse_request_target head =
     (case first_line head of
        None \<Rightarrow> None
      | Some first \<Rightarrow>
          (case split_whitespace first of
             [] \<Rightarrow> None
           | m # rest \<Rightarrow>
               if m \<noteq> lit ''GET'' then None
               else (case rest of [] \<Rightarrow> None | target # _ \<Rightarrow> Some target)))"

definition crlf :: rstr where "crlf = [13, 10]"

definition http_response :: "rstr \<Rightarrow> rstr \<Rightarrow> rstr \<Rightarrow> rstr" where
  "http_response status content_type body =
     lit ''HTTP/1.1 '' @ status @ crlf @ lit ''Content-Type: '' @ content_type @ crlf @ lit ''Content-Length: ''
       @ show_nat (str_len body) @ crlf @ lit ''Connection: close'' @ crlf @ crlf @ body"

definition render_health :: "stats_snapshot list \<Rightarrow> rstr" where
  "render_health snaps =
     (let unbound = map sn_label (filter (\<lambda>s. \<not> sn_listening s) snaps)
      in if unbound = [] then http_response (lit ''200 OK'') (lit ''text/plain'') (lit ''rfw ok'' @ [10])
         else http_response (lit ''503 Service Unavailable'') (lit ''text/plain'')
                (lit ''rfw degraded: '' @ show_nat (length unbound) @ lit '' forwarder(s) not listening: ''
                   @ join_str (lit '', '') unbound @ [10]))"

section \<open>Rendering\<close>

definition hex_digit :: "nat \<Rightarrow> nat" where
  "hex_digit n = (if n < 10 then 48 + n else 87 + n)"

definition hex4 :: "nat \<Rightarrow> rstr" where
  "hex4 c = map (\<lambda>i. hex_digit (c div 16 ^ i mod 16)) [3, 2, 1, 0]"

definition escape_char :: "nat \<Rightarrow> rstr" where
  "escape_char c =
     (if c = 92 then [92, 92]
      else if c = 34 then [92, 34]
      else if c = 10 then lit [CHR 0x5C, CHR ''n'']
      else if c = 13 then lit [CHR 0x5C, CHR ''r'']
      else if c = 9 then lit [CHR 0x5C, CHR ''t'']
      else if is_control c then lit [CHR 0x5C, CHR ''u''] @ hex4 c
      else [c])"

definition escape :: "rstr \<Rightarrow> rstr" where
  "escape label = concat (map escape_char label)"

definition sample_line :: "rstr \<Rightarrow> rstr \<Rightarrow> u64 \<Rightarrow> rstr" where
  "sample_line name label v = name @ lit ''{label='' @ [34] @ escape label @ [34] @ lit ''} '' @ show_nat (unat v)"

definition family_header :: "rstr \<Rightarrow> rstr \<Rightarrow> rstr \<Rightarrow> rstr" where
  "family_header name help kind =
     lit ''# HELP '' @ name @ lit '' '' @ help @ [10] @ lit ''# TYPE '' @ name @ lit '' '' @ kind @ [10]"

definition push_metric :: "rstr \<Rightarrow> rstr \<Rightarrow> rstr \<Rightarrow> stats_snapshot list \<Rightarrow> (stats_snapshot \<Rightarrow> u64) \<Rightarrow> rstr \<Rightarrow> rstr" where
  "push_metric name help kind snaps getter out =
     out @ family_header name help kind @ concat (map (\<lambda>s. sample_line name (sn_label s) (getter s) @ [10]) snaps)"

definition bool_u64 :: "bool \<Rightarrow> u64" where
  "bool_u64 b = (if b then 1 else 0)"

definition push_reachable :: "stats_snapshot list \<Rightarrow> rstr \<Rightarrow> rstr" where
  "push_reachable snaps out =
     out @ family_header (lit ''rfw_target_reachable'')
             (lit ''1 if the last probe of the target succeeded, 0 if it failed; absent before the first probe.'') (lit ''gauge'')
       @ concat (map (\<lambda>s. case sn_target_reachable s of
                            Some up \<Rightarrow> sample_line (lit ''rfw_target_reachable'') (sn_label s) (bool_u64 up) @ [10]
                          | None \<Rightarrow> []) snaps)"

definition render_prometheus :: "stats_snapshot list \<Rightarrow> rstr" where
  "render_prometheus snaps =
     (let udp = filter (\<lambda>s. sn_protocol s = Udp) snaps;
          out = push_metric (lit ''rfw_bytes_sent_total'') (lit ''Lifetime bytes forwarded client->remote.'') (lit ''counter'') snaps sn_bytes_sent [];
          out = push_metric (lit ''rfw_bytes_received_total'') (lit ''Lifetime bytes forwarded remote->client.'') (lit ''counter'') snaps sn_bytes_received out;
          out = push_metric (lit ''rfw_bytes_sent_rate_bps'') (lit ''Current send throughput (bytes/sec).'') (lit ''gauge'') snaps sn_rate_sent_bps out;
          out = push_metric (lit ''rfw_bytes_received_rate_bps'') (lit ''Current receive throughput (bytes/sec).'') (lit ''gauge'') snaps sn_rate_recv_bps out;
          out = push_metric (lit ''rfw_active_connections'') (lit ''Currently active connections.'') (lit ''gauge'') snaps sn_active_connections out;
          out = push_metric (lit ''rfw_rejected_connections_total'') (lit ''Lifetime connections refused because max_connections was saturated.'') (lit ''counter'') snaps sn_rejected_connections out;
          out = push_metric (lit ''rfw_listening'') (lit ''1 while the forwarder'' @ [39] @ lit ''s listener is bound and accepting, 0 otherwise.'') (lit ''gauge'') snaps (\<lambda>s. bool_u64 (sn_listening s)) out;
          out = push_reachable snaps out
      in if udp = [] then out
         else
           let out = push_metric (lit ''rfw_datagrams_sent_total'') (lit ''Lifetime UDP datagrams forwarded client->remote.'') (lit ''counter'') udp sn_datagrams_sent out;
               out = push_metric (lit ''rfw_datagrams_received_total'') (lit ''Lifetime UDP datagrams forwarded remote->client.'') (lit ''counter'') udp sn_datagrams_received out
           in push_metric (lit ''rfw_datagrams_dropped_total'') (lit ''Lifetime UDP datagrams dropped (socket buffer full, session limit, target not resolved, send error).'') (lit ''counter'') udp sn_datagrams_dropped out)"

definition single_metric :: "rstr \<Rightarrow> rstr \<Rightarrow> rstr \<Rightarrow> u64 \<Rightarrow> rstr" where
  "single_metric name help kind v = family_header name help kind @ name @ lit '' '' @ show_nat (unat v) @ [10]"

definition render_webhook_metrics :: "notifier_counters \<Rightarrow> rstr" where
  "render_webhook_metrics n =
     single_metric (lit ''rfw_webhook_enabled'') (lit ''1 if a webhook URL is configured, 0 otherwise.'') (lit ''gauge'') (bool_u64 (nc_enabled n))
     @ single_metric (lit ''rfw_webhook_sent_total'') (lit ''Alert messages accepted by the webhook.'') (lit ''counter'') (nc_sent n)
     @ single_metric (lit ''rfw_webhook_failed_total'') (lit ''Alert messages given up on after the retry budget.'') (lit ''counter'') (nc_failed n)
     @ single_metric (lit ''rfw_webhook_dropped_total'') (lit ''Alert events dropped because the delivery queue was full.'') (lit ''counter'') (nc_dropped n)
     @ single_metric (lit ''rfw_webhook_suppressed_total'') (lit ''Alert events folded into a later message by the per-kind throttle.'') (lit ''counter'') (nc_suppressed n)"

text \<open>A JSON key with its colon, and the fields of one entry.\<close>

definition json_key :: "string \<Rightarrow> rstr" where
  "json_key k = [34] @ lit k @ [34] @ lit '':''"

definition show_bool :: "bool \<Rightarrow> rstr" where
  "show_bool b = (if b then lit ''true'' else lit ''false'')"

definition json_udp :: "stats_snapshot \<Rightarrow> rstr" where
  "json_udp s =
     (case sn_protocol s of
        Udp \<Rightarrow>
          lit '','' @ json_key ''datagrams_sent'' @ show_nat (unat (sn_datagrams_sent s))
          @ lit '','' @ json_key ''datagrams_received'' @ show_nat (unat (sn_datagrams_received s))
          @ lit '','' @ json_key ''datagrams_dropped'' @ show_nat (unat (sn_datagrams_dropped s))
      | Tcp \<Rightarrow> [])"

definition json_entry :: "stats_snapshot \<Rightarrow> rstr" where
  "json_entry s =
     lit ''{'' @ json_key ''label'' @ [34] @ escape (sn_label s) @ [34]
     @ lit '','' @ json_key ''protocol'' @ [34] @ as_str (sn_protocol s) @ [34]
     @ lit '','' @ json_key ''bytes_sent'' @ show_nat (unat (sn_bytes_sent s))
     @ lit '','' @ json_key ''bytes_received'' @ show_nat (unat (sn_bytes_received s))
     @ lit '','' @ json_key ''active_connections'' @ show_nat (unat (sn_active_connections s))
     @ lit '','' @ json_key ''rejected_connections'' @ show_nat (unat (sn_rejected_connections s))
     @ lit '','' @ json_key ''rate_sent_bps'' @ show_nat (unat (sn_rate_sent_bps s))
     @ lit '','' @ json_key ''rate_recv_bps'' @ show_nat (unat (sn_rate_recv_bps s))
     @ lit '','' @ json_key ''listening'' @ show_bool (sn_listening s)
     @ lit '','' @ json_key ''target_reachable''
     @ (case sn_target_reachable s of Some True \<Rightarrow> lit ''true'' | Some False \<Rightarrow> lit ''false'' | None \<Rightarrow> lit ''null'')
     @ json_udp s @ lit ''}''"

definition render_json :: "stats_snapshot list \<Rightarrow> rstr" where
  "render_json snaps = lit ''['' @ join_str (lit '','') (map json_entry snaps) @ lit '']''"

section \<open>The endpoint\<close>

definition route :: "registry \<Rightarrow> notifier_counters \<Rightarrow> rstr option \<Rightarrow> rstr" where
  "route reg counters target =
     (if target = Some (lit ''/metrics'')
      then http_response (lit ''200 OK'') (lit ''text/plain; version=0.0.4'')
             (render_prometheus (collect reg) @ render_webhook_metrics counters)
      else if target = Some (lit ''/stats'')
      then http_response (lit ''200 OK'') (lit ''application/json'') (render_json (collect reg))
      else if target = Some (lit ''/'') then render_health (collect reg)
      else http_response (lit ''404 Not Found'') (lit ''text/plain'') (lit ''not found'' @ [10]))"

text \<open>The bytes written back, if any, or the read error.\<close>

definition handle_conn :: "registry \<Rightarrow> notifier_counters \<Rightarrow> (io_error + nat list) list \<Rightarrow> io_error + nat list option" where
  "handle_conn reg counters reads =
     (case read_head [] 0 reads of
        HeadFailed e \<Rightarrow> Inl e
      | HeadDeadline \<Rightarrow> Inr None
      | HeadRead buf \<Rightarrow> Inr (Some (as_bytes (route reg counters (parse_request_target (from_utf8_lossy buf))))))"

text \<open>The probe: \<open>answer\<close> is what connecting, writing and reading to the end gave in time.\<close>

datatype probe_answer = ProbeTimeout | ProbeIo rstr | ProbeBytes "nat list"

datatype health_error = BadAddress rstr | TimedOut | Unreachable rstr | Unhealthy rstr

definition probe_request :: "nat list" where
  "probe_request = as_bytes (lit ''GET / HTTP/1.1'' @ crlf @ lit ''Host: localhost'' @ crlf @ lit ''Connection: close'' @ crlf @ crlf)"

definition starts_with :: "rstr \<Rightarrow> rstr \<Rightarrow> bool" where
  "starts_with prefix s \<longleftrightarrow> take (length prefix) s = prefix"

definition health_check :: "(socket_addr \<Rightarrow> nat list \<Rightarrow> probe_answer) \<Rightarrow> rstr \<Rightarrow> health_error + unit" where
  "health_check connect addr =
     (case parse_socket_addr addr of
        None \<Rightarrow> Inl (BadAddress addr)
      | Some sa \<Rightarrow>
          (case connect sa probe_request of
             ProbeTimeout \<Rightarrow> Inl TimedOut
           | ProbeIo e \<Rightarrow> Inl (Unreachable e)
           | ProbeBytes response \<Rightarrow>
               (let head = from_utf8_lossy response
                in if starts_with (lit ''HTTP/1.1 200 OK'') head then Inr ()
                   else Inl (Unhealthy (case first_line head of Some l \<Rightarrow> l | None \<Rightarrow> lit ''<empty response>'')))))"

definition serve_bind :: "rstr \<Rightarrow> rstr + unit \<Rightarrow> alerting \<Rightarrow> bool \<times> alerting" where
  "serve_bind addr bound al =
     (case bound of
        Inr _ \<Rightarrow> (True, al)
      | Inl e \<Rightarrow>
          (False, notify (Internal (lit ''metrics'')
             (lit ''stats endpoint failed to bind '' @ addr @ lit '': '' @ e
                @ lit ''. /metrics, /stats and the healthcheck are unavailable'')) al))"

definition ACCEPT_BACKOFF :: duration where "ACCEPT_BACKOFF = from_secs 1"

definition serve_accept_pause :: "io_error \<Rightarrow> duration" where
  "serve_accept_pause e =
     (if ioe_kind e \<in> {ConnectionAborted, ConnectionReset, Interrupted} then 0 else ACCEPT_BACKOFF)"

text \<open>The accept loop: free permits and requests in flight. A request beyond the limit is closed.\<close>

definition serve_accept :: "nat \<times> nat \<Rightarrow> nat \<times> nat" where
  "serve_accept st = (case st of (free, in_flight) \<Rightarrow>
     case try_acquire free of (True, free') \<Rightarrow> (free', in_flight + 1) | (False, free') \<Rightarrow> (free', in_flight))"

inductive serve_step :: "nat \<times> nat \<Rightarrow> nat \<times> nat \<Rightarrow> bool" where
  accepted: "serve_step st (serve_accept st)"
| answered: "n > 0 \<Longrightarrow> serve_step (free, n) (release free, n - 1)"

interpretation metrics_permits: permit_pool "\<lambda>_. True" serve_step fst snd
proof
  fix st st' assume "serve_step st st'"
  then show "fst st' + snd st' = fst st + snd st"
    by cases (auto simp: serve_accept_def try_acquire_def release_def split: prod.splits if_splits)
qed simp

lemma requests_bounded: "serve_step\<^sup>*\<^sup>* (MAX_CONCURRENT_REQUESTS, 0) (free, n) \<Longrightarrow> n \<le> 32"
  using metrics_permits.held_bounded [of "(MAX_CONCURRENT_REQUESTS, 0)" "(free, n)"] by (simp add: MAX_CONCURRENT_REQUESTS_def)

section \<open>The incremental scan\<close>

text \<open>The same loop with the whole buffer searched after every read.\<close>

fun read_head_full :: "nat list \<Rightarrow> (io_error + nat list) list \<Rightarrow> head_result" where
  "read_head_full buf [] = HeadDeadline"
| "read_head_full buf (Inl e # rs) = HeadFailed e"
| "read_head_full buf (Inr bytes # rs) =
     (if bytes = [] then HeadRead buf
      else if has_terminator (buf @ bytes) \<or> length (buf @ bytes) \<ge> MAX_REQUEST_BYTES then HeadRead (buf @ bytes)
      else read_head_full (buf @ bytes) rs)"

lemma has_terminator_iff: "has_terminator xs \<longleftrightarrow> (\<exists>i. take 4 (drop i xs) = [13, 10, 13, 10])"
proof (induction xs)
  case (Cons x xs)
  have "(\<exists>i. take 4 (drop i (x # xs)) = [13, 10, 13, 10])
      \<longleftrightarrow> take 4 (x # xs) = [13, 10, 13, 10] \<or> (\<exists>i. take 4 (drop i xs) = [13, 10, 13, 10])"
  proof
    assume "\<exists>i. take 4 (drop i (x # xs)) = [13, 10, 13, 10]"
    then obtain i where "take 4 (drop i (x # xs)) = [13, 10, 13, 10]" ..
    then show "take 4 (x # xs) = [13, 10, 13, 10] \<or> (\<exists>i. take 4 (drop i xs) = [13, 10, 13, 10])"
      by (cases i) auto
  next
    assume "take 4 (x # xs) = [13, 10, 13, 10] \<or> (\<exists>i. take 4 (drop i xs) = [13, 10, 13, 10])"
    then show "\<exists>i. take 4 (drop i (x # xs)) = [13, 10, 13, 10]"
      by (metis drop0 drop_Suc_Cons)
  qed
  with Cons show ?case by simp
qed simp

lemma scan_tail_enough:
  assumes "\<not> has_terminator xs"
  shows "has_terminator (drop (length xs - 3) (xs @ ys)) \<longleftrightarrow> has_terminator (xs @ ys)"
proof
  assume "has_terminator (drop (length xs - 3) (xs @ ys))"
  then show "has_terminator (xs @ ys)" unfolding has_terminator_iff by (metis drop_drop)
next
  assume "has_terminator (xs @ ys)"
  then obtain i where i: "take 4 (drop i (xs @ ys)) = [13, 10, 13, 10]" unfolding has_terminator_iff ..
  have "length xs - 3 \<le> i"
  proof (rule ccontr)
    assume "\<not> length xs - 3 \<le> i"
    then have "take 4 (drop i (xs @ ys)) = take 4 (drop i xs)" by simp
    with i assms show False unfolding has_terminator_iff by metis
  qed
  then have "drop i (xs @ ys) = drop (i - (length xs - 3)) (drop (length xs - 3) (xs @ ys))" by simp
  with i show "has_terminator (drop (length xs - 3) (xs @ ys))" unfolding has_terminator_iff by metis
qed

lemma read_head_full_eq: "\<not> has_terminator buf \<Longrightarrow> read_head buf (length buf) reads = read_head_full buf reads"
proof (induction reads arbitrary: buf)
  case (Cons r rs)
  show ?case
  proof (cases r)
    case (Inr bytes)
    then show ?thesis
      using Cons.IH [of "buf @ bytes"] scan_tail_enough [OF Cons.prems, of bytes] by (auto simp: Let_def)
  qed simp
qed simp

lemma read_head_full_bound:
  assumes "read_head_full buf reads = HeadRead out" and "length buf < MAX_REQUEST_BYTES"
    and "\<forall>bytes. Inr bytes \<in> set reads \<longrightarrow> length bytes \<le> 1024"
  shows "length out < MAX_REQUEST_BYTES + 1024"
  using assms
proof (induction reads arbitrary: buf)
  case (Cons r rs)
  show ?case
  proof (cases r)
    case (Inr bytes)
    then have "length bytes \<le> 1024" using Cons.prems(3) by simp
    then show ?thesis using Cons Inr by (auto simp: not_le split: if_splits)
  qed (use Cons in simp)
qed simp

text \<open>
  C26. Searching only the end of the buffer is enough. For every sequence of reads, however the
  terminator is split between them, the incremental scan of the request reader gives the same
  result as searching the whole buffer after each read, and with reads of at most 1024 bytes
  it never keeps more than 9215 bytes of a request.\<close>
theorem incremental_scan_exact:
  "read_head [] 0 reads = read_head_full [] reads
   \<and> ((\<forall>bytes. Inr bytes \<in> set reads \<longrightarrow> length bytes \<le> 1024)
      \<longrightarrow> (\<forall>buf. read_head [] 0 reads = HeadRead buf \<longrightarrow> length buf < 9216))"
proof -
  have eq: "read_head [] 0 reads = read_head_full [] reads" using read_head_full_eq [of "[]" reads] by simp
  moreover have "length buf < 9216"
    if "\<forall>bytes. Inr bytes \<in> set reads \<longrightarrow> length bytes \<le> 1024" "read_head [] 0 reads = HeadRead buf" for buf
    using read_head_full_bound [of "[]" reads buf] that eq by (simp add: MAX_REQUEST_BYTES_def)
  ultimately show ?thesis by blast
qed

theorem incremental_scan_exact_witness:
  "read_head [] 0 [Inr [71, 13, 10], Inr [13], Inr [10]] = HeadRead [71, 13, 10, 13, 10]
   \<and> length [71, 13, 10, 13, 10 :: nat] < 9216"
proof -
  have r: "read_head [] 0 [Inr [71, 13, 10], Inr [13], Inr [10]] = HeadRead [71, 13, 10, 13, 10]"
    by (simp add: MAX_REQUEST_BYTES_def)
  have "\<forall>bytes. Inr bytes \<in> set [Inr [71, 13, 10], Inr [13], Inr [10 :: nat] :: io_error + nat list] \<longrightarrow> length bytes \<le> 1024"
    by auto
  with r incremental_scan_exact [of "[Inr [71, 13, 10], Inr [13], Inr [10]]"] show ?thesis by blast
qed

section \<open>Health\<close>

lemma as_bytes_append: "as_bytes (a @ b) = as_bytes a @ as_bytes b"
  by (simp add: as_bytes_def)

lemma as_bytes_ascii: "\<forall>c \<in> set s. c < 128 \<Longrightarrow> as_bytes s = s"
  by (induction s) (simp_all add: as_bytes_def)

lemma lossy_ascii: "\<forall>c \<in> set s. c < 128 \<Longrightarrow> from_utf8_lossy (s @ bs) = s @ from_utf8_lossy bs"
  by (induction s) (simp_all add: decode_front_def seq_len_def)

lemma lossy_response:
  "\<forall>c \<in> set s. c < 128 \<Longrightarrow> from_utf8_lossy (as_bytes (s @ t)) = s @ from_utf8_lossy (as_bytes t)"
  by (simp add: as_bytes_append as_bytes_ascii lossy_ascii)

lemma health_prefix:
  "starts_with (lit ''HTTP/1.1 200 OK'') (from_utf8_lossy (as_bytes (render_health snaps)))
   \<longleftrightarrow> (\<forall>s \<in> set snaps. sn_listening s)"
proof -
  have ok: "from_utf8_lossy (as_bytes (http_response (lit ''200 OK'') ct body))
      = lit ''HTTP/1.1 200 OK'' @ from_utf8_lossy (as_bytes (drop 15 (http_response (lit ''200 OK'') ct body)))" for ct body
    using lossy_response [of "lit ''HTTP/1.1 200 OK''" "drop 15 (http_response (lit ''200 OK'') ct body)"]
    by (simp add: http_response_def)
  have bad: "from_utf8_lossy (as_bytes (http_response (lit ''503 Service Unavailable'') ct body))
      = lit ''HTTP/1.1 503 Se'' @ from_utf8_lossy (as_bytes (drop 15 (http_response (lit ''503 Service Unavailable'') ct body)))"
    for ct body
    using lossy_response [of "lit ''HTTP/1.1 503 Se''" "drop 15 (http_response (lit ''503 Service Unavailable'') ct body)"]
    by (simp add: http_response_def)
  have unbound: "map sn_label (filter (\<lambda>s. \<not> sn_listening s) snaps) = [] \<longleftrightarrow> (\<forall>s \<in> set snaps. sn_listening s)"
    by (simp add: filter_empty_conv)
  show ?thesis
    unfolding render_health_def Let_def unbound
    by (simp only: ok bad if_distrib [of as_bytes] if_distrib [of from_utf8_lossy]) (simp add: starts_with_def)
qed

lemma probe_routed: "route reg counters (parse_request_target (from_utf8_lossy probe_request)) = render_health (collect reg)"
proof -
  let ?req = "lit ''GET / HTTP/1.1'' @ crlf @ lit ''Host: localhost'' @ crlf @ lit ''Connection: close'' @ crlf @ crlf"
  have "from_utf8_lossy (as_bytes (?req @ [])) = ?req @ from_utf8_lossy (as_bytes [])"
    by (rule lossy_response) (simp add: crlf_def)
  then have "from_utf8_lossy probe_request = ?req" by (simp add: probe_request_def as_bytes_def)
  moreover have "parse_request_target ?req = Some (lit ''/'')"
    by (simp add: parse_request_target_def first_line_def crlf_def is_whitespace_def)
  ultimately show ?thesis by (simp add: route_def)
qed

lemma probe_read: "read_head [] 0 [Inr probe_request] = HeadRead probe_request"
  by (simp add: probe_request_def as_bytes_ascii crlf_def)

lemma probe_answered:
  "handle_conn reg counters [Inr probe_request] = Inr (Some (as_bytes (render_health (collect reg))))"
  unfolding handle_conn_def probe_read by (simp add: probe_routed)

text \<open>
  C24. The health check and the endpoint agree. When \<open>rfw --health-check\<close> probes an instance
  over a connection that delivers its bytes, it reports healthy exactly when every registered
  forwarder of that instance has its listener bound; the request it sends is the one the
  endpoint routes to the health verdict, and no label, however odd, can make a degraded
  instance look healthy.\<close>
theorem health_check_exact:
  assumes "parse_socket_addr addr = Some sa"
    and "handle_conn reg counters [Inr probe_request] = Inr (Some response)"
    and "connect sa probe_request = ProbeBytes response"
  shows "health_check connect addr = Inr () \<longleftrightarrow> (\<forall>s \<in> set reg. sx_listening s)"
proof -
  have "response = as_bytes (render_health (collect reg))"
    using assms(2) unfolding probe_answered by simp
  then have "starts_with (lit ''HTTP/1.1 200 OK'') (from_utf8_lossy response) \<longleftrightarrow> (\<forall>s \<in> set (collect reg). sn_listening s)"
    by (simp only: health_prefix)
  then show ?thesis using assms(1,3) by (auto simp: health_check_def collect_def snapshot_def Let_def)
qed

theorem health_check_exact_witness:
  "health_check (\<lambda>sa req. ProbeBytes (as_bytes (render_health (collect [with_protocol (lit ''a'') Tcp 0]))))
     (show_socket_addr (SocketAddr (V4 0x7F000001) 9100)) \<noteq> Inr ()"
proof -
  let ?reg = "[with_protocol (lit ''a'') Tcp 0]"
  have h: "handle_conn ?reg (counters_new False) [Inr probe_request] = Inr (Some (as_bytes (render_health (collect ?reg))))"
    by (rule probe_answered)
  have "\<not> (\<forall>s \<in> set ?reg. sx_listening s)" by (simp add: with_protocol_def)
  with health_check_exact [OF parse_socket_addr_show h,
      of "\<lambda>sa req. ProbeBytes (as_bytes (render_health (collect ?reg)))", OF refl] show ?thesis by blast
qed

section \<open>Labels in the renderings\<close>

text \<open>What a JSON parser reads back from the inside of a string literal.\<close>

definition hex_value :: "nat \<Rightarrow> nat option" where
  "hex_value c =
     (if 48 \<le> c \<and> c \<le> 57 then Some (c - 48) else if 97 \<le> c \<and> c \<le> 102 then Some (c - 87) else None)"

fun json_unescape :: "rstr \<Rightarrow> rstr option" where
  "json_unescape [] = Some []"
| "json_unescape (c # cs) =
     (if c = 34 \<or> c < 32 then None
      else if c \<noteq> 92 then map_option ((#) c) (json_unescape cs)
      else case cs of
             [] \<Rightarrow> None
           | d # ds \<Rightarrow>
               if d = 92 then map_option ((#) 92) (json_unescape ds)
               else if d = 34 then map_option ((#) 34) (json_unescape ds)
               else if d = 110 then map_option ((#) 10) (json_unescape ds)
               else if d = 114 then map_option ((#) 13) (json_unescape ds)
               else if d = 116 then map_option ((#) 9) (json_unescape ds)
               else if d = 117
               then (case ds of
                       h1 # h2 # h3 # h4 # es \<Rightarrow>
                         (case (hex_value h1, hex_value h2, hex_value h3, hex_value h4) of
                            (Some a, Some b, Some e, Some f) \<Rightarrow>
                              map_option ((#) (a * 4096 + b * 256 + e * 16 + f)) (json_unescape es)
                          | _ \<Rightarrow> None)
                     | _ \<Rightarrow> None)
               else None)"

lemma hex_value_digit: "n < 16 \<Longrightarrow> hex_value (hex_digit n) = Some n"
  by (auto simp: hex_value_def hex_digit_def)

lemma hex4_parts:
  assumes "c < 160"
  shows "\<exists>h1 h2 h3 h4. hex4 c = [h1, h2, h3, h4] \<and> hex_value h1 = Some 0 \<and> hex_value h2 = Some 0
    \<and> hex_value h3 = Some (c div 16) \<and> hex_value h4 = Some (c mod 16)"
  using assms by (simp add: hex4_def hex_value_digit)

lemma unescape_char: "json_unescape (escape_char c @ s) = map_option ((#) c) (json_unescape s)"
proof (cases "c \<in> {92, 34, 10, 13, 9} \<or> \<not> is_control c")
  case True
  then show ?thesis by (auto simp: escape_char_def is_control_def)
next
  case False
  then have "c < 160" by (auto simp: is_control_def)
  from hex4_parts [OF this] obtain h1 h2 h3 h4 where h: "hex4 c = [h1, h2, h3, h4]" "hex_value h1 = Some 0"
      "hex_value h2 = Some 0" "hex_value h3 = Some (c div 16)" "hex_value h4 = Some (c mod 16)" by blast
  have "c div 16 * 16 + c mod 16 = c" by simp
  with False h show ?thesis by (simp add: escape_char_def)
qed

lemma escape_plain: "\<forall>x \<in> set (escape_char c). \<not> is_control x"
  by (auto simp: escape_char_def is_control_def hex4_def hex_digit_def)

text \<open>
  A label cannot break out of the JSON or of the exposition format. For every label,
  a JSON parser reads exactly the label back from its escaped form; the escaped form has no
  control character, so in the Prometheus text each sample of a family stays on one line of
  its own, whatever the labels contain.\<close>
lemma labels_contained:
  "json_unescape (escape label) = Some label
   \<and> list_all (\<lambda>c. \<not> is_control c) (escape label)
   \<and> split_str 10 (concat (map (\<lambda>s. sample_line (lit ''rfw_active_connections'') (sn_label s) (sn_active_connections s) @ [10]) snaps))
       = map (\<lambda>s. sample_line (lit ''rfw_active_connections'') (sn_label s) (sn_active_connections s)) snaps @ [[]]"
proof -
  have "json_unescape (escape label) = Some label"
    by (induction label) (simp_all add: escape_def unescape_char)
  moreover have plain: "list_all (\<lambda>c. \<not> is_control c) (escape l)" for l
    using escape_plain by (auto simp: list_all_iff escape_def)
  moreover have "10 \<notin> set (sample_line (lit ''rfw_active_connections'') l v)" for l v
  proof -
    have "10 \<notin> set (escape l)" using plain [of l] by (auto simp: list_all_iff is_control_def)
    moreover have "10 \<notin> set (show_nat (unat v))" by (simp add: show_nat_notin is_ascii_digit_def)
    ultimately show ?thesis by (simp add: sample_line_def)
  qed
  then have "split_str 10 (concat (map (\<lambda>s. sample_line (lit ''rfw_active_connections'') (sn_label s) (sn_active_connections s) @ [10]) snaps))
       = map (\<lambda>s. sample_line (lit ''rfw_active_connections'') (sn_label s) (sn_active_connections s)) snaps @ [[]]"
    by (induction snaps) (simp_all add: split_str_append)
  ultimately show ?thesis by blast
qed

text \<open>
  The exposition format knows three escapes in a label value: a backslash, a quote and a line
  feed. A tab in a label is written with the JSON escape, which is not one of them.
\<close>

lemma tab_uses_json_escape: "escape [9] = [92, 116]"
  by (simp add: escape_def escape_char_def)

end
