(* ===== verification/Startup.thy ===== *)
theory Startup
  imports Manager Fd_Limits Metrics
begin

text \<open>
  The program as a whole (\<open>src/src/main.rs\<close>): the order in which the components are brought
  up, what makes startup fail, and the shutdown sequence. The background tasks that
  follow, the signal and the shutdown as a machine are in \<open>Program\<close>.
\<close>

datatype run_error = RunConfig config_error | RunNoForwarders | RunWebhook url_error | RunClient rstr | RunResolver rstr
  | RunLogging rstr

text \<open>What startup takes from outside.\<close>

record 'u start_env =
  se_load :: load_env
  se_url :: "'u url_lib"
  se_http_client :: "rstr + unit"
  se_create_dir :: "rstr \<Rightarrow> rstr + unit"
  se_builder :: "rstr + unit"
  se_rlimit :: rlimit_calls

definition build_notifier :: "'u start_env \<Rightarrow> settings \<Rightarrow> run_error + alerting" where
  "build_notifier env s =
     (case st_webhook_url s of
        Some url \<Rightarrow>
          and_then (map_err RunWebhook (validate_webhook_url (se_url env) url)) (\<lambda>_.
          and_then (map_err RunClient (se_http_client env)) (\<lambda>_. Inr notifier_start))
      | None \<Rightarrow> Inr notifier_disabled)"

definition run_start :: "'u start_env \<Rightarrow> cli_args \<Rightarrow> instant \<Rightarrow> rlimit
    \<Rightarrow> run_error + (manager \<times> forwarder_source \<times> settings \<times> rlimit)" where
  "run_start env cli now rl =
     and_then (map_err RunConfig (load_forwarders_with_source (se_load env) cli)) (\<lambda>(forwarders, source).
     and_then (map_err RunConfig (load_settings (se_load env) (se_url env) cli)) (\<lambda>settings.
     if forwarders = [] then Inl RunNoForwarders
     else
       let rl1 = snd (raise_soft_limit (se_rlimit env) (st_max_connections settings) (st_use_splice settings) rl)
       in and_then (build_notifier env settings) (\<lambda>notifier.
          let rl2 = (if list_ex (\<lambda>f. fc_protocol f = Udp) forwarders
                     then snd (ensure_fd_budget (se_rlimit env) (st_udp_max_sessions settings) rl1) else rl1)
          in and_then (map_err RunResolver (manager_new (se_builder env) settings notifier)) (\<lambda>m.
             Inr (start_all now forwarders m, source, settings, rl2)))))"

text \<open>
  \<open>logging::setup\<close>: whether a log file is written, and when that fails. \<open>create\<close> is what
  creating the directory answers.
\<close>

definition logging_setup :: "(rstr \<Rightarrow> rstr + unit) \<Rightarrow> rstr \<Rightarrow> rstr + bool" where
  "logging_setup create log_dir =
     (if log_dir = [] then Inr False
      else map_err (\<lambda>e. lit ''cannot create log directory '' @ log_dir @ lit '': '' @ e
                        @ lit '' (use --log-dir \"\" to log to the console only)'')
             (map_ok (\<lambda>_. True) (create log_dir)))"

text \<open>Health-check mode runs before everything else and never touches the log directory.\<close>

datatype 'a run_mode = RunHealth "health_error + unit" | RunForwarder 'a

definition run :: "(socket_addr \<Rightarrow> nat list \<Rightarrow> probe_answer) \<Rightarrow> 'u start_env \<Rightarrow> cli_args
    \<Rightarrow> instant \<Rightarrow> rlimit \<Rightarrow> (run_error + (manager \<times> forwarder_source \<times> settings \<times> rlimit)) run_mode" where
  "run connect env cli now rl =
     (case cli_health_check cli of
        Some addr \<Rightarrow> RunHealth (health_check connect addr)
      | None \<Rightarrow>
          RunForwarder (and_then (map_err RunLogging (logging_setup (se_create_dir env) (cli_log_dir cli))) (\<lambda>_.
            run_start env cli now rl)))"

text \<open>The connections the shutdown message counts: only TCP connections are drained.\<close>

definition draining_connections :: "registry \<Rightarrow> u64" where
  "draining_connections reg =
     sum_list (map sn_active_connections (filter (\<lambda>s. sn_protocol s = Tcp) (collect reg)))"

definition run_stop :: "rstr \<Rightarrow> (rstr \<Rightarrow> join_outcome) \<Rightarrow> manager \<Rightarrow> manager" where
  "run_stop signal wait m =
     shutdown_all wait
       (m\<lparr>mg_alerts := notify (Stopping signal (draining_connections (mg_registry m))) (mg_alerts m)\<rparr>)"

section \<open>Starting\<close>

lemma start_all_ops: "start_all now cfgs m = fold (run_op wait now) (map StartOp cfgs) m"
  by (induction cfgs arbitrary: m) (simp_all add: start_all_def)

lemma start_all_serves:
  assumes "manager_ok m" and "serving m = []"
  shows "manager_ok (start_all now cfgs m)" "serving (start_all now cfgs m) = first_by_label cfgs"
proof -
  show "manager_ok (start_all now cfgs m)"
    unfolding start_all_ops [of now cfgs m "\<lambda>_. JoinOk"] by (rule run_ops_ok [OF assms(1)])
  have "running_labels m = []" using serving_labels [OF assms(1)] assms(2) by simp
  then show "serving (start_all now cfgs m) = first_by_label cfgs" by (simp add: start_all_def serving_starts assms(2))
qed

lemma run_start_Inr:
  assumes "run_start env cli now rl = Inr (m, source, settings, rl')"
  obtains fwds m0 al rl1 where
    "load_forwarders_with_source (se_load env) cli = Inr (fwds, source)" "fwds \<noteq> []"
    "load_settings (se_load env) (se_url env) cli = Inr settings"
    "rl1 = snd (raise_soft_limit (se_rlimit env) (st_max_connections settings) (st_use_splice settings) rl)"
    "rl' = (if list_ex (\<lambda>f. fc_protocol f = Udp) fwds
            then snd (ensure_fd_budget (se_rlimit env) (st_udp_max_sessions settings) rl1) else rl1)"
    "manager_new (se_builder env) settings al = Inr m0" "m = start_all now fwds m0"
  using assms
  by (fastforce simp: run_start_def and_then_Inr Let_def split: if_splits)

lemma run_start_limits:
  assumes "rlim_cur rl \<le> rlim_max rl"
    and "rl1 = snd (raise_soft_limit rc mx sp rl)"
    and "rl' = (if P then snd (ensure_fd_budget rc n rl1) else rl1)"
  shows "rlim_cur rl \<le> rlim_cur rl' \<and> rlim_cur rl' \<le> rlim_max rl"
proof -
  have "raise_soft_limit rc mx sp rl = (fst (raise_soft_limit rc mx sp rl), rl1)" using assms(2) by simp
  note r = raise_soft_limit_grows [OF assms(1) this]
  then have "rlim_cur rl1 \<le> rlim_max rl1" by blast
  with r show ?thesis
    using assms(3) ensure_fd_budget_grows [of rl1 rc n "fst (ensure_fd_budget rc n rl1)" "snd (ensure_fd_budget rc n rl1)"]
    by (auto intro: order_trans)
qed

lemma load_settings_valid:
  "load_settings le lib cli = Inr s \<Longrightarrow> validate lib s = Inr ()"
  by (auto simp: load_settings_def and_then_Inr Let_def)

lemma loaded_no_duplicates:
  "load_forwarders_with_source le cli = Inr (fwds, source) \<Longrightarrow> distinct (map endpoint fwds)"
  by (auto simp: load_forwarders_with_source_def and_then_Inr Let_def validate_no_duplicates_unit split: if_splits)

lemma conn_limit_exact: "validate lib s = Inr u \<Longrightarrow> conn_limit_of s = st_max_connections s"
  by (auto simp: validate_def conn_limit_of_def split: if_splits option.splits)

lemma udp_limit_exact:
  "validate lib s = Inr u \<Longrightarrow> clamp_nat 1 MAX_UDP_SESSIONS (st_udp_max_sessions s) = st_udp_max_sessions s"
  by (auto simp: validate_def clamp_nat_def split: if_splits)

section \<open>A sample configuration\<close>

definition sample_env :: "rstr start_env" where
  "sample_env =
     \<lparr>se_load = \<lparr>le_read = (\<lambda>p. Inr []), le_yaml = (\<lambda>c. Inr ([sample_raw], settings_default)), le_vars = []\<rparr>,
      se_url = sample_url_lib, se_http_client = Inr (), se_create_dir = (\<lambda>_. Inr ()), se_builder = Inr (),
      se_rlimit = \<lparr>rc_get = True, rc_set = (\<lambda>_. True)\<rparr>\<rparr>"

definition sample_cli :: cli_args where
  "sample_cli = cli_default\<lparr>cli_config_file := Some (lit ''rfw.yml'')\<rparr>"

lemma sample_into_spec: "into_spec sample_raw = Inr sample_spec"
  by (simp add: sample_raw_def sample_spec_def into_spec_def Let_def ps_range_Inr fs_new_Inr and_then_Inr ps_len_def
      MAX_RANGE_PORTS_def)

lemma sample_endpoints: "distinct (map endpoint (fs_expand sample_spec))"
  by (simp add: endpoints_fs_expand wf_sample_spec spec_keys_def distinct_map inj_on_def)

lemma sample_loads:
  "load_yaml_config (se_load sample_env) path = Inr \<lparr>cf_forwarders = fs_expand sample_spec, cf_settings = settings_default\<rparr>"
  "load_forwarders_with_source (se_load sample_env) sample_cli = Inr (fs_expand sample_spec, SrcFile)"
  "load_settings (se_load sample_env) (se_url sample_env) sample_cli = Inr settings_default"
proof -
  have expand: "expand_specs [sample_spec] = Inr (fs_expand sample_spec)" "expand_specs [] = Inr []"
    by (simp_all add: expand_specs_Inr spec_keys_def distinct_map inj_on_def)
  have nodup: "validate_no_duplicates (fs_expand sample_spec) = Inr ()"
    by (simp add: validate_no_duplicates_unit sample_endpoints)
  show yaml: "load_yaml_config (se_load sample_env) path = Inr \<lparr>cf_forwarders = fs_expand sample_spec, cf_settings = settings_default\<rparr>" for path
    by (simp add: load_yaml_config_def sample_env_def parse_config_file_def deserialize_forwarders_def sample_into_spec
        expand nodup)
  have vars: "load_env_forwarders (le_vars (se_load sample_env)) = Inr []"
    by (simp add: load_env_forwarders_def sample_env_def expand)
  show "load_forwarders_with_source (se_load sample_env) sample_cli = Inr (fs_expand sample_spec, SrcFile)"
    by (simp add: load_forwarders_with_source_def load_yaml_forwarders_def yaml vars nodup)
      (simp add: sample_cli_def cli_default_def load_yaml_forwarders_def yaml vars nodup)
  have "apply_cli_overrides settings_default sample_cli = settings_default"
    by (simp add: apply_cli_overrides_def sample_cli_def cli_default_def override_def override_opt_def)
  then show "load_settings (se_load sample_env) (se_url sample_env) sample_cli = Inr settings_default"
    by (simp add: load_settings_def Let_def)
      (simp add: sample_env_def sample_cli_def cli_default_def parse_config_file_def deserialize_forwarders_def
        sample_into_spec expand default_settings_validate)
qed

lemma sample_plain: "list_all hosts_plain (fs_expand sample_spec)"
  by (auto simp: list_all_iff fs_expand_def hosts_plain_def sample_spec_def Let_def)

lemma sample_starts:
  "\<exists>m rl'. run_start sample_env sample_cli 0 \<lparr>rlim_cur = 1024, rlim_max = 4096\<rparr> = Inr (m, SrcFile, settings_default, rl')"
proof -
  have "fs_expand sample_spec \<noteq> []" by (simp add: fs_expand_def sample_spec_def ps_len_def)
  moreover have "build_notifier sample_env settings_default = Inr notifier_disabled"
    by (simp add: build_notifier_def settings_default_def)
  moreover have "\<exists>m. manager_new (se_builder sample_env) settings_default notifier_disabled = Inr m"
    by (simp add: manager_new_def sample_env_def)
  ultimately show ?thesis by (auto simp: run_start_def sample_loads Let_def)
qed

end
