(* ===== verification/Reload.thy ===== *)
theory Reload
  imports Manager "HOL-Library.List_Lexorder"
begin

text \<open>
  Hot reload (\<open>watch_config_file\<close> in \<open>src/src/manager.rs\<close>): arming the file watcher, the
  filter on its events, the debounce, and one reload. The watcher is a machine over a file
  whose successive contents are numbered by their saves. The file-system library and the clock
  are parameters. \<open>reload\<close> is a reload that nothing disturbs; \<open>Program\<close> has its steps.
\<close>

section \<open>Events\<close>

datatype fs_kind = FsAny | FsAccess | FsCreate | FsModify | FsRemove | FsOther

definition is_relevant_config_event :: "fs_kind \<Rightarrow> bool" where
  "is_relevant_config_event kind \<longleftrightarrow> kind \<in> {FsModify, FsCreate, FsRemove}"

definition watched_path_matches_event_path :: "(rstr \<Rightarrow> rstr option) \<Rightarrow> rstr \<Rightarrow> rstr \<Rightarrow> bool" where
  "watched_path_matches_event_path canonicalize watched ev \<longleftrightarrow>
     ev = watched \<or> (case canonicalize ev of Some c \<Rightarrow> c = watched | None \<Rightarrow> False)"

text \<open>The watcher's callback: a matching event leaves one token in the channel of depth one.\<close>

definition on_fs_event :: "(rstr \<Rightarrow> rstr option) \<Rightarrow> rstr \<Rightarrow> (fs_kind \<times> rstr list) option \<Rightarrow> bool \<Rightarrow> bool" where
  "on_fs_event canonicalize watched ev token =
     (case ev of
        None \<Rightarrow> token
      | Some (kind, paths) \<Rightarrow>
          if \<not> is_relevant_config_event kind then token
          else if list_ex (watched_path_matches_event_path canonicalize watched) paths then True else token)"

definition RELOAD_DEBOUNCE :: duration where "RELOAD_DEBOUNCE = from_secs 1"
definition RELOAD_SETTLE_DELAY :: duration where "RELOAD_SETTLE_DELAY = from_millis 200"

definition should_debounce_reload :: "instant option \<Rightarrow> instant \<Rightarrow> duration \<Rightarrow> bool" where
  "should_debounce_reload last_reload now window =
     (case last_reload of Some previous \<Rightarrow> now - previous < window | None \<Rightarrow> False)"

text \<open>
  How long a signal waits before its reload. The debounce reads the clock twice, and the
  subtraction \<open>RELOAD_DEBOUNCE - since\<close> panics when \<open>since\<close> is larger: \<open>None\<close>.
\<close>

definition reload_wait :: "instant option \<Rightarrow> instant \<Rightarrow> instant \<Rightarrow> duration option" where
  "reload_wait last_reload now1 now2 =
     (if should_debounce_reload last_reload now1 RELOAD_DEBOUNCE
      then (case last_reload of
              Some previous \<Rightarrow>
                (let since = now2 - previous
                 in if since \<le> RELOAD_DEBOUNCE then Some (RELOAD_DEBOUNCE - since + RELOAD_SETTLE_DELAY) else None)
            | None \<Rightarrow> None)
      else Some RELOAD_SETTLE_DELAY)"

section \<open>Arming the watcher\<close>

record watch_setup =
  ws_canonicalize :: "rstr \<Rightarrow> rstr + rstr"
  ws_create :: "rstr + unit"
  ws_parent :: "rstr \<Rightarrow> rstr option"
  ws_watch :: "rstr \<Rightarrow> rstr + unit"

definition watcher_alert :: "rstr \<Rightarrow> alerting \<Rightarrow> alerting" where
  "watcher_alert message al = notify (Internal (lit ''config-watcher'') message) al"

definition watch_start :: "watch_setup \<Rightarrow> rstr \<Rightarrow> alerting \<Rightarrow> rstr option \<times> alerting" where
  "watch_start ws config_path al =
     (case ws_canonicalize ws config_path of
        Inl e \<Rightarrow>
          (None, watcher_alert (lit ''cannot resolve '' @ config_path @ lit '': '' @ e @ lit ''. Hot-reload is disabled'') al)
      | Inr path \<Rightarrow>
          (case ws_create ws of
             Inl e \<Rightarrow>
               (None, watcher_alert (lit ''cannot create the file watcher: '' @ e @ lit ''. Hot-reload is disabled'') al)
           | Inr _ \<Rightarrow>
               (let dir = (case ws_parent ws path of Some d \<Rightarrow> d | None \<Rightarrow> lit ''.'')
                in case ws_watch ws dir of
                     Inl e \<Rightarrow>
                       (None, watcher_alert (lit ''cannot watch '' @ dir @ lit '': '' @ e @ lit ''. Hot-reload is disabled'') al)
                   | Inr _ \<Rightarrow> (Some path, al))))"

definition channel_closed :: "alerting \<Rightarrow> alerting" where
  "channel_closed al =
     watcher_alert (lit ''the file watcher stopped delivering events; hot-reload is no longer active (restart to re-arm)'') al"

section \<open>One reload\<close>

record reload_policy =
  rl_cli :: cli_args
  rl_source :: forwarder_source

text \<open>\<open>show_err\<close> prints the error of a failed load.\<close>

definition reload :: "(config_error \<Rightarrow> rstr) \<Rightarrow> load_env \<Rightarrow> rstr \<Rightarrow> reload_policy \<Rightarrow> (rstr \<Rightarrow> join_outcome) \<Rightarrow> instant
    \<Rightarrow> manager \<Rightarrow> manager" where
  "reload show_err le config_path policy wait now m =
     (case load_yaml_config le config_path of
        Inr loaded \<Rightarrow>
          (let before = running_labels m;
               settings = apply_cli_overrides (cf_settings loaded) (rl_cli policy);
               m1 = update_knobs settings m;
               m2 = (if rl_source policy = SrcFile then sync wait now (cf_forwarders loaded) m1 else m1);
               after = running_labels m2;
               added = sort (filter (\<lambda>l. l \<notin> set before) after);
               removed = sort (filter (\<lambda>l. l \<notin> set after) before)
           in m2\<lparr>mg_alerts := notify (ConfigReloaded (length after) added removed) (mg_alerts m2)\<rparr>)
      | Inl e \<Rightarrow> m\<lparr>mg_alerts := notify (ConfigReloadFailed config_path (show_err e)) (mg_alerts m)\<rparr>)"

section \<open>The watcher as a machine\<close>

text \<open>
  \<open>wt_due\<close> is the time of the reload a taken token is waiting for. \<open>wt_written\<close> counts the
  saves, \<open>wt_unseen\<close> those whose event is still under way, \<open>wt_loaded\<close> is the save the last
  reload saw, \<open>wt_times\<close> lists the reloads, the latest first, and \<open>wt_busy\<close> is set while one of
  them changes the forwarders, which takes as long as their stops take.
\<close>

record watcher =
  wt_clock :: instant
  wt_token :: bool
  wt_due :: "instant option"
  wt_last_reload :: "instant option"
  wt_busy :: bool
  wt_dead :: bool
  wt_written :: nat
  wt_unseen :: nat
  wt_loaded :: nat
  wt_times :: "instant list"

definition watcher_init :: "instant \<Rightarrow> watcher" where
  "watcher_init now =
     \<lparr>wt_clock = now, wt_token = False, wt_due = None, wt_last_reload = None, wt_busy = False, wt_dead = False,
      wt_written = 0, wt_unseen = 0, wt_loaded = 0, wt_times = []\<rparr>"

definition take_token :: "instant \<Rightarrow> instant \<Rightarrow> watcher \<Rightarrow> watcher" where
  "take_token now1 now2 w =
     (case reload_wait (wt_last_reload w) now1 now2 of
        None \<Rightarrow> w\<lparr>wt_clock := now2, wt_token := False, wt_dead := True\<rparr>
      | Some d \<Rightarrow> w\<lparr>wt_clock := now2, wt_token := False, wt_due := Some (now2 + d)\<rparr>)"

text \<open>The waits are over: the channel is drained, the time is noted and the file is read.\<close>

definition begin_reload :: "instant \<Rightarrow> watcher \<Rightarrow> watcher" where
  "begin_reload now w =
     w\<lparr>wt_clock := now, wt_token := False, wt_due := None, wt_last_reload := Some now, wt_loaded := wt_written w,
       wt_times := now # wt_times w, wt_busy := True\<rparr>"

text \<open>
  A save is announced by an event that modifies, creates or removes the watched path; other
  events, about other files or of other kinds, may come at any time.
\<close>

inductive watch_step :: "(rstr \<Rightarrow> rstr option) \<Rightarrow> rstr \<Rightarrow> watcher \<Rightarrow> watcher \<Rightarrow> bool" for canonicalize watched where
  save: "watch_step canonicalize watched w (w\<lparr>wt_written := wt_written w + 1, wt_unseen := wt_unseen w + 1\<rparr>)"
| save_event: "wt_unseen w > 0 \<Longrightarrow> kind \<in> {FsModify, FsCreate, FsRemove} \<Longrightarrow> watched \<in> set paths
    \<Longrightarrow> watch_step canonicalize watched w
          (w\<lparr>wt_unseen := wt_unseen w - 1, wt_token := on_fs_event canonicalize watched (Some (kind, paths)) (wt_token w)\<rparr>)"
| other_event: "watch_step canonicalize watched w (w\<lparr>wt_token := on_fs_event canonicalize watched ev (wt_token w)\<rparr>)"
| signal: "\<not> wt_dead w \<Longrightarrow> \<not> wt_busy w \<Longrightarrow> wt_due w = None \<Longrightarrow> wt_token w \<Longrightarrow> wt_clock w \<le> now1 \<Longrightarrow> now1 \<le> now2
    \<Longrightarrow> watch_step canonicalize watched w (take_token now1 now2 w)"
| reload: "\<not> wt_dead w \<Longrightarrow> \<not> wt_busy w \<Longrightarrow> wt_due w = Some due \<Longrightarrow> due \<le> now \<Longrightarrow> wt_clock w \<le> now
    \<Longrightarrow> watch_step canonicalize watched w (begin_reload now w)"
| reloaded: "wt_busy w \<Longrightarrow> wt_clock w \<le> now \<Longrightarrow> watch_step canonicalize watched w (w\<lparr>wt_busy := False, wt_clock := now\<rparr>)"

section \<open>Reloading implements the abstract manager\<close>

text \<open>
  The manager as its users see it: which configuration is served under each label, and with
  which knobs. A reload replaces both, or neither.
\<close>

definition served :: "manager \<Rightarrow> (rstr \<rightharpoonup> forwarder_config) \<times> runtime_knobs" where
  "served m = (served_by m, mg_knobs m)"

definition spec_reload :: "config_error + config_file \<Rightarrow> reload_policy
    \<Rightarrow> (rstr \<rightharpoonup> forwarder_config) \<times> runtime_knobs \<Rightarrow> (rstr \<rightharpoonup> forwarder_config) \<times> runtime_knobs" where
  "spec_reload r policy s =
     (case (r, s) of
        (Inl e, _) \<Rightarrow> s
      | (Inr cf, (fwds, knobs)) \<Rightarrow>
          (if rl_source policy = SrcFile then spec_sync (cf_forwarders cf) fwds else fwds,
           knobs_update knobs (apply_cli_overrides (cf_settings cf) (rl_cli policy))))"

lemma knobs_run_ops: "mg_knobs (fold (run_op wait now) ops m) = mg_knobs m"
proof (induction ops arbitrary: m)
  case (Cons p ops)
  have "mg_knobs (run_op wait now p m) = mg_knobs m"
    by (cases p) (simp_all add: stop_one_def start_one_def Let_def split: option.split prod.split)
  with Cons show ?case by simp
qed simp

lemma serving_alerts [simp]: "serving (m\<lparr>mg_alerts := al\<rparr>) = serving m" "serving (m\<lparr>mg_knobs := kn\<rparr>) = serving m"
  by (simp_all add: serving_def)

lemma served_by_frame [simp]: "served_by (m\<lparr>mg_alerts := al\<rparr>) = served_by m" "served_by (m\<lparr>mg_knobs := kn\<rparr>) = served_by m"
  by (simp_all add: served_by_def handle_of_def)

lemma manager_ok_frame [simp]:
  "manager_ok (m\<lparr>mg_alerts := al\<rparr>) = manager_ok m" "manager_ok (m\<lparr>mg_knobs := kn\<rparr>) = manager_ok m"
  by (simp_all add: manager_ok_def running_labels_def)

lemma loaded_distinct: "load_yaml_config le path = Inr cf \<Longrightarrow> distinct (map endpoint (cf_forwarders cf))"
  by (auto simp: load_yaml_config_def and_then_Inr validate_no_duplicates_unit)

lemma reload_ok: "manager_ok m \<Longrightarrow> manager_ok (reload show_err le config_path policy wait now m)"
  by (cases "load_yaml_config le config_path") (simp_all add: reload_def Let_def update_knobs_def sync_def run_ops_ok)

text \<open>
  C4. A reload that nothing disturbs implements its specification. A file that cannot be read,
  parsed, expanded or that names an endpoint twice changes neither the forwarders nor the
  knobs. A good file sets the knobs, with the command line on top, and, when the forwarders
  came from the file, makes exactly its labels the served ones: a label that was served before
  keeps its configuration, a new one gets the first configuration of the list that has it.
  Forwarders pinned by the command line or the environment stay as they are. When the labels
  identify the configurations of the running and of the loaded list (they do when no host
  contains \<open>>\<close>), exactly the loaded list is served. The table and the registry agree
  afterwards, so the property holds again at the next reload.\<close>
theorem reload_refines:
  assumes "manager_ok m"
  shows "served (reload show_err le config_path policy wait now m)
       = spec_reload (load_yaml_config le config_path) policy (served m)
     \<and> manager_ok (reload show_err le config_path policy wait now m)
     \<and> (\<forall>cf. load_yaml_config le config_path = Inr cf \<and> rl_source policy = SrcFile
           \<and> inj_on fc_label (set (serving m) \<union> set (cf_forwarders cf))
         \<longrightarrow> set (serving (reload show_err le config_path policy wait now m)) = set (cf_forwarders cf))"
proof (cases "load_yaml_config le config_path")
  case (Inl e)
  with assms(1) show ?thesis by (simp add: reload_def spec_reload_def served_def)
next
  case (Inr cf)
  let ?kn = "knobs_update (mg_knobs m) (apply_cli_overrides (cf_settings cf) (rl_cli policy))"
  have "set (serving (sync wait now (cf_forwarders cf) (m\<lparr>mg_knobs := ?kn\<rparr>))) = set (cf_forwarders cf)"
    if "inj_on fc_label (set (serving m) \<union> set (cf_forwarders cf))"
    using assms that by (intro serving_sync) simp_all
  moreover have "mg_knobs (sync wait now (cf_forwarders cf) (m\<lparr>mg_knobs := ?kn\<rparr>)) = ?kn"
    by (simp add: sync_def knobs_run_ops)
  ultimately show ?thesis
    using Inr reload_ok [OF assms, of show_err le config_path policy wait now]
    by (simp add: reload_def spec_reload_def served_def Let_def update_knobs_def served_sync)
qed

definition sample_file :: load_env where
  "sample_file = \<lparr>le_read = (\<lambda>p. Inr []), le_yaml = (\<lambda>c. Inr ([], settings_default)), le_vars = []\<rparr>"

lemma sample_file_loads: "load_yaml_config sample_file path = Inr \<lparr>cf_forwarders = [], cf_settings = settings_default\<rparr>"
proof -
  have "expand_specs [] = Inr []" "validate_no_duplicates [] = Inr ()"
    by (simp_all add: expand_specs_Inr validate_no_duplicates_unit)
  then show ?thesis
    by (simp add: load_yaml_config_def sample_file_def parse_config_file_def deserialize_forwarders_def)
qed

theorem reload_refines_witness:
  "served (reload (\<lambda>_. []) sample_file [] \<lparr>rl_cli = cli_default, rl_source = SrcFile\<rparr> (\<lambda>_. JoinOk) 1 sample_manager)
     = (Map.empty, knobs_update (mg_knobs sample_manager) (apply_cli_overrides settings_default cli_default))"
  using reload_refines [OF sample_manager_facts(1), of "\<lambda>_. []" sample_file "[]" "\<lparr>rl_cli = cli_default, rl_source = SrcFile\<rparr>" "\<lambda>_. JoinOk" 1]
  by (simp add: sample_file_loads spec_reload_def served_def spec_sync_def)

section \<open>No save is lost\<close>

definition gaps_ok :: "instant list \<Rightarrow> bool" where
  "gaps_ok ts \<longleftrightarrow> (\<forall>i. Suc i < length ts \<longrightarrow> ts ! Suc i + RELOAD_DEBOUNCE + RELOAD_SETTLE_DELAY \<le> ts ! i)"

definition watcher_ok :: "watcher \<Rightarrow> bool" where
  "watcher_ok w \<longleftrightarrow>
     (wt_loaded w = wt_written w \<or> wt_unseen w > 0 \<or> wt_token w \<or> wt_due w \<noteq> None \<or> wt_dead w)
     \<and> wt_last_reload w = (case wt_times w of [] \<Rightarrow> None | t # _ \<Rightarrow> Some t)
     \<and> (\<forall>t. wt_last_reload w = Some t \<longrightarrow> t \<le> wt_clock w
          \<and> (\<forall>due. wt_due w = Some due \<longrightarrow> t + RELOAD_DEBOUNCE + RELOAD_SETTLE_DELAY \<le> due))
     \<and> gaps_ok (wt_times w)"

lemma gaps_ok_Cons:
  "gaps_ok (t # ts) \<longleftrightarrow> gaps_ok ts \<and> (\<forall>u us. ts = u # us \<longrightarrow> u + RELOAD_DEBOUNCE + RELOAD_SETTLE_DELAY \<le> t)"
proof
  assume g: "gaps_ok (t # ts)"
  have "ts ! Suc i + RELOAD_DEBOUNCE + RELOAD_SETTLE_DELAY \<le> ts ! i" if "Suc i < length ts" for i
    using g [unfolded gaps_ok_def, rule_format, of "Suc i"] that by simp
  moreover have "u + RELOAD_DEBOUNCE + RELOAD_SETTLE_DELAY \<le> t" if "ts = u # us" for u us
    using g [unfolded gaps_ok_def, rule_format, of 0] that by simp
  ultimately show "gaps_ok ts \<and> (\<forall>u us. ts = u # us \<longrightarrow> u + RELOAD_DEBOUNCE + RELOAD_SETTLE_DELAY \<le> t)"
    by (simp add: gaps_ok_def)
next
  assume g: "gaps_ok ts \<and> (\<forall>u us. ts = u # us \<longrightarrow> u + RELOAD_DEBOUNCE + RELOAD_SETTLE_DELAY \<le> t)"
  show "gaps_ok (t # ts)"
    unfolding gaps_ok_def
  proof (intro allI impI)
    fix i assume "Suc i < length (t # ts)"
    with g show "(t # ts) ! Suc i + RELOAD_DEBOUNCE + RELOAD_SETTLE_DELAY \<le> (t # ts) ! i"
      by (cases i; cases ts) (auto simp: gaps_ok_def)
  qed
qed

lemma reload_wait_spacing:
  assumes "reload_wait (Some t) now1 now2 = Some d" and "t \<le> now1" and "now1 \<le> now2"
  shows "t + RELOAD_DEBOUNCE + RELOAD_SETTLE_DELAY \<le> now2 + d"
  using assms by (auto simp: reload_wait_def should_debounce_reload_def Let_def split: if_splits)

lemma save_event_passes:
  "kind \<in> {FsModify, FsCreate, FsRemove} \<Longrightarrow> watched \<in> set paths \<Longrightarrow> on_fs_event canonicalize watched (Some (kind, paths)) token"
  by (auto simp: on_fs_event_def is_relevant_config_event_def list_ex_iff watched_path_matches_event_path_def)

lemma token_kept: "token \<Longrightarrow> on_fs_event canonicalize watched ev token"
  by (simp add: on_fs_event_def split: option.split prod.split)

lemma watch_step_ok: "watch_step canonicalize watched w w' \<Longrightarrow> watcher_ok w \<Longrightarrow> watcher_ok w'"
proof (induction rule: watch_step.induct)
  case (save_event w kind paths)
  then show ?case using save_event_passes [OF save_event(2,3)] by (simp add: watcher_ok_def)
next
  case (other_event w ev)
  then show ?case using token_kept [of "wt_token w"] by (auto simp: watcher_ok_def)
next
  case (signal w now1 now2)
  show ?case
  proof (cases "reload_wait (wt_last_reload w) now1 now2")
    case None
    with signal show ?thesis by (auto simp: watcher_ok_def take_token_def intro: le_trans)
  next
    case (Some d)
    have "t + RELOAD_DEBOUNCE + RELOAD_SETTLE_DELAY \<le> now2 + d" if "wt_last_reload w = Some t" for t
      by (rule reload_wait_spacing [of t now1]) (use Some signal that in \<open>auto simp: watcher_ok_def\<close>)
    with Some signal show ?thesis by (fastforce simp: watcher_ok_def take_token_def)
  qed
next
  case (reload w due now)
  have "gaps_ok (now # wt_times w)"
    using reload by (auto simp: watcher_ok_def gaps_ok_Cons)
  with reload show ?case by (auto simp: watcher_ok_def begin_reload_def)
next
  case (reloaded w now)
  then show ?case by (auto simp: watcher_ok_def intro: le_trans)
qed (auto simp: watcher_ok_def)

lemma watcher_reachable: "(watch_step canonicalize watched)\<^sup>*\<^sup>* (watcher_init now) w \<Longrightarrow> watcher_ok w"
proof (induction rule: rtranclp_induct)
  case base
  show ?case by (simp add: watcher_ok_def watcher_init_def gaps_ok_def)
next
  case (step v w)
  then show ?case using watch_step_ok by blast
qed

text \<open>
  C18. No save of the configuration file is lost, and reloads are rate limited. In every run
  of the watcher up to its cancellation, however long its reloads take, a save that the running
  configuration does not yet reflect still has its event under way, its token in the channel or
  its reload scheduled, unless the watcher task has panicked; so once the watcher is idle the
  last save is the one that was loaded. Two reloads are never closer than 1.2 seconds.\<close>
theorem no_save_lost:
  assumes "(watch_step canonicalize watched)\<^sup>*\<^sup>* (watcher_init now) w"
  shows "(wt_unseen w = 0 \<and> \<not> wt_token w \<and> wt_due w = None \<and> \<not> wt_dead w \<longrightarrow> wt_loaded w = wt_written w)
     \<and> (\<forall>i. Suc i < length (wt_times w) \<longrightarrow> wt_times w ! Suc i + from_millis 1200 \<le> wt_times w ! i)"
proof -
  have "RELOAD_DEBOUNCE + RELOAD_SETTLE_DELAY = from_millis 1200"
    by (simp add: RELOAD_DEBOUNCE_def RELOAD_SETTLE_DELAY_def from_millis_def from_secs_def)
  with watcher_reachable [OF assms] show ?thesis by (auto simp: watcher_ok_def gaps_ok_def add.assoc)
qed

text \<open>A first save is loaded 200 ms after its event.\<close>

definition watch_path :: rstr where "watch_path = lit ''/etc/rfw.yml''"

definition saved :: "watcher \<Rightarrow> watcher" where
  "saved w = w\<lparr>wt_written := wt_written w + 1, wt_token := True\<rparr>"

lemma run_save: "(watch_step canonicalize watched)\<^sup>*\<^sup>* w (saved w)"
proof -
  let ?w1 = "w\<lparr>wt_written := wt_written w + 1, wt_unseen := wt_unseen w + 1\<rparr>"
  have "watch_step canonicalize watched ?w1 (?w1\<lparr>wt_unseen := wt_unseen ?w1 - 1,
      wt_token := on_fs_event canonicalize watched (Some (FsModify, [watched])) (wt_token ?w1)\<rparr>)"
    by (rule watch_step.save_event) simp_all
  moreover have "on_fs_event canonicalize watched (Some (FsModify, [watched])) (wt_token ?w1)" by (rule save_event_passes) simp_all
  ultimately have "watch_step canonicalize watched ?w1 (saved w)" by (simp add: saved_def)
  with watch_step.save show ?thesis by (meson converse_rtranclp_into_rtranclp r_into_rtranclp)
qed

definition first_reload :: watcher where
  "first_reload = begin_reload RELOAD_SETTLE_DELAY (take_token 0 0 (saved (watcher_init 0)))"

lemma run_first_reload: "(watch_step canonicalize watched)\<^sup>*\<^sup>* (watcher_init 0) first_reload"
proof -
  let ?w1 = "saved (watcher_init 0)" and ?w2 = "take_token 0 0 (saved (watcher_init 0))"
  have "watch_step canonicalize watched ?w1 ?w2" by (rule watch_step.signal) (simp_all add: saved_def watcher_init_def)
  moreover have "watch_step canonicalize watched ?w2 first_reload" unfolding first_reload_def
    by (rule watch_step.reload [where due = RELOAD_SETTLE_DELAY])
      (simp_all add: take_token_def reload_wait_def should_debounce_reload_def saved_def watcher_init_def)
  ultimately show ?thesis by (meson run_save rtranclp.rtrancl_into_rtrancl)
qed

lemma first_reload_fields:
  "wt_unseen first_reload = 0" "\<not> wt_token first_reload" "wt_due first_reload = None" "\<not> wt_dead first_reload" "wt_busy first_reload"
  "wt_written first_reload = 1" "wt_times first_reload = [RELOAD_SETTLE_DELAY]" "wt_last_reload first_reload = Some RELOAD_SETTLE_DELAY"
  "wt_clock first_reload = RELOAD_SETTLE_DELAY"
  by (simp_all add: first_reload_def begin_reload_def take_token_def reload_wait_def should_debounce_reload_def saved_def watcher_init_def)

theorem no_save_lost_witness:
  "wt_written first_reload = 1 \<and> wt_loaded first_reload = 1 \<and> wt_times first_reload = [RELOAD_SETTLE_DELAY]"
  using no_save_lost [OF run_first_reload] first_reload_fields by simp

section \<open>When the watcher panics\<close>

lemma reload_wait_None:
  "reload_wait last_reload now1 now2 = None \<longleftrightarrow> (\<exists>t. last_reload = Some t \<and> now1 - t < from_secs 1 \<and> from_secs 1 < now2 - t)"
  by (auto simp: reload_wait_def should_debounce_reload_def RELOAD_DEBOUNCE_def Let_def split: option.split)

lemma dead_step:
  assumes "watch_step canonicalize watched w w'" and "wt_dead w \<and> \<not> wt_busy w"
  shows "wt_dead w' \<and> \<not> wt_busy w' \<and> wt_loaded w' = wt_loaded w \<and> wt_times w' = wt_times w \<and> wt_written w \<le> wt_written w'"
  using assms by (induction rule: watch_step.induct) auto

lemma dead_run:
  "(watch_step canonicalize watched)\<^sup>*\<^sup>* w w' \<Longrightarrow> wt_dead w \<and> \<not> wt_busy w \<Longrightarrow>
   wt_dead w' \<and> \<not> wt_busy w' \<and> wt_loaded w' = wt_loaded w \<and> wt_times w' = wt_times w \<and> wt_written w \<le> wt_written w'"
proof (induction rule: rtranclp_induct)
  case (step y z)
  then show ?case using dead_step [OF step(2)] by auto
qed simp

text \<open>
  C37. The debounce can end hot reload for good. It reads the clock twice, and the task panics when
  the one-second window since the last reload is still open at the first reading and over at the
  second, because the elapsed time is subtracted from the window: this is the only step at which
  it can happen, with a save waiting to be loaded. From then on no file is ever loaded again,
  whatever is saved: the save that was waiting, and every later one, is lost.\<close>
theorem debounce_panic_disables_reload:
  assumes "(watch_step canonicalize watched)\<^sup>*\<^sup>* (watcher_init now) w" and "watch_step canonicalize watched w w'"
    and "\<not> wt_dead w" and "wt_dead w'"
  shows "wt_token w \<and> (\<exists>t now1 now2. wt_last_reload w = Some t \<and> t \<le> now1 \<and> now1 \<le> now2
         \<and> now1 - t < from_secs 1 \<and> from_secs 1 < now2 - t)
     \<and> (\<forall>w''. (watch_step canonicalize watched)\<^sup>*\<^sup>* w' w'' \<longrightarrow> wt_dead w'' \<and> wt_loaded w'' = wt_loaded w' \<and> wt_times w'' = wt_times w')"
  using assms(2)
proof cases
  case (signal now1 now2)
  then have "reload_wait (wt_last_reload w) now1 now2 = None" "\<not> wt_busy w'"
    using assms(3,4) by (auto simp: take_token_def split: option.splits)
  then obtain t where t: "wt_last_reload w = Some t" "now1 - t < from_secs 1" "from_secs 1 < now2 - t" by (auto simp: reload_wait_None)
  then have "t \<le> now1" using watcher_reachable [OF assms(1)] signal by (auto simp: watcher_ok_def)
  with t signal \<open>\<not> wt_busy w'\<close> assms(4) show ?thesis using dead_run [of canonicalize watched w'] by blast
qed (use assms(3,4) in \<open>auto simp: begin_reload_def\<close>)

text \<open>A second save is taken around the end of the window: neither it nor a third one is loaded.\<close>

definition panicked :: watcher where
  "panicked =
     take_token (RELOAD_SETTLE_DELAY + from_millis 999) (RELOAD_SETTLE_DELAY + from_millis 1001)
       (saved (first_reload\<lparr>wt_busy := False, wt_clock := RELOAD_SETTLE_DELAY\<rparr>))"

theorem debounce_panic_disables_reload_witness:
  "(watch_step Some watch_path)\<^sup>*\<^sup>* (watcher_init 0) panicked \<and> (watch_step Some watch_path)\<^sup>*\<^sup>* panicked (saved panicked)
   \<and> wt_dead (saved panicked) \<and> wt_written (saved panicked) = 3 \<and> wt_loaded (saved panicked) = 1"
proof -
  let ?w1 = "first_reload\<lparr>wt_busy := False, wt_clock := RELOAD_SETTLE_DELAY\<rparr>"
  note f = first_reload_fields
  have "watch_step Some watch_path first_reload ?w1" by (rule watch_step.reloaded) (simp_all add: f)
  then have run: "(watch_step Some watch_path)\<^sup>*\<^sup>* (watcher_init 0) (saved ?w1)"
    using run_first_reload run_save by (meson rtranclp.rtrancl_into_rtrancl rtranclp_trans)
  have step: "watch_step Some watch_path (saved ?w1) panicked" unfolding panicked_def
    by (rule watch_step.signal) (simp_all add: saved_def f from_millis_def)
  have "reload_wait (Some RELOAD_SETTLE_DELAY) (RELOAD_SETTLE_DELAY + from_millis 999) (RELOAD_SETTLE_DELAY + from_millis 1001) = None"
    by (simp add: reload_wait_None from_millis_def from_secs_def)
  then have p: "wt_dead panicked" "wt_loaded panicked = wt_loaded first_reload" "wt_written panicked = 2"
    by (simp_all add: panicked_def take_token_def saved_def f)
  have loaded: "wt_loaded first_reload = 1" by (simp add: first_reload_def begin_reload_def take_token_def reload_wait_def should_debounce_reload_def saved_def watcher_init_def)
  have later: "(watch_step Some watch_path)\<^sup>*\<^sup>* panicked (saved panicked)" by (rule run_save)
  have alive: "\<not> wt_dead (saved ?w1)" and written: "wt_written (saved panicked) = 3" using p(3) by (simp_all add: saved_def f)
  have "wt_dead (saved panicked) \<and> wt_loaded (saved panicked) = wt_loaded panicked"
    using debounce_panic_disables_reload [OF run step alive p(1)] later by blast
  then show ?thesis
    using loaded p(2) written later rtranclp.rtrancl_into_rtrancl [OF run step] by simp
qed

end
