(* ===== verification/Connect.thy ===== *)
theory Connect
  imports Config_Settings Net
begin

text \<open>
  Reaching a target, from \<open>src/src/forwarder.rs\<close>: resolving the remote host, racing one
  connect attempt per resolved address, the options set on a socket, and the error tests of
  the accept and copy paths. The resolver's answer and what each connect attempt would do
  are arguments. Anyhow errors are their messages.
\<close>

section \<open>Sockets\<close>

definition CONNECT_ATTEMPT_DELAY :: duration where "CONNECT_ATTEMPT_DELAY = from_millis 250"
definition BIND_RETRY_DELAY :: duration where "BIND_RETRY_DELAY = from_secs 5"
definition LIMIT_ALERT_SPACING :: duration where "LIMIT_ALERT_SPACING = from_secs 60"

text \<open>\<open>TcpKeepalive\<close> on Linux: idle time, interval and retries are all settable.\<close>

record tcp_keepalive =
  tk_time :: duration
  tk_interval :: "duration option"
  tk_retries :: "nat option"

definition keepalive_params :: "keepalive_config \<Rightarrow> tcp_keepalive" where
  "keepalive_params ka =
     \<lparr>tk_time = ka_idle ka, tk_interval = Some (ka_interval ka), tk_retries = Some (ka_retries ka)\<rparr>"

datatype sock_opt = NoDelay bool | RecvBuffer nat | SendBuffer nat | Keepalive tcp_keepalive

text \<open>The options requested, in order; a refused one is logged and the rest still follow.\<close>

definition tune_socket :: "nat option \<Rightarrow> keepalive_config option \<Rightarrow> sock_opt list" where
  "tune_socket socket_buffer_bytes keepalive =
     [NoDelay True]
     @ (case socket_buffer_bytes of Some sz \<Rightarrow> [RecvBuffer sz, SendBuffer sz] | None \<Rightarrow> [])
     @ (case keepalive of Some ka \<Rightarrow> [Keepalive (keepalive_params ka)] | None \<Rightarrow> [])"

definition is_transient_accept_error :: "io_error \<Rightarrow> bool" where
  "is_transient_accept_error e \<longleftrightarrow>
     ioe_kind e \<in> {ConnectionAborted, ConnectionReset, Interrupted, NotConnected}"

definition is_peer_hangup :: "io_error \<Rightarrow> bool" where
  "is_peer_hangup e \<longleftrightarrow>
     ioe_kind e \<in> {ConnectionReset, BrokenPipe, ConnectionAborted, NotConnected, UnexpectedEof}"

section \<open>Resolution\<close>

text \<open>What \<open>timeout(dns_timeout, resolver.lookup_ip(host))\<close> comes to.\<close>

datatype lookup = LookupTimeout | LookupErr rstr | LookupOk "ip_addr list"

definition resolve_targets ::
  "rstr \<Rightarrow> u16 \<Rightarrow> ip_addr option \<Rightarrow> (rstr \<Rightarrow> lookup) \<Rightarrow> rstr + socket_addr list" where
  "resolve_targets remote_host remote_port literal resolver =
     (case literal of
        Some ip \<Rightarrow> Inr [SocketAddr ip remote_port]
      | None \<Rightarrow>
          (case resolver remote_host of
             LookupTimeout \<Rightarrow> Inl (lit ''DNS lookup timeout for '' @ remote_host)
           | LookupErr e \<Rightarrow> Inl e
           | LookupOk ips \<Rightarrow>
               (let addrs = map (\<lambda>ip. SocketAddr ip remote_port) ips
                in if addrs = [] then Inl (lit ''No DNS records for '' @ remote_host) else Inr addrs)))"

section \<open>Racing connects\<close>

text \<open>
  What an attempt would do without the timeout: how long \<open>TcpStream::connect\<close> takes and its
  answer (a stream, or the error text), or that the task itself fails.
\<close>

datatype 's attempt = Attempt duration "rstr + 's" | TaskFails duration rstr

definition stagger :: "nat \<Rightarrow> duration" where
  "stagger i = CONNECT_ATTEMPT_DELAY * i"

text \<open>When the \<open>i\<close>-th attempt ends, counted from the call, and what \<open>join_next\<close> returns for it.\<close>

definition attempt_end ::
  "duration \<Rightarrow> nat \<Rightarrow> socket_addr \<Rightarrow> 's attempt \<Rightarrow> duration \<times> (rstr + ('s \<times> socket_addr))" where
  "attempt_end connect_timeout i addr att =
     (case att of
        Attempt d r \<Rightarrow>
          if d \<le> connect_timeout
          then (stagger i + d,
                case r of
                  Inr s \<Rightarrow> Inr (s, addr)
                | Inl e \<Rightarrow> Inl (lit ''connect '' @ show_socket_addr addr @ lit '': '' @ e))
          else (stagger i + connect_timeout, Inl (lit ''connect timeout to '' @ show_socket_addr addr))
      | TaskFails d e \<Rightarrow> (stagger i + d, Inl (lit ''connect task failed: '' @ e)))"

definition attempt_ends :: "(socket_addr \<Rightarrow> 's attempt) \<Rightarrow> duration \<Rightarrow> socket_addr list
    \<Rightarrow> (duration \<times> (rstr + ('s \<times> socket_addr))) list" where
  "attempt_ends attempt connect_timeout addrs =
     map (\<lambda>i. attempt_end connect_timeout i (addrs ! i) (attempt (addrs ! i))) [0..<length addrs]"

text \<open>
  The join loop over the attempts in the order they end; attempts that end at the same
  instant are taken in the order they were started.
\<close>

fun join_loop :: "rstr option \<Rightarrow> (duration \<times> (rstr + 'a)) list \<Rightarrow> rstr + 'a" where
  "join_loop last_err [] =
     Inl (case last_err of Some e \<Rightarrow> e | None \<Rightarrow> lit ''no addresses to connect to'')"
| "join_loop last_err ((t, Inr c) # ends) = Inr c"
| "join_loop last_err ((t, Inl e) # ends) = join_loop (Some e) ends"

definition connect_racing :: "(socket_addr \<Rightarrow> 's attempt) \<Rightarrow> duration \<Rightarrow> socket_addr list
    \<Rightarrow> rstr + ('s \<times> socket_addr)" where
  "connect_racing attempt connect_timeout addrs =
     join_loop None (sort_key fst (attempt_ends attempt connect_timeout addrs))"

text \<open>What the probes and the data path need from outside: the resolver, and what an attempt to an address would do.\<close>

record 's net_env =
  ne_resolver :: "rstr \<Rightarrow> lookup"
  ne_attempt :: "socket_addr \<Rightarrow> 's attempt"

section \<open>Properties\<close>

text \<open>The first success of a list of ends, with its time.\<close>

definition first_ok :: "(duration \<times> (rstr + 'a)) list \<Rightarrow> (duration \<times> 'a) option" where
  "first_ok ends =
     (case filter (\<lambda>(t, r). is_ok r) ends of
        (t, Inr c) # _ \<Rightarrow> Some (t, c)
      | _ \<Rightarrow> None)"

lemma join_loop_ok: "join_loop le ends = Inr c \<longleftrightarrow> (\<exists>t. first_ok ends = Some (t, c))"
  by (induction le ends rule: join_loop.induct) (auto simp: first_ok_def)

lemma join_loop_err: "join_loop le ends = Inl e \<Longrightarrow> list_all (\<lambda>(t, r). \<not> is_ok r) ends"
  by (induction le ends rule: join_loop.induct) auto

lemma join_loop_exists: "(t, Inr c) \<in> set ends \<Longrightarrow> \<exists>c'. join_loop le ends = Inr c'"
  by (induction le ends rule: join_loop.induct) auto

lemma join_loop_sorted:
  "join_loop le ends = Inr c \<Longrightarrow> sorted (map fst ends)
   \<Longrightarrow> \<exists>t. (t, Inr c) \<in> set ends \<and> (\<forall>t' c'. (t', Inr c') \<in> set ends \<longrightarrow> t \<le> t')"
  by (induction le ends rule: join_loop.induct) force+

lemma set_attempt_ends:
  "set (attempt_ends attempt to addrs) = {attempt_end to i (addrs ! i) (attempt (addrs ! i)) |i. i < length addrs}"
  by (auto simp: attempt_ends_def)

lemma attempt_end_ok:
  "attempt_end to i addr att = (t, Inr (s, a)) \<longleftrightarrow>
     (\<exists>d. att = Attempt d (Inr s) \<and> d \<le> to \<and> a = addr \<and> t = stagger i + d)"
  by (cases att) (auto simp: attempt_end_def split: sum.splits)

lemma connect_racing_iff:
  "(\<exists>c. connect_racing attempt to addrs = Inr c) \<longleftrightarrow>
   (\<exists>i d s. i < length addrs \<and> attempt (addrs ! i) = Attempt d (Inr s) \<and> d \<le> to)"
proof
  assume "\<exists>c. connect_racing attempt to addrs = Inr c"
  then obtain c where "connect_racing attempt to addrs = Inr c" ..
  then obtain t where "(t, Inr c) \<in> set (attempt_ends attempt to addrs)"
    using join_loop_sorted [of None "sort_key fst (attempt_ends attempt to addrs)" c]
    unfolding connect_racing_def by auto
  then obtain i where "i < length addrs"
    and e: "attempt_end to i (addrs ! i) (attempt (addrs ! i)) = (t, Inr (fst c, snd c))"
    unfolding set_attempt_ends by auto
  moreover obtain d where "attempt (addrs ! i) = Attempt d (Inr (fst c))" "d \<le> to"
    using e unfolding attempt_end_ok by blast
  ultimately show "\<exists>i d s. i < length addrs \<and> attempt (addrs ! i) = Attempt d (Inr s) \<and> d \<le> to"
    by blast
next
  assume "\<exists>i d s. i < length addrs \<and> attempt (addrs ! i) = Attempt d (Inr s) \<and> d \<le> to"
  then obtain i d s where i: "i < length addrs" "attempt (addrs ! i) = Attempt d (Inr s)" "d \<le> to" by blast
  then have "attempt_end to i (addrs ! i) (attempt (addrs ! i)) = (stagger i + d, Inr (s, addrs ! i))"
    by (simp add: attempt_end_ok)
  then have "(stagger i + d, Inr (s, addrs ! i)) \<in> set (sort_key fst (attempt_ends attempt to addrs))"
    using i(1) by (auto simp: set_attempt_ends intro!: exI [of _ i])
  then show "\<exists>c. connect_racing attempt to addrs = Inr c"
    unfolding connect_racing_def by (rule join_loop_exists)
qed

lemma connect_racing_earliest:
  assumes "connect_racing attempt to addrs = Inr (s, a)"
  obtains i d where "i < length addrs" "addrs ! i = a" "attempt a = Attempt d (Inr s)" "d \<le> to"
    "\<And>j e s'. j < length addrs \<Longrightarrow> attempt (addrs ! j) = Attempt e (Inr s') \<Longrightarrow> e \<le> to
       \<Longrightarrow> stagger i + d \<le> stagger j + e"
proof -
  let ?ends = "attempt_ends attempt to addrs"
  obtain t where t: "(t, Inr (s, a)) \<in> set ?ends"
    and least: "\<forall>t' c'. (t', Inr c') \<in> set ?ends \<longrightarrow> t \<le> t'"
    using join_loop_sorted [OF assms [unfolded connect_racing_def]] by auto
  from t obtain i where i: "i < length addrs"
    and e: "attempt_end to i (addrs ! i) (attempt (addrs ! i)) = (t, Inr (s, a))"
    by (auto simp: set_attempt_ends dest: sym)
  then obtain d where d: "attempt (addrs ! i) = Attempt d (Inr s)" "d \<le> to" "a = addrs ! i" "t = stagger i + d"
    by (auto simp: attempt_end_ok)
  have "stagger i + d \<le> stagger j + e"
    if "j < length addrs" "attempt (addrs ! j) = Attempt e (Inr s')" "e \<le> to" for j e s'
  proof -
    have "attempt_end to j (addrs ! j) (attempt (addrs ! j)) = (stagger j + e, Inr (s', addrs ! j))"
      using that by (simp add: attempt_end_ok)
    then have "(stagger j + e, Inr (s', addrs ! j)) \<in> set ?ends"
      using that(1) by (force simp: set_attempt_ends)
    with least d(4) show ?thesis by auto
  qed
  with i d show thesis by (intro that [of i d]) auto
qed

text \<open>
  C17. Racing the resolved addresses never loses a reachable one: the connect succeeds exactly
  when some address would accept within its own timeout, the connection it returns is to an
  address of the list that accepts, and no other attempt would have been ready earlier,
  counting the 250 ms stagger of each position - so a dead first record costs one stagger
  and not a connect timeout.\<close>
theorem connect_racing_correct:
  "((\<exists>c. connect_racing attempt to addrs = Inr c) \<longleftrightarrow>
      (\<exists>i d s. i < length addrs \<and> attempt (addrs ! i) = Attempt d (Inr s) \<and> d \<le> to))
   \<and> (connect_racing attempt to addrs = Inr (s, a) \<longrightarrow>
      (\<exists>i d. i < length addrs \<and> addrs ! i = a \<and> attempt a = Attempt d (Inr s) \<and> d \<le> to
         \<and> (\<forall>j e s'. j < length addrs \<longrightarrow> attempt (addrs ! j) = Attempt e (Inr s') \<longrightarrow> e \<le> to
              \<longrightarrow> from_millis 250 * i + d \<le> from_millis 250 * j + e)))"
  using connect_racing_iff [of attempt to addrs]
  by (auto elim!: connect_racing_earliest simp: stagger_def CONNECT_ATTEMPT_DELAY_def)

definition sample_attempt :: "socket_addr \<Rightarrow> nat attempt" where
  "sample_attempt a =
     (if a = SocketAddr (V4 1) 80 then Attempt (from_secs 100) (Inr 0) else Attempt 5 (Inr 7))"

theorem connect_racing_correct_witness:
  "\<exists>s a. connect_racing sample_attempt (from_secs 10) [SocketAddr (V4 1) 80, SocketAddr (V4 2) 80] = Inr (s, a)
     \<and> a \<in> {SocketAddr (V4 1) 80, SocketAddr (V4 2) 80}"
proof -
  let ?as = "[SocketAddr (V4 1) 80, SocketAddr (V4 2) 80]"
  have "sample_attempt (?as ! 1) = Attempt 5 (Inr 7) \<and> (5::nat) \<le> from_secs 10 \<and> 1 < length ?as"
    by (simp add: sample_attempt_def from_secs_def)
  then have "\<exists>i d s. i < length ?as \<and> sample_attempt (?as ! i) = Attempt d (Inr s) \<and> d \<le> from_secs 10"
    by blast
  then obtain s a where c: "connect_racing sample_attempt (from_secs 10) ?as = Inr (s, a)"
    using conjunct1 [OF connect_racing_correct [of sample_attempt "from_secs 10" ?as]] by (metis prod.exhaust)
  then obtain i where "i < length ?as" "?as ! i = a"
    using conjunct2 [OF connect_racing_correct [of sample_attempt "from_secs 10" ?as s a]] by blast
  then have "a \<in> set ?as" using nth_mem by blast
  with c show ?thesis by auto
qed

end
