(* ===== verification/Monitor.thy ===== *)
theory Monitor
  imports Connect Stats Notify
begin

text \<open>
  The target monitors of \<open>src/src/monitor.rs\<close>: the probes, the tick of the TCP monitor and of
  the passive UDP monitor, the outage bookkeeping they share, and the start-up report. The
  network is the record \<open>net_env\<close> of \<open>Connect\<close>;
  clock readings are arguments. A tick returns the events it hands to the notifier, in order.
\<close>

section \<open>Probes\<close>

definition DOWN_PROBE_INTERVAL :: duration where "DOWN_PROBE_INTERVAL = from_secs 5"
definition KICK_MIN_SPACING :: duration where "KICK_MIN_SPACING = from_secs 1"
definition ICMP_QUIET_MS :: u64 where "ICMP_QUIET_MS = 3000"

record probe_outcome =
  po_addrs :: "ip_addr list"
  po_result :: "rstr + (socket_addr \<times> duration)"

text \<open>\<open>latency\<close> is what \<open>started.elapsed()\<close> reads when the probe has an answer.\<close>

definition probe_target ::
  "'s net_env \<Rightarrow> duration \<Rightarrow> duration \<Rightarrow> forwarder_config \<Rightarrow> probe_outcome" where
  "probe_target ne connect_timeout latency cfg =
     (let literal = parse_ip_addr (fc_remote_host cfg) in
      case resolve_targets (fc_remote_host cfg) (fc_remote_port cfg) literal (ne_resolver ne) of
        Inl e \<Rightarrow> \<lparr>po_addrs = [], po_result = Inl e\<rparr>
      | Inr targets \<Rightarrow>
          \<lparr>po_addrs = (if literal \<noteq> None then [] else map sa_ip targets),
           po_result = (case connect_racing (ne_attempt ne) connect_timeout targets of
                          Inr (stream, addr) \<Rightarrow> Inr (addr, latency)
                        | Inl e \<Rightarrow> Inl e)\<rparr>)"

definition probe_udp_target :: "'s net_env \<Rightarrow> duration \<Rightarrow> forwarder_config \<Rightarrow> probe_outcome" where
  "probe_udp_target ne elapsed cfg =
     (let literal = parse_ip_addr (fc_remote_host cfg) in
      case resolve_targets (fc_remote_host cfg) (fc_remote_port cfg) literal (ne_resolver ne) of
        Inl e \<Rightarrow> \<lparr>po_addrs = [], po_result = Inl e\<rparr>
      | Inr targets \<Rightarrow>
          \<lparr>po_addrs = (if literal \<noteq> None then [] else map sa_ip targets),
           po_result = (case targets of
                          first # _ \<Rightarrow> Inr (first, elapsed)
                        | [] \<Rightarrow> Inl (lit ''no address resolved''))\<rparr>)"

definition target_text :: "forwarder_config \<Rightarrow> rstr" where
  "target_text cfg = fc_remote_host cfg @ lit '':'' @ show_nat (unat (fc_remote_port cfg))"

definition probe_report_of :: "'s net_env \<Rightarrow> duration \<Rightarrow> duration \<Rightarrow> forwarder_config \<Rightarrow> probe_report" where
  "probe_report_of ne connect_timeout latency cfg =
     \<lparr>pr_label = fc_label cfg, pr_target = target_text cfg, pr_protocol = fc_protocol cfg,
      pr_outcome = po_result (case fc_protocol cfg of
                                Tcp \<Rightarrow> probe_target ne connect_timeout latency cfg
                              | Udp \<Rightarrow> probe_udp_target ne latency cfg)\<rparr>"

text \<open>
  \<open>joined\<close> lists the indices of the probe tasks that ended normally, in the order they were
  joined; a task that failed is missing from it.
\<close>

definition probe_all :: "'s net_env \<Rightarrow> runtime_knobs \<Rightarrow> (nat \<Rightarrow> duration) \<Rightarrow> forwarder_config list
    \<Rightarrow> nat list \<Rightarrow> probe_report list" where
  "probe_all ne knobs latency configs joined =
     map snd (sort_key fst
       (map (\<lambda>i. (i, probe_report_of ne (knob_connect_timeout knobs) (latency i) (configs ! i))) joined))"

section \<open>Outages\<close>

record downtime =
  dt_since :: instant
  dt_alerted :: bool

text \<open>How the wait for the next tick ended; the kick carries \<open>previous.elapsed()\<close>.\<close>

datatype wake = WokeCancelled | WokeTimer | WokeKick duration bool

definition tick_wait :: "duration \<Rightarrow> bool \<Rightarrow> duration" where
  "tick_wait interval target_down = (if target_down then min interval DOWN_PROBE_INTERVAL else interval)"

definition kick_spacing :: "duration \<Rightarrow> duration" where
  "kick_spacing elapsed = KICK_MIN_SPACING - elapsed"

text \<open>Whether the monitor stops; the flag of a kick says that the spacing sleep was cancelled.\<close>

definition wait_for_tick :: "wake \<Rightarrow> bool" where
  "wait_for_tick wk =
     (case wk of
        WokeCancelled \<Rightarrow> True
      | WokeTimer \<Rightarrow> False
      | WokeKick elapsed cancelled \<Rightarrow> kick_spacing elapsed \<noteq> 0 \<and> cancelled)"

definition report_dns_change :: "rstr \<Rightarrow> rstr \<Rightarrow> ip_addr list \<Rightarrow> forwarder_stats
    \<Rightarrow> forwarder_stats \<times> event list" where
  "report_dns_change label host addrs stats =
     (case observe_addrs addrs stats of
        (Some old, stats') \<Rightarrow> (stats', [DnsChanged label host old (sort_dedup addrs)])
      | (None, stats') \<Rightarrow> (stats', []))"

definition record_up :: "rstr \<Rightarrow> rstr \<Rightarrow> downtime option \<Rightarrow> socket_addr option \<Rightarrow> instant
    \<Rightarrow> forwarder_stats \<Rightarrow> downtime option \<times> forwarder_stats \<times> event list" where
  "record_up label target down address now stats =
     (None, set_target_reachable True stats,
      case down of
        None \<Rightarrow> []
      | Some d \<Rightarrow>
          if dt_alerted d then [TargetRecovered label target (now - dt_since d) address] else [])"

definition record_down :: "rstr \<Rightarrow> rstr \<Rightarrow> downtime option \<Rightarrow> rstr \<Rightarrow> instant \<Rightarrow> instant \<Rightarrow> duration
    \<Rightarrow> forwarder_stats \<Rightarrow> downtime option \<times> forwarder_stats \<times> event list" where
  "record_down label target down err now_insert now threshold stats =
     (let d = (case down of Some d \<Rightarrow> d | None \<Rightarrow> \<lparr>dt_since = now_insert, dt_alerted = False\<rparr>);
          down_for = now - dt_since d
      in if \<not> dt_alerted d \<and> down_for \<ge> threshold
         then (Some (d\<lparr>dt_alerted := True\<rparr>), set_target_reachable False stats,
               [TargetUnreachable label target down_for err])
         else (Some d, set_target_reachable False stats, []))"

section \<open>The TCP monitor\<close>

record monitor =
  mo_down :: "downtime option"
  mo_last_probe :: "instant option"
  mo_prev :: "udp_sample option"

definition monitor_init :: monitor where
  "monitor_init = \<lparr>mo_down = None, mo_last_probe = None, mo_prev = None\<rparr>"

text \<open>The readings of one tick: at its start, for the age of the last connect, for the
  latency, when an outage is opened, and when its length is taken.\<close>

record tick_clock =
  tc_start :: instant
  tc_age :: instant
  tc_latency :: duration
  tc_insert :: instant
  tc_elapsed :: instant

text \<open>
  The knobs as they are before the wait, at the probe and at the verdict: a reload may come in
  between.
\<close>

record tick_knobs =
  tn_wait :: runtime_knobs
  tn_probe :: runtime_knobs
  tn_verdict :: runtime_knobs

definition recent_ok :: "runtime_knobs \<Rightarrow> instant \<Rightarrow> forwarder_stats \<Rightarrow> bool" where
  "recent_ok knobs now stats =
     (case last_connect_ok_age now stats of
        Some age \<Rightarrow> age < knob_probe_interval knobs
      | None \<Rightarrow> False)"

definition tcp_tick :: "'s net_env \<Rightarrow> forwarder_config \<Rightarrow> tick_knobs \<Rightarrow> tick_clock
    \<Rightarrow> monitor \<times> forwarder_stats \<Rightarrow> (monitor \<times> forwarder_stats) \<times> event list" where
  "tcp_tick ne cfg knobs clk st =
     (let (mo, stats) = st;
          label = fc_label cfg;
          target = target_text cfg;
          outcome = (if recent_ok (tn_wait knobs) (tc_age clk) stats \<and> mo_down mo = None then None
                     else Some (probe_target ne (knob_connect_timeout (tn_probe knobs)) (tc_latency clk) cfg));
          (stats1, evs1) = (case outcome of
                              Some o' \<Rightarrow>
                                if po_addrs o' \<noteq> []
                                then report_dns_change label (fc_remote_host cfg) (po_addrs o') stats
                                else (stats, [])
                            | None \<Rightarrow> (stats, []));
          result = (case outcome of
                      None \<Rightarrow> Inr None
                    | Some o' \<Rightarrow> map_ok (\<lambda>(addr, _). Some addr) (po_result o'));
          (down, stats2, evs2) = (case result of
                      Inr address \<Rightarrow>
                        record_up label target (mo_down mo) address (tc_elapsed clk) stats1
                    | Inl e \<Rightarrow>
                        record_down label target (mo_down mo) e (tc_insert clk) (tc_elapsed clk)
                          (knob_unreachable_after (tn_verdict knobs)) stats1)
      in ((mo\<lparr>mo_down := down, mo_last_probe := Some (tc_start clk)\<rparr>, stats2), evs1 @ evs2))"

section \<open>The UDP monitor\<close>

datatype verdict = VerdictUp | VerdictDown icmp_kind u64 | VerdictHold

definition udp_verdict :: "udp_sample \<Rightarrow> udp_sample option \<Rightarrow> verdict" where
  "udp_verdict cur prev =
     (case us_icmp cur of
        None \<Rightarrow> VerdictUp
      | Some (icmp_ms, kind) \<Rightarrow>
          if (case us_reply_ms cur of Some r \<Rightarrow> r \<ge> icmp_ms | None \<Rightarrow> False) then VerdictUp
          else (let down = VerdictDown kind (sat_sub (us_now_ms cur) icmp_ms) in
            case prev of
              None \<Rightarrow> down
            | Some prev \<Rightarrow>
                if map_option fst (us_icmp prev) \<noteq> Some icmp_ms then down
                else if sat_sub (us_now_ms cur) icmp_ms < ICMP_QUIET_MS then down
                else if us_sent cur > us_sent prev then VerdictUp
                else VerdictHold))"

definition udp_down_error :: "icmp_kind \<Rightarrow> u64 \<Rightarrow> rstr" where
  "udp_down_error kind age_ms =
     icmp_as_str kind @ lit '' from the target '' @ fmt_duration (from_millis (unat age_ms))
       @ lit '' ago; no reply since''"

definition udp_tick :: "'s net_env \<Rightarrow> forwarder_config \<Rightarrow> tick_knobs \<Rightarrow> tick_clock
    \<Rightarrow> monitor \<times> forwarder_stats \<Rightarrow> (monitor \<times> forwarder_stats) \<times> event list" where
  "udp_tick ne cfg knobs clk st =
     (let (mo, stats) = st;
          label = fc_label cfg;
          target = target_text cfg;
          o' = probe_udp_target ne (tc_latency clk) cfg;
          (stats1, evs1) = (if po_addrs o' \<noteq> []
                            then report_dns_change label (fc_remote_host cfg) (po_addrs o') stats
                            else (stats, []));
          cur = udp_sample_of (elapsed_ms (tc_age clk) stats1) stats1;
          down_with = (\<lambda>e. record_down label target (mo_down mo) e (tc_insert clk) (tc_elapsed clk)
                             (knob_unreachable_after (tn_verdict knobs)) stats1);
          (down, stats2, evs2) = (case po_result o' of
                      Inl e \<Rightarrow> down_with e
                    | Inr (addr, _) \<Rightarrow>
                        (case udp_verdict cur (mo_prev mo) of
                           VerdictUp \<Rightarrow>
                             record_up label target (mo_down mo) (Some addr) (tc_elapsed clk) stats1
                         | VerdictDown kind age_ms \<Rightarrow> down_with (udp_down_error kind age_ms)
                         | VerdictHold \<Rightarrow> (mo_down mo, stats1, [])))
      in ((mo\<lparr>mo_down := down, mo_last_probe := Some (tc_start clk), mo_prev := Some cur\<rparr>, stats2),
          evs1 @ evs2))"

text \<open>
  One turn of \<open>run_monitor\<close>: the wait (not before the first tick), the cancellation check,
  the tick of the forwarder's protocol, and its events handed to the notifier. \<open>None\<close> means
  that the monitor returned.
\<close>

definition monitor_turn :: "'s net_env \<Rightarrow> forwarder_config \<Rightarrow> tick_knobs \<Rightarrow> tick_clock \<Rightarrow> wake \<Rightarrow> bool
    \<Rightarrow> (monitor \<times> forwarder_stats) \<times> alerting \<Rightarrow> ((monitor \<times> forwarder_stats) \<times> alerting) option" where
  "monitor_turn ne cfg knobs clk wk is_cancelled st =
     (let (ms, al) = st in
      if (mo_last_probe (fst ms) \<noteq> None \<and> wait_for_tick wk) \<or> is_cancelled then None
      else let (ms', evs) = (case fc_protocol cfg of
                               Udp \<Rightarrow> udp_tick ne cfg knobs clk ms
                             | Tcp \<Rightarrow> tcp_tick ne cfg knobs clk ms)
           in Some (ms', fold notify evs al))"

section \<open>Outage alerts alternate\<close>

text \<open>The outage events of a list: \<open>True\<close> for an alert, \<open>False\<close> for a recovery.\<close>

fun outage_marks :: "event list \<Rightarrow> bool list" where
  "outage_marks [] = []"
| "outage_marks (TargetUnreachable _ _ _ _ # evs) = True # outage_marks evs"
| "outage_marks (TargetRecovered _ _ _ _ # evs) = False # outage_marks evs"
| "outage_marks (_ # evs) = outage_marks evs"

lemma outage_marks_append [simp]: "outage_marks (xs @ ys) = outage_marks xs @ outage_marks ys"
  by (induction xs rule: outage_marks.induct) auto

text \<open>Strict alternation, continuing after an open alert or after none.\<close>

fun alternates :: "bool \<Rightarrow> bool list \<Rightarrow> bool" where
  "alternates open_alert [] = True"
| "alternates open_alert (m # ms) = (m = (\<not> open_alert) \<and> alternates m ms)"

fun tick_run :: "('i \<Rightarrow> 's \<Rightarrow> 's \<times> event list) \<Rightarrow> 'i list \<Rightarrow> 's \<Rightarrow> 's \<times> event list" where
  "tick_run step [] s = (s, [])"
| "tick_run step (i # is) s =
     (let (s', evs) = step i s; (s'', evs') = tick_run step is s' in (s'', evs @ evs'))"

text \<open>
  The contract of an outage tracker: a step raises no outage event and keeps the alert as it
  is, or opens it with one alert, or closes it with one recovery.
\<close>

locale outage =
  fixes step :: "'i \<Rightarrow> 's \<Rightarrow> 's \<times> event list"
    and alerted :: "'s \<Rightarrow> bool"
  assumes step_marks:
    "outage_marks (snd (step i s)) = [] \<and> alerted (fst (step i s)) = alerted s
     \<or> outage_marks (snd (step i s)) = [True] \<and> \<not> alerted s \<and> alerted (fst (step i s))
     \<or> outage_marks (snd (step i s)) = [False] \<and> alerted s \<and> \<not> alerted (fst (step i s))"
begin

lemma run_alternates: "alternates (alerted s) (outage_marks (snd (tick_run step is s)))"
proof (induction "is" arbitrary: s)
  case (Cons i "is")
  obtain s' evs where st: "step i s = (s', evs)" by fastforce
  obtain s'' evs' where run: "tick_run step is s' = (s'', evs')" by fastforce
  have "alternates (alerted s') (outage_marks evs')" using Cons.IH [of s'] run by simp
  with step_marks [of i s] show ?case by (auto simp: st run)
qed simp

lemma run_open_alert:
  "alerted (fst (tick_run step is s)) =
     (case outage_marks (snd (tick_run step is s)) of [] \<Rightarrow> alerted s | ms \<Rightarrow> last ms)"
proof (induction "is" arbitrary: s)
  case (Cons i "is")
  obtain s' evs where st: "step i s = (s', evs)" by fastforce
  obtain s'' evs' where run: "tick_run step is s' = (s'', evs')" by fastforce
  have "alerted s'' = (case outage_marks evs' of [] \<Rightarrow> alerted s' | ms \<Rightarrow> last ms)"
    using Cons.IH [of s'] run by simp
  with step_marks [of i s] show ?case
    by (cases "outage_marks evs'") (auto simp: st run)
qed simp

end

definition outage_open :: "downtime option \<Rightarrow> bool" where
  "outage_open down = (case down of Some d \<Rightarrow> dt_alerted d | None \<Rightarrow> False)"

lemma record_up_marks:
  "record_up label target down address now stats = (down', stats', evs)
   \<Longrightarrow> outage_marks evs = (if outage_open down then [False] else []) \<and> \<not> outage_open down'"
  by (auto simp: record_up_def outage_open_def split: option.splits)

lemma record_down_marks:
  "record_down label target down err n1 n2 thr stats = (down', stats', evs)
   \<Longrightarrow> outage_marks evs = [] \<and> outage_open down' = outage_open down
       \<or> outage_marks evs = [True] \<and> \<not> outage_open down \<and> outage_open down'"
  by (auto simp: record_down_def outage_open_def Let_def split: option.splits if_splits)

lemma report_dns_change_marks: "report_dns_change label host addrs stats = (stats', evs) \<Longrightarrow> outage_marks evs = []"
  by (auto simp: report_dns_change_def split: prod.splits option.splits)

text \<open>A tick as a step of its tracker; the data path changes the statistics between ticks.\<close>

type_synonym 's tick_input = "'s net_env \<times> tick_knobs \<times> tick_clock \<times> forwarder_stats"

definition tcp_step :: "forwarder_config \<Rightarrow> 's tick_input \<Rightarrow> monitor \<Rightarrow> monitor \<times> event list" where
  "tcp_step cfg i mo =
     (case i of (ne, knobs, clk, stats) \<Rightarrow>
        (case tcp_tick ne cfg knobs clk (mo, stats) of ((mo', _), evs) \<Rightarrow> (mo', evs)))"

definition udp_step :: "forwarder_config \<Rightarrow> 's tick_input \<Rightarrow> monitor \<Rightarrow> monitor \<times> event list" where
  "udp_step cfg i mo =
     (case i of (ne, knobs, clk, stats) \<Rightarrow>
        (case udp_tick ne cfg knobs clk (mo, stats) of ((mo', _), evs) \<Rightarrow> (mo', evs)))"

lemma tcp_tick_down:
  assumes "tcp_tick ne cfg knobs clk (mo, stats) = ((mo', stats'), evs)"
  obtains (up) evs1 evs2 address stats1 stats2 where "evs = evs1 @ evs2" "outage_marks evs1 = []"
      "record_up (fc_label cfg) (target_text cfg) (mo_down mo) address (tc_elapsed clk) stats1
         = (mo_down mo', stats2, evs2)"
  | (down) evs1 evs2 e stats1 stats2 where "evs = evs1 @ evs2" "outage_marks evs1 = []"
      "record_down (fc_label cfg) (target_text cfg) (mo_down mo) e (tc_insert clk) (tc_elapsed clk)
         (knob_unreachable_after (tn_verdict knobs)) stats1 = (mo_down mo', stats2, evs2)"
  using assms report_dns_change_marks
  unfolding tcp_tick_def Let_def
  by (fastforce split: prod.splits option.splits sum.splits if_splits)

lemma udp_tick_down:
  assumes "udp_tick ne cfg knobs clk (mo, stats) = ((mo', stats'), evs)"
  obtains (up) evs1 evs2 address stats1 stats2 where "evs = evs1 @ evs2" "outage_marks evs1 = []"
      "record_up (fc_label cfg) (target_text cfg) (mo_down mo) address (tc_elapsed clk) stats1
         = (mo_down mo', stats2, evs2)"
  | (down) evs1 evs2 e stats1 stats2 where "evs = evs1 @ evs2" "outage_marks evs1 = []"
      "record_down (fc_label cfg) (target_text cfg) (mo_down mo) e (tc_insert clk) (tc_elapsed clk)
         (knob_unreachable_after (tn_verdict knobs)) stats1 = (mo_down mo', stats2, evs2)"
  | (hold) "outage_marks evs = []" "mo_down mo' = mo_down mo"
  using assms report_dns_change_marks
  unfolding udp_tick_def Let_def
  by (fastforce split: prod.splits option.splits sum.splits if_splits verdict.splits)

interpretation tcp_outage: outage "tcp_step cfg" "\<lambda>mo. outage_open (mo_down mo)" for cfg
proof
  fix i :: "'a tick_input" and mo
  obtain ne knobs clk stats where i: "i = (ne, knobs, clk, stats)" by (metis prod.exhaust)
  obtain mo' stats' evs where t: "tcp_tick ne cfg knobs clk (mo, stats) = ((mo', stats'), evs)"
    by (metis prod.exhaust)
  from t show "outage_marks (snd (tcp_step cfg i mo)) = []
        \<and> outage_open (mo_down (fst (tcp_step cfg i mo))) = outage_open (mo_down mo)
      \<or> outage_marks (snd (tcp_step cfg i mo)) = [True] \<and> \<not> outage_open (mo_down mo)
        \<and> outage_open (mo_down (fst (tcp_step cfg i mo)))
      \<or> outage_marks (snd (tcp_step cfg i mo)) = [False] \<and> outage_open (mo_down mo)
        \<and> \<not> outage_open (mo_down (fst (tcp_step cfg i mo)))"
    by (cases rule: tcp_tick_down)
      (auto simp: tcp_step_def i t dest!: record_up_marks record_down_marks split: if_splits)
qed

interpretation udp_outage: outage "udp_step cfg" "\<lambda>mo. outage_open (mo_down mo)" for cfg
proof
  fix i :: "'a tick_input" and mo
  obtain ne knobs clk stats where i: "i = (ne, knobs, clk, stats)" by (metis prod.exhaust)
  obtain mo' stats' evs where t: "udp_tick ne cfg knobs clk (mo, stats) = ((mo', stats'), evs)"
    by (metis prod.exhaust)
  from t show "outage_marks (snd (udp_step cfg i mo)) = []
        \<and> outage_open (mo_down (fst (udp_step cfg i mo))) = outage_open (mo_down mo)
      \<or> outage_marks (snd (udp_step cfg i mo)) = [True] \<and> \<not> outage_open (mo_down mo)
        \<and> outage_open (mo_down (fst (udp_step cfg i mo)))
      \<or> outage_marks (snd (udp_step cfg i mo)) = [False] \<and> outage_open (mo_down mo)
        \<and> \<not> outage_open (mo_down (fst (udp_step cfg i mo)))"
    by (cases rule: udp_tick_down)
      (auto simp: udp_step_def i t dest!: record_up_marks record_down_marks split: if_splits)
qed

text \<open>
  C11. Over any sequence of ticks of a monitor, TCP or UDP, with any traffic, reloads and
  network answers in between: unreachable alerts and recoveries alternate strictly, an alert
  first - so each outage is alerted at most once, and a recovery is announced exactly once
  and only for an outage that was alerted.\<close>
theorem outage_alerts_alternate:
  "alternates False (outage_marks (snd (tick_run (tcp_step cfg) ticks monitor_init)))
   \<and> alternates False (outage_marks (snd (tick_run (udp_step cfg) ticks monitor_init)))"
  using tcp_outage.run_alternates [of monitor_init cfg ticks] udp_outage.run_alternates [of monitor_init cfg ticks]
  by (simp add: monitor_init_def outage_open_def)

section \<open>When the alert is raised\<close>

text \<open>Failing ticks one after the other, each with its error and its time.\<close>

fun down_run :: "rstr \<Rightarrow> rstr \<Rightarrow> duration \<Rightarrow> (rstr \<times> instant) list \<Rightarrow> downtime option \<Rightarrow> forwarder_stats
    \<Rightarrow> downtime option \<times> event list" where
  "down_run label target thr [] down stats = (down, [])"
| "down_run label target thr ((e, t) # fails) down stats =
     (let (down', stats', evs) = record_down label target down e t t thr stats;
          (down'', evs') = down_run label target thr fails down' stats'
      in (down'', evs @ evs'))"

lemma down_run_alerted:
  "snd (down_run label target thr fails (Some \<lparr>dt_since = t0, dt_alerted = True\<rparr>) stats) = []"
  by (induction fails arbitrary: stats) (auto simp: record_down_def Let_def split: prod.splits)

lemma down_run_since:
  "snd (down_run label target thr fails (Some \<lparr>dt_since = t0, dt_alerted = False\<rparr>) stats) =
     (case find (\<lambda>(e, t). thr \<le> t - t0) fails of
        None \<Rightarrow> []
      | Some (e, t) \<Rightarrow> [TargetUnreachable label target (t - t0) e])"
proof (induction fails arbitrary: stats)
  case (Cons f fails)
  obtain e t where f: "f = (e, t)" by fastforce
  show ?case
  proof (cases "thr \<le> t - t0")
    case True
    then show ?thesis
      using down_run_alerted [of label target thr fails t0]
      by (simp add: f record_down_def split_def)
  next
    case False
    then show ?thesis
      using Cons.IH by (simp add: f record_down_def split_def)
  qed
qed simp

text \<open>
  An uninterrupted outage is alerted exactly when it has lasted the threshold: from the
  first failing tick at \<open>t0\<close>, the one alert is raised at the first failing tick at least
  \<open>thr\<close> after \<open>t0\<close>, with that tick's error and the outage's length, and there is none if no
  tick comes that late.\<close>

lemma alert_at_threshold:
  "snd (down_run label target thr ((e0, t0) # fails) None stats) =
     (case find (\<lambda>(e, t). thr \<le> t - t0) ((e0, t0) # fails) of
        None \<Rightarrow> []
      | Some (e, t) \<Rightarrow> [TargetUnreachable label target (t - t0) e])"
proof -
  have "record_down label target None e0 t0 t0 thr stats =
      record_down label target (Some \<lparr>dt_since = t0, dt_alerted = False\<rparr>) e0 t0 t0 thr stats"
    by (simp add: record_down_def)
  then have "down_run label target thr ((e0, t0) # fails) None stats =
      down_run label target thr ((e0, t0) # fails) (Some \<lparr>dt_since = t0, dt_alerted = False\<rparr>) stats"
    by (simp only: down_run.simps)
  then show ?thesis by (simp only: down_run_since)
qed

section \<open>Traffic as evidence\<close>

text \<open>
  A UDP reply that arrives after an ICMP error clears it: whatever was recorded before,
  once an error at \<open>t1\<close> and then a reply at \<open>t2 \<ge> t1\<close> are noted, the next verdict is that
  the target is up, in spite of the 100 ms throttle on recording replies.\<close>

lemma udp_reply_clears_icmp:
  assumes "t1 \<le> t2" and "t2 \<noteq> NEVER_MS"
  shows "udp_verdict (udp_sample_of now (mark_connect_ok_at t2 (mark_udp_icmp_error t1 kind s))) prev = VerdictUp"
proof -
  let ?s1 = "mark_udp_icmp_error t1 kind s"
  let ?s2 = "mark_connect_ok_at t2 ?s1"
  have t1: "t1 \<noteq> NEVER_MS"
    using assms word_order.extremum_uniqueI [of t2] by (auto simp: NEVER_MS_def u64_max_def)
  have icmp: "sx_udp_icmp_error_ms ?s2 = t1"
    by (simp add: mark_connect_ok_at_def mark_udp_icmp_error_def Let_def)
  have "t1 \<le> sx_last_connect_ok_ms ?s2 \<and> sx_last_connect_ok_ms ?s2 \<noteq> NEVER_MS"
    using assms t1
    by (auto simp: mark_connect_ok_at_def mark_udp_icmp_error_def Let_def)
  then show ?thesis
    using icmp by (auto simp: udp_verdict_def udp_sample_of_def split: option.splits)
qed

lemma mark_connect_failed_age: "last_connect_ok_age now (mark_connect_failed s) = last_connect_ok_age now s"
  by (simp add: last_connect_ok_age_def elapsed_ms_def mark_connect_failed_def)

text \<open>
  A target that real traffic proved reachable within the last probe interval is not
  probed while healthy: the tick does not consult the network at all, sets the gauge to
  reachable and raises nothing. This holds just the same after a client's connect has failed
  and kicked the monitor: the failure does not cancel the earlier success, so the kicked tick
  reports the target up and the downtime clock does not start.\<close>
lemma recent_success_skips_probe:
  assumes "mo_down mo = None" and "recent_ok (tn_wait knobs) (tc_age clk) stats"
  shows "tcp_tick ne cfg knobs clk (mo, mark_connect_failed stats) =
     ((mo\<lparr>mo_last_probe := Some (tc_start clk)\<rparr>, set_target_reachable True (mark_connect_failed stats)), [])"
proof -
  have "recent_ok (tn_wait knobs) (tc_age clk) (mark_connect_failed stats)"
    using assms(2) by (simp add: recent_ok_def mark_connect_failed_age)
  with assms(1) show ?thesis by (simp add: tcp_tick_def record_up_def)
qed

lemma sort_tagged:
  assumes "distinct xs"
  shows "sort_key fst (map (\<lambda>i. (i, g i)) xs) = map (\<lambda>i. (i, g i)) (sort xs)"
proof (rule map_sorted_distinct_set_unique [where f = fst])
  show "inj_on fst (set (sort_key fst (map (\<lambda>i. (i, g i)) xs)) \<union> set (map (\<lambda>i. (i, g i)) (sort xs)))"
    by (rule inj_onI) auto
  show "distinct (map fst (sort_key fst (map (\<lambda>i. (i, g i)) xs)))"
    using assms by (simp add: distinct_map inj_on_def)
  show "distinct (map fst (map (\<lambda>i. (i, g i)) (sort xs)))"
    using assms by (simp add: comp_def)
qed (simp_all add: comp_def)

lemma probe_all_in_order:
  assumes "distinct joined" and "set joined = {..<length configs}"
  shows "probe_all ne knobs latency configs joined =
     map (\<lambda>i. probe_report_of ne (knob_connect_timeout knobs) (latency i) (configs ! i)) [0..<length configs]"
proof -
  have "sort joined = [0..<length configs]"
    by (rule sorted_distinct_set_unique) (simp_all only: sorted_sort distinct_sort set_sort assms sorted_upt distinct_upt set_upt atLeast0LessThan)
  then show ?thesis by (simp add: probe_all_def sort_tagged [OF assms(1)])
qed

end
