(* ===== verification/Program.thy ===== *)
theory Program
  imports Startup Reload Monitor
begin

text \<open>
  The life of the process after a successful start (\<open>src/src/main.rs\<close>): the background
  tasks that \<open>main\<close> spawns, the shutdown signal, and the shutdown while a reload may be under
  way. \<open>main\<close> and the other tasks are two step relations that interleave. Both are cut at their
  awaits: the watcher looks at its cancellation token before it takes a save and during its
  delays, never during a reload, so the calls of a \<open>sync\<close>, and the two halves of each \<open>stop_one\<close>,
  interleave with those of \<open>shutdown_all\<close>; the delivery worker is cut as in \<open>Notify\<close>. The reading
  of the file touches nothing that another task changes, so it is one step with the reading of
  the labels that follows it.
\<close>

section \<open>Background tasks\<close>

datatype bg_task =
    BgWatcher rstr reload_policy
  | BgReporter duration
  | BgSampler duration
  | BgEndpoint rstr
  | BgStartupReport "forwarder_config list"

definition background_tasks :: "cli_args \<Rightarrow> forwarder_source \<Rightarrow> settings \<Rightarrow> forwarder_config list \<Rightarrow> bg_task list" where
  "background_tasks cli source settings forwarders =
     (case cli_config_file cli of
        Some path \<Rightarrow> [BgWatcher path \<lparr>rl_cli = cli, rl_source = source\<rparr>] | None \<Rightarrow> [])
     @ [BgReporter (from_secs (st_report_interval_secs settings)), BgSampler (from_secs (st_sample_interval_secs settings))]
     @ (case st_metrics_addr settings of Some addr \<Rightarrow> [BgEndpoint addr] | None \<Rightarrow> [])
     @ [BgStartupReport forwarders]"

text \<open>The startup report probes every target once and tells the operator.\<close>

definition startup_report :: "'s net_env \<Rightarrow> (nat \<Rightarrow> duration) \<Rightarrow> nat list \<Rightarrow> forwarder_config list \<Rightarrow> manager \<Rightarrow> manager" where
  "startup_report ne latency joined configs m =
     m\<lparr>mg_alerts := notify (Started (probe_all ne (mg_knobs m) latency configs joined)) (mg_alerts m)\<rparr>"

section \<open>The awaits of the manager\<close>

text \<open>
  \<open>stop_one\<close> takes the handle out of the table under the lock and waits for the task without it;
  \<open>shutdown_all\<close> takes all handles at once and then waits for one after the other.
\<close>

definition take_handle :: "rstr \<Rightarrow> manager \<Rightarrow> fwd_handle option \<times> manager" where
  "take_handle label m =
     (map_of (mg_forwarders m) label, m\<lparr>mg_forwarders := filter (\<lambda>(l, _). l \<noteq> label) (mg_forwarders m)\<rparr>)"

definition reap_handle :: "join_outcome \<Rightarrow> rstr \<times> fwd_handle \<Rightarrow> manager \<Rightarrow> manager" where
  "reap_handle joined lh m =
     m\<lparr>mg_lingering := (if joined = JoinTimeout then mg_lingering m @ [snd lh] else mg_lingering m),
       mg_registry := registry_remove (fst lh) (mg_registry m)\<rparr>"

definition take_all_handles :: "manager \<Rightarrow> (rstr \<times> fwd_handle) list \<times> manager" where
  "take_all_handles m = (mg_forwarders m, m\<lparr>mg_forwarders := []\<rparr>)"

text \<open>Nothing else happens in between when the calls run undisturbed.\<close>

lemma stop_one_parts:
  "stop_one wait label m =
     (case take_handle label m of
        (None, _) \<Rightarrow> m
      | (Some h, m') \<Rightarrow> reap_handle (wait label) (label, h) m')"
  by (simp add: stop_one_def take_handle_def reap_handle_def split: option.split)

lemma shutdown_all_parts:
  "shutdown_all wait m = (case take_all_handles m of (hs, m') \<Rightarrow> fold (\<lambda>lh. reap_handle (wait (fst lh)) lh) hs m')"
  by (simp add: shutdown_all_def take_all_handles_def reap_handle_def [abs_def] case_prod_unfold)

section \<open>The process as a machine\<close>

text \<open>\<open>Aborted\<close> is the return of \<open>main\<close> when no signal handler could be installed.\<close>

datatype phase = Serving | Cancelled | Reaping | Draining | WebhookFlush | Exited | Aborted

text \<open>
  What a reload still has to do: read the table and plan its \<open>sync\<close>, or make the calls of the plan.
\<close>

datatype reload_todo = PlanSync "forwarder_config list" | SyncCalls "sync_op list"

text \<open>
  \<open>pg_waiting\<close> holds while the watcher is between the save it has taken and the reload, in its
  delays, and \<open>pg_reload\<close> is the reload under way: the labels before it and what it still has to do.
  \<open>pg_stopping\<close> is the handle that reload waits for, \<open>pg_reaping\<close> the handles that \<open>shutdown_all\<close> has
  taken and still has to wait for, \<open>pg_conns\<close> the number of connection tasks in the tracker.
  The delivery worker of the webhook is in the state \<open>pg_worker\<close>, and \<open>pg_world\<close> is what it talks to.
  \<open>pg_log\<close> is no part of the program: it lists the alerts that the steps below call for, whatever
  becomes of them.
\<close>

record 'w program =
  pg_manager :: manager
  pg_phase :: phase
  pg_tasks :: "bg_task list"
  pg_waiting :: bool
  pg_reload :: "(rstr list \<times> reload_todo) option"
  pg_stopping :: "(rstr \<times> fwd_handle) option"
  pg_reaping :: "(rstr \<times> fwd_handle) list"
  pg_conns :: nat
  pg_worker :: worker
  pg_world :: 'w
  pg_log :: "event list"

text \<open>\<open>px_files\<close> are the file systems and environments that the successive reloads find.\<close>

record ('s, 'w) proc_env =
  px_show_err :: "config_error \<Rightarrow> rstr"
  px_files :: "nat \<Rightarrow> load_env"
  px_net :: "'s net_env"
  px_post :: "'w \<Rightarrow> rstr \<Rightarrow> (rstr + http_response) \<times> 'w"
  px_instance :: instance_info

text \<open>Without a webhook there is no worker, which counts as one that has stopped.\<close>

definition program_init :: "manager \<Rightarrow> bg_task list \<Rightarrow> 'w \<Rightarrow> 'w program" where
  "program_init m tasks w =
     \<lparr>pg_manager = m, pg_phase = Serving, pg_tasks = tasks, pg_waiting = False, pg_reload = None, pg_stopping = None,
      pg_reaping = [], pg_conns = 0, pg_worker = (if al_enabled (mg_alerts m) then Running else Stopped, None),
      pg_world = w, pg_log = []\<rparr>"

definition tell :: "event \<Rightarrow> 'w program \<Rightarrow> 'w program" where
  "tell ev p = p\<lparr>pg_manager := (pg_manager p)\<lparr>mg_alerts := notify ev (mg_alerts (pg_manager p))\<rparr>\<rparr>"

definition logged :: "event \<Rightarrow> 'w program \<Rightarrow> 'w program" where
  "logged ev p = p\<lparr>pg_log := pg_log p @ [ev]\<rparr>"

text \<open>The begin of a reload: a file that does not load only alerts.\<close>

definition reload_begin :: "(config_error \<Rightarrow> rstr) \<Rightarrow> load_env \<Rightarrow> rstr \<Rightarrow> reload_policy \<Rightarrow> 'w program \<Rightarrow> 'w program" where
  "reload_begin show_err le config_path policy p =
     (case load_yaml_config le config_path of
        Inl e \<Rightarrow> tell (ConfigReloadFailed config_path (show_err e)) p
      | Inr loaded \<Rightarrow>
          (let m = pg_manager p; m1 = update_knobs (apply_cli_overrides (cf_settings loaded) (rl_cli policy)) m
           in p\<lparr>pg_manager := m1,
                pg_reload := Some (running_labels m,
                  if rl_source policy = SrcFile then PlanSync (cf_forwarders loaded) else SyncCalls [])\<rparr>))"

definition reload_event :: "rstr list \<Rightarrow> manager \<Rightarrow> event" where
  "reload_event before m =
     (let after = running_labels m;
          added = sort (filter (\<lambda>l. l \<notin> set before) after);
          removed = sort (filter (\<lambda>l. l \<notin> set after) before)
      in ConfigReloaded (length after) added removed)"

definition reload_end :: "rstr list \<Rightarrow> 'w program \<Rightarrow> 'w program" where
  "reload_end before p = (tell (reload_event before (pg_manager p)) p)\<lparr>pg_reload := None\<rparr>"

text \<open>
  The first half of the shutdown: the message with the number of connections to drain goes
  out before anything stops, then the tokens are cancelled.
\<close>

definition stop_event :: "rstr \<Rightarrow> 'w program \<Rightarrow> event" where
  "stop_event signal p = Stopping signal (draining_connections (mg_registry (pg_manager p)))"

definition on_signal :: "rstr \<Rightarrow> 'w program \<Rightarrow> 'w program" where
  "on_signal signal p = (tell (stop_event signal p) p)\<lparr>pg_phase := Cancelled\<rparr>"

text \<open>
  Waiting for the signal: either handler may fail to install, otherwise the first signal to
  arrive names the shutdown.
\<close>

datatype signal_kind = SigTerm | SigInt

definition shutdown_signal :: "io_error + unit \<Rightarrow> io_error + unit \<Rightarrow> signal_kind \<Rightarrow> io_error + rstr" where
  "shutdown_signal sigterm sigint first =
     and_then sigterm (\<lambda>_. and_then sigint (\<lambda>_.
       Inr (case first of SigTerm \<Rightarrow> lit ''SIGTERM'' | SigInt \<Rightarrow> lit ''SIGINT'')))"

lemma sigterm_arrives: "shutdown_signal (Inr ()) (Inr ()) SigTerm = Inr (lit ''SIGTERM'')"
  by (simp add: shutdown_signal_def)

text \<open>The forwarders whose task may still run: in the table, waited for, or given up on.\<close>

definition live_handles :: "'w program \<Rightarrow> fwd_handle list" where
  "live_handles p =
     map snd (mg_forwarders (pg_manager p)) @ map snd (pg_reaping p)
     @ (case pg_stopping p of None \<Rightarrow> [] | Some lh \<Rightarrow> [snd lh]) @ mg_lingering (pg_manager p)"

definition alive :: "'w program \<Rightarrow> bool" where
  "alive p \<longleftrightarrow> pg_phase p \<noteq> Exited \<and> pg_phase p \<noteq> Aborted"

text \<open>
  The steps of \<open>main\<close>. Every wait has a deadline, so each of them has a rule for its end and one
  for its deadline; \<open>joined\<close> is how the wait for a forwarder's task ended.
\<close>

inductive main_step :: "'w program \<Rightarrow> 'w program \<Rightarrow> bool" where
  signal: "pg_phase p = Serving \<Longrightarrow> shutdown_signal sigterm sigint first = Inr name
    \<Longrightarrow> main_step p (logged (stop_event name p) (on_signal name p))"
| signal_error: "pg_phase p = Serving \<Longrightarrow> shutdown_signal sigterm sigint first = Inl e \<Longrightarrow> main_step p (p\<lparr>pg_phase := Aborted\<rparr>)"
| take_all: "pg_phase p = Cancelled \<Longrightarrow> take_all_handles (pg_manager p) = (hs, m)
    \<Longrightarrow> main_step p (p\<lparr>pg_manager := m, pg_reaping := hs, pg_phase := Reaping\<rparr>)"
| reap: "pg_phase p = Reaping \<Longrightarrow> pg_reaping p = lh # rest
    \<Longrightarrow> main_step p (p\<lparr>pg_manager := reap_handle joined lh (pg_manager p), pg_reaping := rest\<rparr>)"
| reaped: "pg_phase p = Reaping \<Longrightarrow> pg_reaping p = [] \<Longrightarrow> main_step p (p\<lparr>pg_phase := Draining\<rparr>)"
| drained: "pg_phase p = Draining \<Longrightarrow> pg_conns p = 0 \<Longrightarrow> main_step p (p\<lparr>pg_phase := WebhookFlush\<rparr>)"
| drain_timeout: "pg_phase p = Draining \<Longrightarrow> pg_conns p \<noteq> 0 \<Longrightarrow> main_step p (p\<lparr>pg_phase := WebhookFlush\<rparr>)"
| flushed: "pg_phase p = WebhookFlush \<Longrightarrow> fst (pg_worker p) = Stopped \<Longrightarrow> main_step p (p\<lparr>pg_phase := Exited\<rparr>)"
| flush_timeout: "pg_phase p = WebhookFlush \<Longrightarrow> fst (pg_worker p) \<noteq> Stopped \<Longrightarrow> main_step p (p\<lparr>pg_phase := Exited\<rparr>)"

text \<open>
  The steps of all other tasks. The watcher takes a save only while its token is not cancelled
  (its outer \<open>select!\<close> is biased), but the end of its delays and the cancellation race: when both
  have come, either may be chosen. It returns when it finds itself cancelled, and also when
  watching fails; it may panic in its debounce (\<open>Reload\<close>). The delivery worker sees its token
  cancelled only once \<open>main\<close> flushes, and \<open>main\<close> holds a sender as long as it lives.
\<close>

inductive task_step :: "('s, 'w) proc_env \<Rightarrow> 'w program \<Rightarrow> 'w program \<Rightarrow> bool" for px where
  report: "alive p \<Longrightarrow> BgStartupReport configs \<in> set (pg_tasks p)
    \<Longrightarrow> ev = Started (probe_all (px_net px) (mg_knobs (pg_manager p)) latency configs joined)
    \<Longrightarrow> task_step px p (logged ev (p\<lparr>pg_manager := startup_report (px_net px) latency joined configs (pg_manager p),
          pg_tasks := remove1 (BgStartupReport configs) (pg_tasks p)\<rparr>))"
| save_taken: "pg_phase p = Serving \<Longrightarrow> BgWatcher path policy \<in> set (pg_tasks p) \<Longrightarrow> pg_reload p = None \<Longrightarrow> \<not> pg_waiting p
    \<Longrightarrow> task_step px p (p\<lparr>pg_waiting := True\<rparr>)"
| wait_cancelled: "alive p \<Longrightarrow> pg_phase p \<noteq> Serving \<Longrightarrow> pg_waiting p
    \<Longrightarrow> task_step px p (p\<lparr>pg_waiting := False, pg_tasks := filter (\<lambda>t. \<forall>path policy. t \<noteq> BgWatcher path policy) (pg_tasks p)\<rparr>)"
| start_reload: "alive p \<Longrightarrow> pg_waiting p \<Longrightarrow> BgWatcher path policy \<in> set (pg_tasks p) \<Longrightarrow> pg_reload p = None
    \<Longrightarrow> load_yaml_config (px_files px v) path = Inr cf
    \<Longrightarrow> task_step px p (reload_begin (px_show_err px) (px_files px v) path policy (p\<lparr>pg_waiting := False\<rparr>))"
| failed_reload: "alive p \<Longrightarrow> pg_waiting p \<Longrightarrow> BgWatcher path policy \<in> set (pg_tasks p) \<Longrightarrow> pg_reload p = None
    \<Longrightarrow> load_yaml_config (px_files px v) path = Inl e
    \<Longrightarrow> task_step px p (logged (ConfigReloadFailed path (px_show_err px e))
          (reload_begin (px_show_err px) (px_files px v) path policy (p\<lparr>pg_waiting := False\<rparr>)))"
| plan: "alive p \<Longrightarrow> pg_reload p = Some (before, PlanSync cfgs)
    \<Longrightarrow> task_step px p (p\<lparr>pg_reload := Some (before, SyncCalls (sync_plan cfgs (pg_manager p)))\<rparr>)"
| stop_begin: "alive p \<Longrightarrow> pg_reload p = Some (before, SyncCalls (StopOp label # ops)) \<Longrightarrow> pg_stopping p = None
    \<Longrightarrow> take_handle label (pg_manager p) = (Some h, m)
    \<Longrightarrow> task_step px p (p\<lparr>pg_manager := m, pg_stopping := Some (label, h)\<rparr>)"
| stop_absent: "alive p \<Longrightarrow> pg_reload p = Some (before, SyncCalls (StopOp label # ops)) \<Longrightarrow> pg_stopping p = None
    \<Longrightarrow> take_handle label (pg_manager p) = (None, m) \<Longrightarrow> task_step px p (p\<lparr>pg_reload := Some (before, SyncCalls ops)\<rparr>)"
| stop_end: "alive p \<Longrightarrow> pg_reload p = Some (before, SyncCalls (StopOp label # ops)) \<Longrightarrow> pg_stopping p = Some lh
    \<Longrightarrow> task_step px p (p\<lparr>pg_manager := reap_handle joined lh (pg_manager p), pg_stopping := None,
          pg_reload := Some (before, SyncCalls ops)\<rparr>)"
| start: "alive p \<Longrightarrow> pg_reload p = Some (before, SyncCalls (StartOp cfg # ops))
    \<Longrightarrow> task_step px p (p\<lparr>pg_manager := start_one now cfg (pg_manager p), pg_reload := Some (before, SyncCalls ops)\<rparr>)"
| loaded: "alive p \<Longrightarrow> pg_reload p = Some (before, SyncCalls []) \<Longrightarrow> 
    task_step px p (logged (reload_event before (pg_manager p)) (reload_end before p))"
| watcher_gone: "alive p \<Longrightarrow> pg_reload p = None \<Longrightarrow> \<not> pg_waiting p
    \<Longrightarrow> task_step px p (p\<lparr>pg_tasks := filter (\<lambda>t. \<forall>path policy. t \<noteq> BgWatcher path policy) (pg_tasks p)\<rparr>)"
| ended: "alive p \<Longrightarrow> pg_phase p \<noteq> Serving \<Longrightarrow> t \<in> set (pg_tasks p) \<Longrightarrow> \<forall>path policy. t \<noteq> BgWatcher path policy
    \<Longrightarrow> \<forall>configs. t \<noteq> BgStartupReport configs \<Longrightarrow> task_step px p (p\<lparr>pg_tasks := remove1 t (pg_tasks p)\<rparr>)"
| accept: "alive p \<Longrightarrow> h \<in> set (live_handles p) \<Longrightarrow> fc_protocol (fh_config h) = Tcp
    \<Longrightarrow> task_step px p (p\<lparr>pg_conns := pg_conns p + 1\<rparr>)"
| finish: "alive p \<Longrightarrow> 0 < pg_conns p \<Longrightarrow> task_step px p (p\<lparr>pg_conns := pg_conns p - 1\<rparr>)"
| alert: "alive p \<Longrightarrow> task_step px p (logged ev (tell ev p))"
| worker: "alive p
    \<Longrightarrow> alert_step (px_post px) (px_instance px) (pg_worker p, 0, mg_alerts (pg_manager p), pg_world p) (wk, 0, al, w)
    \<Longrightarrow> fst wk = fst (pg_worker p) \<or> pg_phase p = WebhookFlush \<Longrightarrow> fst (pg_worker p) = Running \<longrightarrow> fst wk \<noteq> Stopped
    \<Longrightarrow> task_step px p (p\<lparr>pg_manager := (pg_manager p)\<lparr>mg_alerts := al\<rparr>, pg_worker := wk, pg_world := w\<rparr>)"

inductive program_step :: "('s, 'w) proc_env \<Rightarrow> 'w program \<Rightarrow> 'w program \<Rightarrow> bool" for px where
  main: "main_step p p' \<Longrightarrow> program_step px p p'"
| task: "task_step px p p' \<Longrightarrow> program_step px p p'"

inductive_cases program_stepE: "program_step px p p'"

section \<open>Invariants of a run\<close>

lemma tell_fields [simp]:
  "pg_manager (tell ev p) = (pg_manager p)\<lparr>mg_alerts := notify ev (mg_alerts (pg_manager p))\<rparr>"
  "pg_phase (tell ev p) = pg_phase p" "pg_tasks (tell ev p) = pg_tasks p" "pg_reload (tell ev p) = pg_reload p"
  "pg_stopping (tell ev p) = pg_stopping p" "pg_reaping (tell ev p) = pg_reaping p" "pg_conns (tell ev p) = pg_conns p"
  "pg_worker (tell ev p) = pg_worker p" "pg_world (tell ev p) = pg_world p" "pg_waiting (tell ev p) = pg_waiting p"
  "pg_log (tell ev p) = pg_log p"
  by (simp_all add: tell_def)

lemma logged_fields [simp]:
  "pg_manager (logged ev p) = pg_manager p" "pg_phase (logged ev p) = pg_phase p" "pg_tasks (logged ev p) = pg_tasks p"
  "pg_reload (logged ev p) = pg_reload p" "pg_stopping (logged ev p) = pg_stopping p" "pg_reaping (logged ev p) = pg_reaping p"
  "pg_conns (logged ev p) = pg_conns p" "pg_worker (logged ev p) = pg_worker p" "pg_world (logged ev p) = pg_world p"
  "pg_waiting (logged ev p) = pg_waiting p" "pg_log (logged ev p) = pg_log p @ [ev]"
  by (simp_all add: logged_def)

text \<open>
  The table and the registry before the shutdown takes the handles: they agree up to the one
  label whose task a reload waits for, which has left the table and not yet the registry.
\<close>

definition table_ok :: "manager \<Rightarrow> rstr set \<Rightarrow> bool" where
  "table_ok m leaving \<longleftrightarrow>
     distinct (running_labels m)
     \<and> list_all (\<lambda>(l, h). l = fc_label (fh_config h) \<and> fh_task h < mg_next_task m) (mg_forwarders m)
     \<and> distinct (map (\<lambda>(l, h). fh_task h) (mg_forwarders m))
     \<and> set (registry_labels (mg_registry m)) = set (running_labels m) \<union> leaving
     \<and> set (running_labels m) \<inter> leaving = {}"

definition leaving :: "'w program \<Rightarrow> rstr set" where
  "leaving p = (case pg_stopping p of None \<Rightarrow> {} | Some lh \<Rightarrow> {fst lh})"

definition before_reaping :: "'w program \<Rightarrow> bool" where
  "before_reaping p \<longleftrightarrow>
     pg_phase p \<in> {Serving, Cancelled} \<longrightarrow>
       pg_reaping p = [] \<and> table_ok (pg_manager p) (leaving p)
       \<and> (case pg_stopping p of None \<Rightarrow> True | Some lh \<Rightarrow> \<exists>before ops. pg_reload p = Some (before, SyncCalls (StopOp (fst lh) # ops)))"

lemma manager_ok_table: "manager_ok m \<longleftrightarrow> table_ok m {}"
  by (auto simp: manager_ok_def table_ok_def)

lemma table_ok_frame [simp]:
  "table_ok (m\<lparr>mg_alerts := al\<rparr>) ls = table_ok m ls" "table_ok (m\<lparr>mg_knobs := k\<rparr>) ls = table_ok m ls"
  by (simp_all add: table_ok_def running_labels_def)

lemma table_ok_take:
  assumes "table_ok m {}" and "take_handle label m = (Some h, m')"
  shows "table_ok m' {label}"
proof -
  have m': "m' = m\<lparr>mg_forwarders := filter (\<lambda>(l, _). l \<noteq> label) (mg_forwarders m)\<rparr>"
    and "map_of (mg_forwarders m) label = Some h" using assms(2) by (simp_all add: take_handle_def)
  then have in_table: "label \<in> set (running_labels m)"
    by (auto simp: running_labels_def dest!: map_of_SomeD intro: rev_image_eqI)
  have run: "running_labels m' = filter (\<lambda>k. k \<noteq> label) (running_labels m)"
    by (simp add: m' running_labels_def filter_map comp_def case_prod_unfold)
  have "manager_ok (stop_one (\<lambda>_. JoinOk) label m)" using assms(1) manager_ok_table stop_one_ok by blast
  then have "distinct (running_labels m')" "distinct (map (\<lambda>(l, h). fh_task h) (mg_forwarders m'))"
    "list_all (\<lambda>(l, h). l = fc_label (fh_config h) \<and> fh_task h < mg_next_task m') (mg_forwarders m')"
    by (simp_all add: stop_one_parts assms(2) manager_ok_def reap_handle_def running_labels_def)
  moreover have "set (registry_labels (mg_registry m')) = set (running_labels m') \<union> {label}"
    using assms(1) in_table by (auto simp: m' table_ok_def run [unfolded m'])
  ultimately show ?thesis by (simp add: table_ok_def run)
qed

lemma table_ok_reap: "table_ok m {l} \<Longrightarrow> table_ok (reap_handle joined (l, h) m) {}"
  by (auto simp: table_ok_def reap_handle_def running_labels_def stats_reg.set_labels_remove)

lemma before_reaping_step: "program_step px p p' \<Longrightarrow> before_reaping p \<Longrightarrow> before_reaping p'"
proof (erule program_stepE)
  assume "main_step p p'" and inv: "before_reaping p"
  then show "before_reaping p'"
    by (induction rule: main_step.induct) (auto simp: before_reaping_def leaving_def on_signal_def split: option.splits)
next
  assume "task_step px p p'" and inv: "before_reaping p"
  then show "before_reaping p'"
  proof (induction rule: task_step.induct)
    case (start_reload p path policy v cf)
    then show ?case
      by (auto simp: before_reaping_def leaving_def reload_begin_def Let_def update_knobs_def split: option.splits)
  next
    case (failed_reload p path policy v e)
    then show ?case by (auto simp: before_reaping_def leaving_def reload_begin_def split: option.splits)
  next
    case (stop_begin p before label ops h m)
    then show ?case by (auto simp: before_reaping_def leaving_def intro: table_ok_take)
  next
    case (stop_end p before label ops lh joined)
    then show ?case by (cases lh) (auto simp: before_reaping_def leaving_def intro: table_ok_reap)
  next
    case (start p before cfg ops now)
    then have none: "pg_stopping p = None" if "pg_phase p \<in> {Serving, Cancelled}"
      using that by (auto simp: before_reaping_def split: option.splits)
    with start show ?case
      using start_one_ok [of "pg_manager p" now cfg] by (auto simp: before_reaping_def leaving_def manager_ok_table)
  next
    case (loaded p before)
    then have "pg_stopping p = None" if "pg_phase p \<in> {Serving, Cancelled}"
      using that by (auto simp: before_reaping_def split: option.splits)
    with loaded show ?case by (auto simp: before_reaping_def leaving_def reload_end_def Let_def)
  qed (auto simp: before_reaping_def leaving_def startup_report_def split: option.splits)
qed

lemma before_reaping_run:
  assumes "manager_ok m" and "(program_step px)\<^sup>*\<^sup>* (program_init m tasks w) p"
  shows "before_reaping p"
proof -
  have "before_reaping (program_init m tasks w)"
    using assms(1) by (simp add: before_reaping_def leaving_def program_init_def manager_ok_table)
  with assms(2) show ?thesis by (induction rule: rtranclp_induct) (auto intro: before_reaping_step)
qed

text \<open>
  The shutdown once the signal has come and the watcher is neither reloading nor about to. No
  forwarder that was not live in \<open>hs\<close> is live.
\<close>

definition winding_down :: "fwd_handle set \<Rightarrow> 'w program \<Rightarrow> bool" where
  "winding_down hs p \<longleftrightarrow>
     pg_phase p \<noteq> Serving \<and> pg_phase p \<noteq> Aborted \<and> pg_reload p = None \<and> \<not> pg_waiting p \<and> pg_stopping p = None
     \<and> distinct (map fst (pg_reaping p)) \<and> set (live_handles p) \<subseteq> hs
     \<and> (pg_phase p = Cancelled \<longrightarrow> manager_ok (pg_manager p))
     \<and> (pg_phase p \<noteq> Cancelled \<longrightarrow>
          mg_forwarders (pg_manager p) = [] \<and> set (registry_labels (mg_registry (pg_manager p))) = fst ` set (pg_reaping p))
     \<and> (pg_phase p \<notin> {Cancelled, Reaping} \<longrightarrow> pg_reaping p = [])"

lemma winding_down_step: "program_step px p p' \<Longrightarrow> winding_down hs p \<Longrightarrow> winding_down hs p'"
proof (erule program_stepE)
  assume "main_step p p'" and "winding_down hs p"
  then show "winding_down hs p'"
  proof (induction rule: main_step.induct)
    case (take_all p ts m)
    then have "ts = mg_forwarders (pg_manager p)" "m = (pg_manager p)\<lparr>mg_forwarders := []\<rparr>" by (simp_all add: take_all_handles_def)
    with take_all show ?case by (auto simp: winding_down_def manager_ok_def running_labels_def live_handles_def)
  next
    case (reap p lh rest joined)
    then show ?case by (auto simp: winding_down_def reap_handle_def stats_reg.set_labels_remove live_handles_def)
  qed (auto simp: winding_down_def live_handles_def)
next
  assume "task_step px p p'" and "winding_down hs p"
  then show "winding_down hs p'"
    by (induction rule: task_step.induct)
      (auto simp: winding_down_def startup_report_def manager_ok_table live_handles_def)
qed

text \<open>
  C19. The shutdown leaves nothing running, unless it meets a reload. When the signal has come in
  any run of the process, and the watcher is then neither reloading nor in the delays before a
  reload, then however the rest of the shutdown interleaves with the other tasks, at the exit no
  forwarder is left in the table, no label in the registry and no reload under way. The only
  forwarder tasks that may still run are some of those that ran when the signal came and did
  not end within the time they were given.\<close>
theorem shutdown_leaves_nothing:
  assumes "manager_ok m" and "(program_step px)\<^sup>*\<^sup>* (program_init m tasks w) p"
    and "pg_phase p = Cancelled" and "pg_reload p = None" and "\<not> pg_waiting p"
    and "(program_step px)\<^sup>*\<^sup>* p p'" and "pg_phase p' = Exited"
  shows "mg_forwarders (pg_manager p') = [] \<and> registry_labels (mg_registry (pg_manager p')) = [] \<and> pg_reload p' = None
     \<and> live_handles p' = mg_lingering (pg_manager p') \<and> set (live_handles p') \<subseteq> set (live_handles p)"
proof -
  have "winding_down (set (live_handles p)) p"
    using before_reaping_run [OF assms(1,2)] assms(3-5)
    by (auto simp: before_reaping_def leaving_def winding_down_def manager_ok_table split: option.splits)
  with assms(6) have "winding_down (set (live_handles p)) p'"
    by (induction rule: rtranclp_induct) (auto intro: winding_down_step)
  with assms(7) show ?thesis by (auto simp: winding_down_def live_handles_def)
qed

definition sample_net :: "unit net_env" where
  "sample_net = \<lparr>ne_resolver = (\<lambda>h. LookupTimeout), ne_attempt = (\<lambda>a. Attempt 0 (Inl []))\<rparr>"

definition sample_px :: "(unit, unit) proc_env" where
  "sample_px = \<lparr>px_show_err = (\<lambda>_. []), px_files = (\<lambda>_. se_load sample_env), px_net = sample_net, px_post = ok_post, px_instance = sample_inst\<rparr>"

section \<open>Runs\<close>

text \<open>All handles are waited for, one after the other, and every task ends in time.\<close>

lemma run_reaps:
  "pg_phase p = Reaping \<Longrightarrow> pg_reaping p = hs @ rest \<Longrightarrow>
   (program_step px)\<^sup>*\<^sup>* p (p\<lparr>pg_manager := fold (reap_handle JoinOk) hs (pg_manager p), pg_reaping := rest\<rparr>)"
proof (induction hs arbitrary: p)
  case Nil
  then have "p\<lparr>pg_reaping := rest\<rparr> = p" by (cases p) simp
  then show ?case by simp
next
  case (Cons lh hs)
  let ?q = "p\<lparr>pg_manager := reap_handle JoinOk lh (pg_manager p), pg_reaping := hs @ rest\<rparr>"
  have "program_step px p ?q" using Cons.prems by (intro program_step.main main_step.reap) simp_all
  moreover have "(program_step px)\<^sup>*\<^sup>* ?q
      (?q\<lparr>pg_manager := fold (reap_handle JoinOk) hs (pg_manager ?q), pg_reaping := rest\<rparr>)"
    by (rule Cons.IH) (use Cons.prems in simp_all)
  ultimately show ?case by (simp add: converse_rtranclp_into_rtranclp)
qed

text \<open>The run of \<open>main\<close> from a cancelled state to the drain, and from there to the exit.\<close>

lemma main_reaps:
  assumes "pg_phase p = Cancelled"
  shows "(program_step px)\<^sup>*\<^sup>* p
    (p\<lparr>pg_manager := shutdown_all (\<lambda>_. JoinOk) (pg_manager p), pg_reaping := [], pg_phase := Draining\<rparr>)"
proof -
  obtain hs m where t: "take_all_handles (pg_manager p) = (hs, m)" by fastforce
  let ?p1 = "p\<lparr>pg_manager := m, pg_reaping := hs, pg_phase := Reaping\<rparr>"
  let ?p2 = "?p1\<lparr>pg_manager := fold (reap_handle JoinOk) hs (pg_manager ?p1), pg_reaping := []\<rparr>"
  have "program_step px p ?p1" by (intro program_step.main main_step.take_all assms t)
  moreover have "(program_step px)\<^sup>*\<^sup>* ?p1 ?p2" by (rule run_reaps) simp_all
  moreover have "program_step px ?p2 (?p2\<lparr>pg_phase := Draining\<rparr>)" by (intro program_step.main main_step.reaped) simp_all
  ultimately have "(program_step px)\<^sup>*\<^sup>* p (?p2\<lparr>pg_phase := Draining\<rparr>)"
    by (meson converse_rtranclp_into_rtranclp rtranclp.rtrancl_into_rtrancl)
  then show ?thesis by (simp add: shutdown_all_parts t)
qed

lemma main_exits:
  assumes "pg_phase p = Draining"
  shows "(program_step px)\<^sup>*\<^sup>* p (p\<lparr>pg_phase := Exited\<rparr>)"
proof -
  let ?q = "p\<lparr>pg_phase := WebhookFlush\<rparr>"
  have "program_step px p ?q"
    using main_step.drained [OF assms] main_step.drain_timeout [OF assms] by (cases "pg_conns p = 0") (auto intro: program_step.main)
  moreover have "program_step px ?q (?q\<lparr>pg_phase := Exited\<rparr>)"
    using main_step.flushed [of ?q] main_step.flush_timeout [of ?q] by (cases "fst (pg_worker p) = Stopped") (auto intro: program_step.main)
  ultimately show ?thesis by (simp add: converse_rtranclp_into_rtranclp)
qed

text \<open>One signal, the shutdown and the exit, from a manager that serves.\<close>

theorem shutdown_leaves_nothing_witness:
  "serving sample_manager \<noteq> []
   \<and> (\<exists>p. (program_step sample_px)\<^sup>*\<^sup>* (program_init sample_manager [] ()) p \<and> mg_forwarders (pg_manager p) = [])"
proof -
  define p0 where "p0 = program_init sample_manager [] ()"
  define p1 where "p1 = logged (stop_event (lit ''SIGTERM'') p0) (on_signal (lit ''SIGTERM'') p0)"
  let ?step = "program_step sample_px"
  have ph: "pg_phase p0 = Serving" "pg_phase p1 = Cancelled" "pg_reload p1 = None" "\<not> pg_waiting p1"
    by (simp_all add: p0_def p1_def program_init_def on_signal_def)
  have r1: "?step\<^sup>*\<^sup>* p0 p1" unfolding p1_def by (rule r_into_rtranclp) (rule program_step.main [OF main_step.signal [OF ph(1) sigterm_arrives]])
  define p2 where "p2 = p1\<lparr>pg_manager := shutdown_all (\<lambda>_. JoinOk) (pg_manager p1), pg_reaping := [], pg_phase := Draining\<rparr>"
  have r2: "?step\<^sup>*\<^sup>* p1 (p2\<lparr>pg_phase := Exited\<rparr>)"
    using main_reaps [OF ph(2), of sample_px, folded p2_def] main_exits [of p2 sample_px] by (simp add: p2_def)
  have "mg_forwarders (pg_manager (p2\<lparr>pg_phase := Exited\<rparr>)) = []"
    using shutdown_leaves_nothing [OF sample_manager_facts(1) r1 [unfolded p0_def] ph(2,3,4) r2] by simp
  moreover have "?step\<^sup>*\<^sup>* p0 (p2\<lparr>pg_phase := Exited\<rparr>)" using r1 r2 by (rule rtranclp_trans)
  moreover have "serving sample_manager \<noteq> []" by (simp add: sample_manager_facts sample_configs_def)
  ultimately show ?thesis unfolding p0_def by blast
qed

section \<open>A reload that meets the shutdown\<close>

text \<open>The calls of a \<open>sync\<close> that nothing disturbs.\<close>

lemma manager_self [simp]: "p\<lparr>pg_manager := pg_manager p\<rparr> = p"
  by (cases p) simp

lemma sync_runs:
  assumes "alive p" and "pg_stopping p = None" and "pg_reload p = Some (before, SyncCalls ops)"
  shows "(program_step px)\<^sup>*\<^sup>* p
    (p\<lparr>pg_manager := fold (run_op wait now) ops (pg_manager p), pg_reload := Some (before, SyncCalls [])\<rparr>)"
  using assms
proof (induction ops arbitrary: p)
  case Nil
  then have "p\<lparr>pg_reload := Some (before, SyncCalls [])\<rparr> = p" by (cases p) simp
  then show ?case by simp
next
  case (Cons op ops)
  let ?q = "p\<lparr>pg_manager := run_op wait now op (pg_manager p), pg_reload := Some (before, SyncCalls ops)\<rparr>"
  have "(program_step px)\<^sup>*\<^sup>* p ?q"
  proof (cases op)
    case (StartOp c)
    have "task_step px p ?q" using Cons.prems StartOp by (auto intro: task_step.start)
    then show ?thesis by (intro r_into_rtranclp program_step.task)
  next
    case (StopOp l)
    obtain h m where t: "take_handle l (pg_manager p) = (h, m)" by fastforce
    show ?thesis
    proof (cases h)
      case None
      with t StopOp have "?q = p\<lparr>pg_reload := Some (before, SyncCalls ops)\<rparr>" by (simp add: stop_one_parts)
      moreover have "task_step px p (p\<lparr>pg_reload := Some (before, SyncCalls ops)\<rparr>)"
        using Cons.prems StopOp t None by (intro task_step.stop_absent) simp_all
      ultimately show ?thesis by (metis program_step.task r_into_rtranclp)
    next
      case (Some g)
      let ?r = "p\<lparr>pg_manager := m, pg_stopping := Some (l, g)\<rparr>"
      have first: "task_step px p ?r" using Cons.prems StopOp t Some by (intro task_step.stop_begin) simp_all
      have "task_step px ?r (?r\<lparr>pg_manager := reap_handle (wait l) (l, g) (pg_manager ?r), pg_stopping := None,
          pg_reload := Some (before, SyncCalls ops)\<rparr>)"
        using Cons.prems StopOp by (intro task_step.stop_end [where label = l]) (simp_all add: alive_def)
      also have "?r\<lparr>pg_manager := reap_handle (wait l) (l, g) (pg_manager ?r), pg_stopping := None,
          pg_reload := Some (before, SyncCalls ops)\<rparr> = ?q"
        using Cons.prems(2) StopOp t Some by (cases p) (simp add: stop_one_parts)
      finally have second: "task_step px ?r ?q" .
      have "program_step px p ?r" using first by (rule program_step.task)
      moreover have "(program_step px)\<^sup>*\<^sup>* ?r ?q" by (rule r_into_rtranclp) (rule program_step.task [OF second])
      ultimately show ?thesis by (rule converse_rtranclp_into_rtranclp)
    qed
  qed
  moreover have "(program_step px)\<^sup>*\<^sup>* ?q
      (?q\<lparr>pg_manager := fold (run_op wait now) ops (pg_manager ?q), pg_reload := Some (before, SyncCalls [])\<rparr>)"
    by (rule Cons.IH) (use Cons.prems in \<open>simp_all add: alive_def\<close>)
  ultimately show ?case by (simp add: rtranclp_trans)
qed

lemma late_calls:
  assumes "alive p" and "pg_stopping p = None" and "mg_forwarders (pg_manager p) = []"
    and "pg_reload p = Some (before, SyncCalls (map StopOp ls @ map StartOp cs))"
  shows "(program_step px)\<^sup>*\<^sup>* p
    (p\<lparr>pg_manager := fold (start_one 0) cs (pg_manager p), pg_reload := Some (before, SyncCalls [])\<rparr>)"
proof -
  let ?m = "pg_manager p"
  have "fold (run_op (\<lambda>_. JoinOk) 0) (map StopOp ls) ?m = ?m"
    using assms(3) by (induction ls) (simp_all add: stop_one_absent running_labels_def)
  then have "fold (run_op (\<lambda>_. JoinOk) 0) (map StopOp ls @ map StartOp cs) ?m = fold (start_one 0) cs ?m"
    by (simp add: start_all_ops [symmetric] start_all_def)
  with sync_runs [OF assms(1,2,4), of px "\<lambda>_. JoinOk" 0] show ?thesis by simp
qed

lemma starts_on_empty:
  "distinct (map fc_label cs) \<Longrightarrow> (\<forall>c \<in> set cs. fc_label c \<notin> set (running_labels m)) \<Longrightarrow>
   serving (fold (start_one now) cs m) = serving m @ cs"
  by (simp add: serving_starts first_by_label_distinct filter_id_conv)

text \<open>
  C38. A reload that is under way when the signal comes can outlive the shutdown. The watcher does
  not look at its token between the calls of a \<open>sync\<close>, and the manager has no state that refuses
  a start after \<open>shutdown_all\<close> has emptied the table: for every running manager and every good
  file there is a run in which the process exits after an orderly shutdown with all the
  forwarders serving that the file added, although everything that was running has been stopped.\<close>
theorem late_reload_survives_shutdown:
  assumes "manager_ok m" and "BgWatcher path policy \<in> set tasks" and "rl_source policy = SrcFile"
    and "load_yaml_config (px_files px v) path = Inr cf"
    and "added = filter (\<lambda>c. fc_label c \<notin> set (running_labels m)) (cf_forwarders cf)" and "distinct (map fc_label added)"
  shows "\<exists>p. (program_step px)\<^sup>*\<^sup>* (program_init m tasks w) p \<and> pg_phase p = Exited \<and> serving (pg_manager p) = added"
proof -
  let ?step = "program_step px"
  define p0 where "p0 = program_init m tasks w"
  have p0_tasks: "pg_tasks p0 = tasks" by (simp add: p0_def program_init_def)
  define q0 where "q0 = p0\<lparr>pg_waiting := True\<rparr>"
  define q where "q = reload_begin (px_show_err px) (px_files px v) path policy (q0\<lparr>pg_waiting := False\<rparr>)"
  define gone where "gone = filter (\<lambda>l. l \<notin> set (map fc_label (cf_forwarders cf))) (running_labels m)"
  define p1 where "p1 = q\<lparr>pg_reload := Some (running_labels m, SyncCalls (map StopOp gone @ map StartOp added))\<rparr>"
  define p2 where "p2 = logged (stop_event (lit ''SIGTERM'') p1) (on_signal (lit ''SIGTERM'') p1)"
  define p3 where "p3 = p2\<lparr>pg_manager := shutdown_all (\<lambda>_. JoinOk) (pg_manager p2), pg_reaping := [], pg_phase := Draining\<rparr>"
  let ?m1 = "update_knobs (apply_cli_overrides (cf_settings cf) (rl_cli policy)) m"
  have "running_labels ?m1 = running_labels m" by (simp add: update_knobs_def running_labels_def)
  then have plan: "sync_plan (cf_forwarders cf) ?m1 = map StopOp gone @ map StartOp added"
    by (simp add: sync_plan_def gone_def assms(5) Let_def)
  have q: "pg_manager q = ?m1" "pg_reload q = Some (running_labels m, PlanSync (cf_forwarders cf))"
    "pg_phase q = Serving" "pg_stopping q = None"
    using assms(3,4) by (simp_all add: q_def q0_def p0_def program_init_def reload_begin_def Let_def)
  have p1: "pg_manager p1 = ?m1" "pg_reload p1 = Some (running_labels m, SyncCalls (map StopOp gone @ map StartOp added))"
    "pg_phase p1 = Serving" "pg_stopping p1 = None" using q by (simp_all add: p1_def)
  have ok2: "manager_ok (pg_manager p2)" using assms(1) p1 by (simp add: p2_def on_signal_def manager_ok_table update_knobs_def)
  have p3: "alive p3" "pg_stopping p3 = None" "mg_forwarders (pg_manager p3) = []"
    "pg_reload p3 = Some (running_labels m, SyncCalls (map StopOp gone @ map StartOp added))"
    using p1 shutdown_complete [OF ok2] by (simp_all add: p3_def p2_def on_signal_def alive_def)
  define p4 where "p4 = p3\<lparr>pg_manager := fold (start_one 0) added (pg_manager p3), pg_reload := Some (running_labels m, SyncCalls [])\<rparr>"
  have "?step p0 q0" unfolding q0_def
    by (rule program_step.task [OF task_step.save_taken [OF _ assms(2) [folded p0_tasks]]]) (simp_all add: p0_def program_init_def)
  moreover have "?step q0 q" unfolding q_def
    by (rule program_step.task [OF task_step.start_reload [OF _ _ _ _ assms(4)]])
      (use assms(2) in \<open>simp_all add: q0_def p0_def program_init_def alive_def\<close>)
  moreover have "?step q p1" unfolding p1_def plan [folded q(1), symmetric]
    using q by (intro program_step.task task_step.plan) (simp_all add: alive_def)
  moreover have "?step p1 p2" unfolding p2_def by (rule program_step.main [OF main_step.signal [OF p1(3) sigterm_arrives]])
  moreover have "?step\<^sup>*\<^sup>* p2 p3" unfolding p3_def by (rule main_reaps) (simp add: p2_def on_signal_def)
  moreover have "?step\<^sup>*\<^sup>* p3 p4" unfolding p4_def by (rule late_calls [OF p3])
  moreover have "?step\<^sup>*\<^sup>* p4 (p4\<lparr>pg_phase := Exited\<rparr>)" by (rule main_exits) (simp add: p4_def p3_def)
  ultimately have "?step\<^sup>*\<^sup>* p0 (p4\<lparr>pg_phase := Exited\<rparr>)"
    by (meson converse_rtranclp_into_rtranclp rtranclp_trans)
  moreover have "serving (pg_manager p4) = added"
    using starts_on_empty [OF assms(6), of "pg_manager p3"] p3(3) by (simp add: p4_def serving_def running_labels_def)
  ultimately show ?thesis unfolding p0_def by (intro exI [of _ "p4\<lparr>pg_phase := Exited\<rparr>"]) simp
qed

theorem late_reload_survives_shutdown_witness:
  "\<exists>p. (program_step sample_px)\<^sup>*\<^sup>*
        (program_init sample_manager [BgWatcher [] \<lparr>rl_cli = cli_default, rl_source = SrcFile\<rparr>] ()) p
     \<and> pg_phase p = Exited \<and> serving (pg_manager p) = fs_expand sample_spec"
proof -
  have labels: "fc_label c \<notin> set (running_labels sample_manager)" if "c \<in> set (fs_expand sample_spec)" for c
  proof
    assume "fc_label c \<in> set (running_labels sample_manager)"
    then have "fc_label c \<in> fc_label ` set (serving sample_manager)"
      using serving_labels [OF sample_manager_facts(1)] by (metis list.set_map)
    then obtain d where d: "d \<in> set (sample_configs (lit ''a''))" "fc_label c = fc_label d"
      by (auto simp: sample_manager_facts)
    have "hosts_plain c" "hosts_plain d"
      using sample_plain that d(1) by (auto simp: list_all_iff sample_configs_def hosts_plain_def)
    then have "c = d" using d(2) by (rule label_identifies)
    with that d(1) show False
      by (auto simp: fs_expand_def sample_spec_def sample_configs_def Let_def)
  qed
  have "distinct (map fc_label (fs_expand sample_spec))"
    using sample_endpoints sample_plain by (auto simp: distinct_map inj_on_def list_all_iff intro: label_identifies)
  moreover have "load_yaml_config (px_files sample_px 0) [] = Inr \<lparr>cf_forwarders = fs_expand sample_spec, cf_settings = settings_default\<rparr>"
    by (simp add: sample_px_def sample_loads)
  note late_reload_survives_shutdown [OF sample_manager_facts(1) _ _ this refl, of "\<lparr>rl_cli = cli_default, rl_source = SrcFile\<rparr>"
      "[BgWatcher [] \<lparr>rl_cli = cli_default, rl_source = SrcFile\<rparr>]" "()"]
  ultimately show ?thesis using labels by (simp add: filter_id_conv cong: filter_cong)
qed

end
