(* ===== verification/Shutdown_Ends.thy ===== *)
theory Shutdown_Ends
  imports Program
begin

text \<open>
  The shutdown of the process (\<open>Program\<close>) comes to its end: \<open>main\<close> is never blocked by another task,
  makes a bounded number of steps, and spends a bounded time at its awaits. The deadlines are
  those of \<open>src/src/main.rs\<close> and \<open>src/src/manager.rs\<close>.
\<close>

section \<open>Deadlines\<close>

definition WEBHOOK_FLUSH_GRACE :: duration where "WEBHOOK_FLUSH_GRACE = from_secs 3"

text \<open>The longest time \<open>main\<close> can stay at its next await.\<close>

definition step_deadline :: "'w program \<Rightarrow> duration" where
  "step_deadline p =
     (case pg_phase p of
        Reaping \<Rightarrow> if pg_reaping p = [] then 0 else STOP_LISTENER_GRACE
      | Draining \<Rightarrow> SHUTDOWN_DRAIN_GRACE
      | WebhookFlush \<Rightarrow> WEBHOOK_FLUSH_GRACE
      | _ \<Rightarrow> 0)"

text \<open>\<open>timed_run px n t\<close>: in a run \<open>main\<close> makes \<open>n\<close> steps that take it \<open>t\<close>, other tasks as many as they like.\<close>

inductive timed_run :: "('s, 'w) proc_env \<Rightarrow> nat \<Rightarrow> duration \<Rightarrow> 'w program \<Rightarrow> 'w program \<Rightarrow> bool" for px where
  none: "timed_run px 0 0 p p"
| main: "timed_run px n t p q \<Longrightarrow> main_step q r \<Longrightarrow> d \<le> step_deadline q \<Longrightarrow> timed_run px (n + 1) (t + d) p r"
| other: "timed_run px n t p q \<Longrightarrow> task_step px q r \<Longrightarrow> timed_run px n t p r"

text \<open>
  What is still ahead of \<open>main\<close>: a reload under way may still start forwarders to wait for, at most
  those of its file before it has planned its calls, and a watcher in its delays may still begin
  one, whose file lists at most \<open>B\<close> forwarders.
\<close>

fun is_start :: "sync_op \<Rightarrow> bool" where
  "is_start (StartOp c) = True"
| "is_start (StopOp l) = False"

definition pending_ops :: "nat \<Rightarrow> 'w program \<Rightarrow> nat" where
  "pending_ops B p =
     (if pg_waiting p then B else 0)
     + (case pg_reload p of
        None \<Rightarrow> 0
      | Some (_, PlanSync cfgs) \<Rightarrow> length cfgs
      | Some (_, SyncCalls ops) \<Rightarrow> length (filter is_start ops))"

lemma sync_plan_starts: "length (filter is_start (sync_plan cfgs m)) \<le> length cfgs"
  by (simp add: sync_plan_def Let_def filter_map comp_def)

definition main_left :: "nat \<Rightarrow> 'w program \<Rightarrow> nat" where
  "main_left B p =
     (case pg_phase p of
        Cancelled \<Rightarrow> 4 + length (mg_forwarders (pg_manager p)) + pending_ops B p
      | Reaping \<Rightarrow> 3 + length (pg_reaping p)
      | Draining \<Rightarrow> 2 | WebhookFlush \<Rightarrow> 1 | _ \<Rightarrow> 0)"

definition time_left :: "nat \<Rightarrow> 'w program \<Rightarrow> duration" where
  "time_left B p =
     (case pg_phase p of
        Cancelled \<Rightarrow> (length (mg_forwarders (pg_manager p)) + pending_ops B p) * STOP_LISTENER_GRACE
          + SHUTDOWN_DRAIN_GRACE + WEBHOOK_FLUSH_GRACE
      | Reaping \<Rightarrow> length (pg_reaping p) * STOP_LISTENER_GRACE + SHUTDOWN_DRAIN_GRACE + WEBHOOK_FLUSH_GRACE
      | Draining \<Rightarrow> SHUTDOWN_DRAIN_GRACE + WEBHOOK_FLUSH_GRACE
      | WebhookFlush \<Rightarrow> WEBHOOK_FLUSH_GRACE | _ \<Rightarrow> 0)"

definition stopping_down :: "'w program \<Rightarrow> bool" where
  "stopping_down p \<longleftrightarrow> pg_phase p \<noteq> Serving \<and> pg_phase p \<noteq> Aborted"

lemmas left_defs = main_left_def time_left_def step_deadline_def stopping_down_def pending_ops_def

lemma main_step_left:
  "main_step p p' \<Longrightarrow> stopping_down p \<Longrightarrow>
   stopping_down p' \<and> (pg_waiting p' \<longrightarrow> pg_waiting p) \<and> main_left B p' + 1 \<le> main_left B p \<and> time_left B p' + step_deadline p \<le> time_left B p"
  by (induction rule: main_step.induct) (auto simp: left_defs take_all_handles_def split: option.splits)

lemma start_one_length: "length (mg_forwarders (start_one now c m)) \<le> length (mg_forwarders m) + 1"
  by (simp add: start_one_def Let_def split: prod.split)

text \<open>The lists of the files are no longer than \<open>B\<close>.\<close>

definition lists_within :: "('s, 'w) proc_env \<Rightarrow> nat \<Rightarrow> bool" where
  "lists_within px B \<longleftrightarrow> (\<forall>v path cf. load_yaml_config (px_files px v) path = Inr cf \<longrightarrow> length (cf_forwarders cf) \<le> B)"

lemma task_step_left:
  "task_step px p p' \<Longrightarrow> stopping_down p \<Longrightarrow> pg_waiting p \<longrightarrow> lists_within px B
   \<Longrightarrow> stopping_down p' \<and> (pg_waiting p' \<longrightarrow> pg_waiting p) \<and> main_left B p' \<le> main_left B p \<and> time_left B p' \<le> time_left B p"
proof (induction rule: task_step.induct)
  case (start_reload p path policy v cf)
  then have "length (cf_forwarders cf) \<le> B" by (auto simp: lists_within_def)
  moreover from this have "length (cf_forwarders cf) * STOP_LISTENER_GRACE \<le> B * STOP_LISTENER_GRACE" by (rule mult_le_mono1)
  ultimately show ?case using start_reload
    by (auto simp: left_defs reload_begin_def Let_def update_knobs_def add_mult_distrib split: phase.splits)
next
  case (plan p before cfgs)
  then show ?case using sync_plan_starts [of cfgs "pg_manager p"] mult_le_mono1 [OF sync_plan_starts [of cfgs "pg_manager p"], of STOP_LISTENER_GRACE]
    by (auto simp: left_defs add_mult_distrib split: phase.splits)
next
  case (stop_begin p before label ops h m)
  then have "length (mg_forwarders m) \<le> length (mg_forwarders (pg_manager p))" by (auto simp: take_handle_def)
  with stop_begin show ?case by (auto simp: left_defs split: phase.splits)
next
  case (start p before cfg ops now)
  have "length (mg_forwarders (start_one now cfg (pg_manager p))) + length (filter is_start ops)
      \<le> length (mg_forwarders (pg_manager p)) + (length (filter is_start ops) + 1)"
    using start_one_length [of now cfg "pg_manager p"] by simp
  moreover from this have "(length (mg_forwarders (start_one now cfg (pg_manager p))) + length (filter is_start ops)) * STOP_LISTENER_GRACE
      \<le> (length (mg_forwarders (pg_manager p)) + (length (filter is_start ops) + 1)) * STOP_LISTENER_GRACE" by (rule mult_le_mono1)
  ultimately show ?case using start by (auto simp: left_defs add_mult_distrib split: phase.splits)
qed (auto simp: left_defs startup_report_def reload_begin_def reload_end_def reap_handle_def Let_def split: phase.splits)

lemma main_never_stuck:
  assumes "stopping_down p" and "pg_phase p \<noteq> Exited"
  shows "\<exists>p'. main_step p p'"
proof (cases "pg_phase p")
  case Cancelled
  then show ?thesis using main_step.take_all [of p] by (metis surj_pair)
next
  case Reaping
  then show ?thesis using main_step.reap [of p] main_step.reaped [of p] by (metis neq_Nil_conv)
next
  case Draining
  then show ?thesis using main_step.drained [of p] main_step.drain_timeout [of p] by blast
next
  case WebhookFlush
  then show ?thesis using main_step.flushed [of p] main_step.flush_timeout [of p] by blast
qed (use assms in \<open>simp_all add: stopping_down_def\<close>)

text \<open>
  C21. The shutdown always ends. Once the signal has come, \<open>main\<close> has a next step until it exits,
  whatever state the other tasks are in; and however many steps those take in between, \<open>main\<close>
  exits after at most four steps plus one per forwarder of the table and per start that a
  reload may still make, in at most 5 seconds for each of these forwarders and 13 seconds
  for the connections and the webhook. The reload may be one that is under way when the
  signal comes, or one that begins afterwards because the watcher was in its delays; only in
  the second case a bound \<open>B\<close> on the length of the lists in the file is needed.\<close>
theorem shutdown_always_ends:
  assumes "timed_run px n t p p'" and "pg_phase p = Cancelled" and "pg_waiting p \<longrightarrow> lists_within px B"
  shows "n \<le> 4 + length (mg_forwarders (pg_manager p)) + pending_ops B p
     \<and> t \<le> from_secs (5 * (length (mg_forwarders (pg_manager p)) + pending_ops B p) + 13)
     \<and> (n = 4 + length (mg_forwarders (pg_manager p)) + pending_ops B p \<longrightarrow> pg_phase p' = Exited)
     \<and> (pg_phase p' \<noteq> Exited \<longrightarrow> (\<exists>q. main_step p' q))"
proof -
  have "stopping_down p' \<and> (pg_waiting p' \<longrightarrow> pg_waiting p) \<and> n + main_left B p' \<le> main_left B p \<and> t + time_left B p' \<le> time_left B p"
    using assms
  proof (induction rule: timed_run.induct)
    case (none p)
    then show ?case by (simp add: stopping_down_def)
  next
    case (main n t p q r d)
    then show ?case using main_step_left [of q r B] by auto
  next
    case (other n t p q r)
    then show ?case using task_step_left [of px q r B] by auto
  qed
  moreover have "main_left B p' = 0 \<longleftrightarrow> pg_phase p' = Exited" if "stopping_down p'"
    using that by (auto simp: main_left_def stopping_down_def split: phase.splits)
  ultimately show ?thesis
    using assms(2) main_never_stuck [of p']
    by (auto simp: main_left_def time_left_def from_secs_def STOP_LISTENER_GRACE_def SHUTDOWN_DRAIN_GRACE_def
        WEBHOOK_FLUSH_GRACE_def algebra_simps)
qed

text \<open>The signal comes while the watcher is in its delays.\<close>

theorem shutdown_always_ends_witness:
  "\<exists>q. main_step ((on_signal (lit ''SIGTERM'') (program_init sample_manager [] ()))\<lparr>pg_waiting := True\<rparr>) q"
proof -
  let ?p = "(on_signal (lit ''SIGTERM'') (program_init sample_manager [] ()))\<lparr>pg_waiting := True\<rparr>"
  have "pg_phase ?p = Cancelled" by (simp add: on_signal_def)
  moreover have "lists_within sample_px (length (fs_expand sample_spec))"
    by (simp add: lists_within_def sample_px_def sample_loads)
  ultimately show ?thesis using shutdown_always_ends [OF timed_run.none [of sample_px ?p]] by simp
qed

text \<open>
  The windows of forwarders that hang add up: each wait gets a full window of its own, although
  all of them were cancelled at the same time.
\<close>

lemma grace_windows_add_up:
  assumes "pg_phase p = Reaping"
  shows "\<exists>p'. timed_run px (length (pg_reaping p)) (length (pg_reaping p) * STOP_LISTENER_GRACE) p p'
    \<and> pg_phase p' = Reaping \<and> pg_reaping p' = []"
proof -
  have "\<exists>p'. timed_run px (length hs) (length hs * STOP_LISTENER_GRACE) p p' \<and> pg_phase p' = Reaping \<and> pg_reaping p' = rest"
    if "pg_reaping p = hs @ rest" for hs rest
    using that
  proof (induction hs arbitrary: rest rule: rev_induct)
    case Nil
    then show ?case using assms timed_run.none by fastforce
  next
    case (snoc lh hs)
    then obtain q where q: "timed_run px (length hs) (length hs * STOP_LISTENER_GRACE) p q" "pg_phase q = Reaping"
      "pg_reaping q = lh # rest" by fastforce
    let ?r = "q\<lparr>pg_manager := reap_handle JoinTimeout lh (pg_manager q), pg_reaping := rest\<rparr>"
    have "timed_run px (length hs + 1) (length hs * STOP_LISTENER_GRACE + STOP_LISTENER_GRACE) p ?r"
      by (rule timed_run.main [OF q(1)]) (auto intro: main_step.reap simp: q(2,3) step_deadline_def)
    then show ?case using q(2) by (intro exI [of _ ?r]) (simp add: add.commute)
  qed
  from this [of "pg_reaping p" "[]"] show ?thesis by simp
qed

end
