(* ===== verification/Process_Alerts.thy ===== *)
theory Process_Alerts
  imports Program "HOL-Library.Sublist"
begin

text \<open>
  The process and its alerts: the machine of \<open>Program\<close> refines the machine of \<open>Notify\<close>, so that what is
  shown of the queue, the counters and the worker holds for the program as a whole.
\<close>

lemma alert_step_shift: "alert_step post inst (ph, 0, al, w) (ph', 0, al', w') \<Longrightarrow> alert_step post inst (ph, n, al, w) (ph', n, al', w')"
  by (erule alert_stepE) (auto intro: alert_step.intros alert_step.paced [simplified] alert_step.retry [simplified])

lemma start_one_alerts [simp]: "mg_alerts (start_one now c m) = mg_alerts m"
  by (simp add: start_one_def Let_def split: prod.split)

text \<open>
  Seen from the alerting, a step of the process that calls for no alert is a step of the alert
  machine that raises none, or none at all; a step that calls for one puts it to the queue.
\<close>

definition alert_view :: "'w program \<Rightarrow> worker \<times> nat \<times> alerting \<times> 'w" where
  "alert_view p = (pg_worker p, length (pg_log p), mg_alerts (pg_manager p), pg_world p)"

definition simulated :: "('s, 'w) proc_env \<Rightarrow> 'w program \<Rightarrow> 'w program \<Rightarrow> bool" where
  "simulated px p p' \<longleftrightarrow>
     pg_log p' = pg_log p
       \<and> (alert_view p' = alert_view p \<or> alert_step (px_post px) (px_instance px) (alert_view p) (alert_view p'))
     \<or> (\<exists>ev. pg_log p' = pg_log p @ [ev] \<and> pg_worker p' = pg_worker p \<and> pg_world p' = pg_world p
          \<and> mg_alerts (pg_manager p') = notify ev (mg_alerts (pg_manager p)))"

lemma simulated_produce:
  "pg_log p' = pg_log p @ [ev] \<Longrightarrow> pg_worker p' = pg_worker p \<Longrightarrow> pg_world p' = pg_world p
   \<Longrightarrow> mg_alerts (pg_manager p') = notify ev (mg_alerts (pg_manager p)) \<Longrightarrow> simulated px p p'"
  unfolding simulated_def by (intro disjI2 exI [of _ ev]) simp

lemma simulated_silent:
  "pg_log p' = pg_log p \<Longrightarrow> pg_worker p' = pg_worker p \<Longrightarrow> pg_world p' = pg_world p
   \<Longrightarrow> mg_alerts (pg_manager p') = mg_alerts (pg_manager p) \<Longrightarrow> simulated px p p'"
  by (simp add: simulated_def alert_view_def)

lemma step_simulates: "program_step px p p' \<Longrightarrow> simulated px p p'"
proof (erule program_stepE)
  assume "main_step p p'"
  then show ?thesis
  proof (induction rule: main_step.induct)
    case (signal p sigterm sigint first name)
    then show ?case by (intro simulated_produce [of _ _ "stop_event name p"]) (simp_all add: on_signal_def)
  qed (auto simp: take_all_handles_def reap_handle_def intro!: simulated_silent)
next
  assume "task_step px p p'"
  then show ?thesis
  proof (induction rule: task_step.induct)
    case (report p configs ev latency joined)
    then show ?case by (intro simulated_produce [of _ _ ev]) (simp_all add: startup_report_def)
  next
    case (start_reload p path policy v cf)
    then show ?case by (intro simulated_silent) (simp_all add: reload_begin_def Let_def update_knobs_def)
  next
    case (failed_reload p path policy v e)
    then show ?case by (intro simulated_produce [of _ _ "ConfigReloadFailed path (px_show_err px e)"]) (simp_all add: reload_begin_def)
  next
    case (loaded p before)
    then show ?case by (intro simulated_produce [of _ _ "reload_event before (pg_manager p)"]) (simp_all add: reload_end_def)
  next
    case (alert p ev)
    then show ?case by (intro simulated_produce [of _ _ ev]) simp_all
  next
    case (worker p wk al w)
    then show ?case by (simp add: simulated_def alert_view_def alert_step_shift)
  qed (auto simp: take_handle_def reap_handle_def intro!: simulated_silent)
qed

lemma alert_step_takes: "alert_step post inst (wk, n, al, w) (wk', n, al', w') \<Longrightarrow> subseq (al_queue al') (al_queue al)"
  by (erule alert_stepE) (auto simp: process_begin_accounts(2) attempt_end_accounts(2) intro: list_emb_Cons)

lemma simulated_queue:
  assumes "simulated px p p'" and "subseq (al_queue (mg_alerts (pg_manager p))) (pg_log p)"
  shows "subseq (al_queue (mg_alerts (pg_manager p'))) (pg_log p')"
  using assms(1) unfolding simulated_def
proof (elim disjE conjE exE)
  assume "pg_log p' = pg_log p" "alert_view p' = alert_view p"
  with assms(2) show ?thesis by (simp add: alert_view_def)
next
  assume log: "pg_log p' = pg_log p" and "alert_step (px_post px) (px_instance px) (alert_view p) (alert_view p')"
  then have "subseq (al_queue (mg_alerts (pg_manager p'))) (al_queue (mg_alerts (pg_manager p)))"
    by (auto simp: alert_view_def intro: alert_step_takes)
  with assms(2) log show ?thesis by (auto intro: subseq_order.order_trans)
next
  fix ev assume log: "pg_log p' = pg_log p @ [ev]" and al: "mg_alerts (pg_manager p') = notify ev (mg_alerts (pg_manager p))"
  have "al_queue (notify ev al) = al_queue al \<or> al_queue (notify ev al) = al_queue al @ [ev]" for al
    by (auto simp: notify_def bump_dropped_def Let_def)
  from this [of "mg_alerts (pg_manager p)"] show ?thesis
    using assms(2) unfolding log al by (elim disjE) (simp_all add: subseq_rev_drop_many)
qed

lemma simulated_step: "simulated px p p' \<Longrightarrow> (alert_step (px_post px) (px_instance px))\<^sup>=\<^sup>= (alert_view p) (alert_view p')"
  by (auto simp: simulated_def alert_view_def intro: alert_step.produce)

text \<open>
  C20. The whole process keeps the contract of the alerting. Every run of the process, seen
  through the queue, the counters and the worker, is a run of the alert machine of \<open>Notify\<close> in
  which exactly the alerts are raised that \<open>main\<close>, the startup report, the reloads and the other
  components call for. So at every moment each of them is counted as sent, failed, suppressed
  or dropped, or is the one in delivery, or is one of at most 256 that wait, in the order in
  which they were raised; and when the worker has finished its flush before the exit, none is left.\<close>
theorem process_refines_alerting:
  assumes "(program_step px)\<^sup>*\<^sup>* (program_init m tasks w) p" and "mg_alerts m = notifier_start"
  shows "(alert_step (px_post px) (px_instance px))\<^sup>*\<^sup>* ((Running, None), 0, notifier_start, w)
       (pg_worker p, length (pg_log p), mg_alerts (pg_manager p), pg_world p)
     \<and> events_accounted (mg_alerts (pg_manager p)) + (if snd (pg_worker p) = None then 0 else 1) = of_nat (length (pg_log p))
     \<and> length (al_queue (mg_alerts (pg_manager p))) \<le> 256 \<and> subseq (al_queue (mg_alerts (pg_manager p))) (pg_log p)
     \<and> (fst (pg_worker p) = Stopped \<longrightarrow> snd (pg_worker p) = None \<and> al_queue (mg_alerts (pg_manager p)) = [])"
proof -
  let ?steps = "(alert_step (px_post px) (px_instance px))\<^sup>*\<^sup>* ((Running, None), 0, notifier_start, w)"
  have run: "?steps (alert_view p) \<and> subseq (al_queue (mg_alerts (pg_manager p))) (pg_log p)"
    using assms(1)
  proof (induction rule: rtranclp_induct)
    case base
    have "alert_view (program_init m tasks w) = ((Running, None), 0, notifier_start, w)"
      using assms(2) by (simp add: alert_view_def program_init_def notifier_start_def)
    then show ?case using assms(2) by (simp add: program_init_def notifier_start_def)
  next
    case (step q r)
    have sim: "simulated px q r" using step(2) by (rule step_simulates)
    from simulated_step [OF sim] step.IH have "?steps (alert_view r)"
      by (auto intro: rtranclp.rtrancl_into_rtrancl)
    with simulated_queue [OF sim] step.IH show ?case by blast
  qed
  from alert_inv_reachable [OF conjunct1 [OF this] alert_inv_start] have "alert_inv (alert_view p)" .
  with run show ?thesis by (auto simp: alert_view_def alert_inv_def in_delivery_def QUEUE_CAPACITY_def)
qed

definition alerting_manager :: manager where
  "alerting_manager = sample_manager\<lparr>mg_alerts := notifier_start\<rparr>"

theorem process_refines_alerting_witness:
  "(alert_step ok_post sample_inst)\<^sup>*\<^sup>* ((Running, None), 0, notifier_start, ()) ((Running, None), 1, notify dns_event notifier_start, ())
     \<and> events_accounted (notify dns_event notifier_start) = 1"
proof -
  let ?p = "program_init alerting_manager [] ()"
  have "(program_step sample_px)\<^sup>*\<^sup>* ?p (logged dns_event (tell dns_event ?p))"
    by (intro r_into_rtranclp program_step.task task_step.alert) (simp add: alive_def program_init_def)
  from process_refines_alerting [OF this] show ?thesis
    by (simp add: alerting_manager_def program_init_def sample_px_def notifier_start_def)
qed

end
