(* ===== verification/Process_Ports.thy ===== *)
theory Process_Ports
  imports Program
begin

text \<open>
  The ports of the process from its start on (\<open>src/src/main.rs\<close>, \<open>src/src/manager.rs\<close>): how a reload runs in the
  machine of \<open>Program\<close>, and that no two forwarders ever claim one local endpoint, in the states
  between the awaits of a reload too.
\<close>

section \<open>A reload that nothing disturbs\<close>

text \<open>The steps of the machine, taken one after the other, make up the reload of \<open>Reload\<close>.\<close>

definition idle :: "'w program \<Rightarrow> bool" where
  "idle p \<longleftrightarrow> pg_phase p = Serving \<and> pg_reload p = None \<and> pg_stopping p = None \<and> \<not> pg_waiting p"

lemma reload_runs:
  assumes "idle p" and "BgWatcher path policy \<in> set (pg_tasks p)" and "load_yaml_config (px_files px v) path = Inr cf"
  shows "\<exists>p'. (program_step px)\<^sup>*\<^sup>* p p' \<and> idle p' \<and> pg_tasks p' = pg_tasks p
     \<and> pg_manager p' = reload (px_show_err px) (px_files px v) path policy wait now (pg_manager p)"
proof -
  note p = assms(1) [unfolded idle_def]
  let ?m1 = "update_knobs (apply_cli_overrides (cf_settings cf) (rl_cli policy)) (pg_manager p)"
  let ?before = "running_labels (pg_manager p)"
  let ?ops = "if rl_source policy = SrcFile then sync_plan (cf_forwarders cf) ?m1 else []"
  define p1 where "p1 = p\<lparr>pg_waiting := True\<rparr>"
  define p2 where "p2 = reload_begin (px_show_err px) (px_files px v) path policy (p1\<lparr>pg_waiting := False\<rparr>)"
  define p3 where "p3 = p2\<lparr>pg_reload := Some (?before, SyncCalls ?ops)\<rparr>"
  define p4 where "p4 = p3\<lparr>pg_manager := fold (run_op wait now) ?ops (pg_manager p3), pg_reload := Some (?before, SyncCalls [])\<rparr>"
  define p5 where "p5 = logged (reload_event ?before (pg_manager p4)) (reload_end ?before p4)"
  have p2: "pg_manager p2 = ?m1" "pg_phase p2 = Serving" "pg_stopping p2 = None" "pg_tasks p2 = pg_tasks p" "\<not> pg_waiting p2"
    "pg_reload p2 = Some (?before, if rl_source policy = SrcFile then PlanSync (cf_forwarders cf) else SyncCalls [])"
    using p assms(3) by (simp_all add: p2_def p1_def reload_begin_def Let_def)
  have "program_step px p p1" unfolding p1_def
    by (rule program_step.task [OF task_step.save_taken [OF _ assms(2)]]) (use p in simp_all)
  moreover have "program_step px p1 p2" unfolding p2_def
    by (rule program_step.task [OF task_step.start_reload [OF _ _ _ _ assms(3)]])
      (use p assms(2) in \<open>simp_all add: p1_def alive_def\<close>)
  moreover have "(program_step px)\<^sup>*\<^sup>* p2 p3"
  proof (cases "rl_source policy = SrcFile")
    case True
    with p2 have "task_step px p2 (p2\<lparr>pg_reload := Some (?before, SyncCalls (sync_plan (cf_forwarders cf) (pg_manager p2)))\<rparr>)"
      by (intro task_step.plan) (simp_all add: alive_def)
    then show ?thesis using True p2(1) by (auto simp: p3_def intro: program_step.task)
  next
    case False
    with p2(6) have "p3 = p2" by (cases p2) (simp add: p3_def)
    then show ?thesis by simp
  qed
  moreover have "(program_step px)\<^sup>*\<^sup>* p3 p4" unfolding p4_def
    by (rule sync_runs) (use p2 in \<open>simp_all add: p3_def alive_def\<close>)
  moreover have "program_step px p4 p5" unfolding p5_def
    by (intro program_step.task task_step.loaded) (use p2 in \<open>simp_all add: p4_def p3_def alive_def\<close>)
  ultimately have "(program_step px)\<^sup>*\<^sup>* p p5"
    by (meson converse_rtranclp_into_rtranclp rtranclp.rtrancl_into_rtrancl rtranclp_trans)
  moreover have "idle p5" "pg_tasks p5 = pg_tasks p"
    using p2 by (simp_all add: p5_def p4_def p3_def reload_end_def idle_def)
  moreover have "pg_manager p5 = reload (px_show_err px) (px_files px v) path policy wait now (pg_manager p)"
    using assms(3) p2(1) by (simp add: p5_def p4_def p3_def reload_end_def reload_event_def reload_def sync_def Let_def)
  ultimately show ?thesis by blast
qed

section \<open>Ports\<close>

definition labelled :: "manager \<Rightarrow> bool" where
  "labelled m \<longleftrightarrow> list_all (\<lambda>(l, h). l = fc_label (fh_config h)) (mg_forwarders m)"

definition stopping_configs :: "'w program \<Rightarrow> forwarder_config list" where
  "stopping_configs p = (case pg_stopping p of None \<Rightarrow> [] | Some lh \<Rightarrow> [fh_config (snd lh)])"

text \<open>
  What a reload still has to do agrees with the table: whatever of it the remaining stops leave
  is in the new list, and so is what is still to be started. \<open>U\<close> are all configurations there are.
\<close>

fun plan_ok :: "forwarder_config set \<Rightarrow> manager \<Rightarrow> reload_todo \<Rightarrow> bool" where
  "plan_ok U m (PlanSync cfgs) \<longleftrightarrow> set cfgs \<subseteq> U \<and> distinct (map endpoint cfgs)"
| "plan_ok U m (SyncCalls ops) \<longleftrightarrow>
     (\<exists>ls cs cfgs. ops = map StopOp ls @ map StartOp cs \<and> set cfgs \<subseteq> U \<and> distinct (map endpoint cfgs) \<and> set cs \<subseteq> set cfgs
        \<and> (\<forall>c \<in> set (serving m). fc_label c \<notin> set ls \<longrightarrow> c \<in> set cfgs))"

declare plan_ok.simps(2) [simp del]

definition ports_ok :: "forwarder_config set \<Rightarrow> 'w program \<Rightarrow> bool" where
  "ports_ok U p \<longleftrightarrow>
     labelled (pg_manager p) \<and> set (serving (pg_manager p)) \<subseteq> U
     \<and> distinct (map endpoint (serving (pg_manager p) @ stopping_configs p))
     \<and> (\<forall>before todo. pg_reload p = Some (before, todo) \<longrightarrow> plan_ok U (pg_manager p) todo)
     \<and> (\<forall>l h. pg_stopping p = Some (l, h) \<longrightarrow> l \<notin> fc_label ` set (serving (pg_manager p)) \<and> fc_label (fh_config h) = l
          \<and> (\<exists>before ops. pg_reload p = Some (before, SyncCalls (StopOp l # ops))))"

lemma ports_keep:
  assumes "ports_ok U p" and "mg_forwarders (pg_manager p') = mg_forwarders (pg_manager p)" and "pg_reload p' = pg_reload p" and "pg_stopping p' = pg_stopping p"
  shows "ports_ok U p'"
proof -
  have "labelled (pg_manager p') = labelled (pg_manager p)" "serving (pg_manager p') = serving (pg_manager p)"
    using assms(2) by (simp_all add: labelled_def serving_def)
  moreover from this(2) have "plan_ok U (pg_manager p') todo = plan_ok U (pg_manager p) todo" for todo
    by (cases todo) (simp_all add: plan_ok.simps)
  ultimately show ?thesis using assms by (simp add: ports_ok_def stopping_configs_def)
qed

lemma labelled_running: "labelled m \<Longrightarrow> set (running_labels m) = fc_label ` set (serving m)"
  by (force simp: labelled_def running_labels_def serving_def list_all_iff)

lemma serving_filtered:
  "labelled m \<Longrightarrow> serving (m\<lparr>mg_forwarders := filter (\<lambda>(l, _). l \<noteq> label) (mg_forwarders m)\<rparr>) = filter (\<lambda>c. fc_label c \<noteq> label) (serving m)"
proof -
  have "map (\<lambda>(l, h). fh_config h) (filter (\<lambda>(l, _). l \<noteq> label) xs) = filter (\<lambda>c. fc_label c \<noteq> label) (map (\<lambda>(l, h). fh_config h) xs)"
    if "list_all (\<lambda>(l, h). l = fc_label (fh_config h)) xs" for xs
    using that by (induction xs) auto
  then show "labelled m \<Longrightarrow> ?thesis" by (simp add: serving_def labelled_def)
qed

lemma plan_made:
  assumes "inj_on fc_label U" and "labelled m" and "set (serving m) \<subseteq> U" and "set cfgs \<subseteq> U" and "distinct (map endpoint cfgs)"
  shows "plan_ok U m (SyncCalls (sync_plan cfgs m))"
proof -
  let ?ls = "filter (\<lambda>l. l \<notin> set (map fc_label cfgs)) (running_labels m)"
  let ?cs = "filter (\<lambda>c. fc_label c \<notin> set (running_labels m)) cfgs"
  have left: "c \<in> set cfgs" if "c \<in> set (serving m)" "fc_label c \<notin> set ?ls" for c
  proof -
    have "fc_label c \<in> fc_label ` set cfgs" using that labelled_running [OF assms(2)] by auto
    then obtain d where "d \<in> set cfgs" "fc_label d = fc_label c" by auto
    moreover from this have "d = c" using assms(1,3,4) that(1) by (auto dest: inj_onD)
    ultimately show ?thesis by simp
  qed
  have "sync_plan cfgs m = map StopOp ?ls @ map StartOp ?cs" by (simp add: sync_plan_def Let_def)
  moreover have "set ?cs \<subseteq> set cfgs" by simp
  ultimately show ?thesis using assms(4,5) left unfolding plan_ok.simps by blast
qed

lemma plan_fewer: "plan_ok U m todo \<Longrightarrow> set (serving m') \<subseteq> set (serving m) \<Longrightarrow> plan_ok U m' todo"
proof (cases todo)
  case (SyncCalls ops)
  assume "plan_ok U m todo" and sub: "set (serving m') \<subseteq> set (serving m)"
  then obtain ls cs cfgs where "ops = map StopOp ls @ map StartOp cs" "set cfgs \<subseteq> U" "distinct (map endpoint cfgs)" "set cs \<subseteq> set cfgs"
    and "\<forall>c \<in> set (serving m). fc_label c \<notin> set ls \<longrightarrow> c \<in> set cfgs" using SyncCalls by (auto simp: plan_ok.simps)
  moreover from this(5) sub have "\<forall>c \<in> set (serving m'). fc_label c \<notin> set ls \<longrightarrow> c \<in> set cfgs" by blast
  ultimately show ?thesis unfolding SyncCalls plan_ok.simps by blast
qed simp

lemma ports_reload_begin:
  assumes "ports_ok U p" and "pg_reload p = None" and "load_yaml_config le path = Inr cf" and "set (cf_forwarders cf) \<subseteq> U"
  shows "ports_ok U (reload_begin show_err le path policy p)"
proof -
  have "plan_ok U m (SyncCalls [])" if "serving m = serving (pg_manager p)" for m
    using assms(1) that unfolding plan_ok.simps ports_ok_def
    by (intro exI [of _ "[]"] exI [of _ "serving (pg_manager p)"]) simp
  then show ?thesis
    using assms loaded_distinct [OF assms(3)]
    by (auto simp: ports_ok_def reload_begin_def Let_def update_knobs_def labelled_def stopping_configs_def)
qed

lemma ports_plan:
  assumes "ports_ok U p" and "inj_on fc_label U" and "pg_reload p = Some (before, PlanSync cfgs)"
  shows "ports_ok U (p\<lparr>pg_reload := Some (before, SyncCalls (sync_plan cfgs (pg_manager p)))\<rparr>)"
proof -
  have "plan_ok U (pg_manager p) (SyncCalls (sync_plan cfgs (pg_manager p)))"
    by (rule plan_made) (use assms in \<open>auto simp: ports_ok_def\<close>)
  moreover have "pg_stopping p = None" using assms(1,3) by (cases "pg_stopping p") (auto simp: ports_ok_def)
  ultimately show ?thesis using assms(1) by (simp add: ports_ok_def stopping_configs_def)
qed

lemma ports_stop_begin:
  assumes "ports_ok U p" and "pg_reload p = Some (before, SyncCalls (StopOp label # ops))" and "pg_stopping p = None"
    and "take_handle label (pg_manager p) = (Some h, m)"
  shows "ports_ok U (p\<lparr>pg_manager := m, pg_stopping := Some (label, h)\<rparr>)"
proof -
  have m: "m = (pg_manager p)\<lparr>mg_forwarders := filter (\<lambda>(l, _). l \<noteq> label) (mg_forwarders (pg_manager p))\<rparr>"
    and "map_of (mg_forwarders (pg_manager p)) label = Some h" using assms(4) by (simp_all add: take_handle_def)
  then have in_table: "(label, h) \<in> set (mg_forwarders (pg_manager p))" by (auto dest: map_of_SomeD)
  have lab: "labelled (pg_manager p)" using assms(1) by (simp add: ports_ok_def)
  note left = serving_filtered [OF lab, of label, folded m]
  have h: "fh_config h \<in> set (serving (pg_manager p))" "fc_label (fh_config h) = label"
    using in_table lab by (force simp: serving_def, auto simp: labelled_def list_all_iff)
  have dist: "distinct (map endpoint (serving (pg_manager p)))" using assms(1) by (simp add: ports_ok_def)
  then have "endpoint (fh_config h) \<notin> endpoint ` set (serving m)"
    using h by (auto simp: left distinct_map dest: inj_onD)
  with dist have "distinct (map endpoint (serving m @ [fh_config h]))" by (simp add: left distinct_map_filter)
  moreover have "plan_ok U m (SyncCalls (StopOp label # ops))"
    by (rule plan_fewer [of U "pg_manager p"]) (use assms(1,2) in \<open>auto simp: ports_ok_def left\<close>)
  moreover have "labelled m" using lab by (auto simp: labelled_def m list_all_iff)
  ultimately show ?thesis using assms(1,2) h(2) by (auto simp: ports_ok_def left stopping_configs_def)
qed

lemma plan_pop:
  assumes "plan_ok U m (SyncCalls (StopOp l # ops))" and "l \<notin> fc_label ` set (serving m)"
  shows "plan_ok U m (SyncCalls ops)"
proof -
  obtain ls cs cfgs where "StopOp l # ops = map StopOp ls @ map StartOp cs" "set cfgs \<subseteq> U" "distinct (map endpoint cfgs)" "set cs \<subseteq> set cfgs"
    and left: "\<forall>c \<in> set (serving m). fc_label c \<notin> set ls \<longrightarrow> c \<in> set cfgs" using assms(1) by (auto simp: plan_ok.simps)
  moreover from this(1) obtain ks where "ls = l # ks" "ops = map StopOp ks @ map StartOp cs" by (cases ls; cases cs) auto
  moreover from this(1) left assms(2) have "\<forall>c \<in> set (serving m). fc_label c \<notin> set ks \<longrightarrow> c \<in> set cfgs" by auto
  ultimately show ?thesis unfolding plan_ok.simps by blast
qed

lemma ports_start:
  assumes "ports_ok U p" and "pg_reload p = Some (before, SyncCalls (StartOp c # ops))"
  shows "ports_ok U (p\<lparr>pg_manager := start_one now c (pg_manager p), pg_reload := Some (before, SyncCalls ops)\<rparr>)"
proof -
  let ?m = "start_one now c (pg_manager p)"
  have none: "pg_stopping p = None" using assms by (cases "pg_stopping p") (auto simp: ports_ok_def)
  obtain ls cs cfgs where "StartOp c # ops = map StopOp ls @ map StartOp cs" and U: "set cfgs \<subseteq> U" and dist: "distinct (map endpoint cfgs)"
    and sub: "set cs \<subseteq> set cfgs" and left: "\<forall>d \<in> set (serving (pg_manager p)). fc_label d \<notin> set ls \<longrightarrow> d \<in> set cfgs"
    using assms by (auto simp: ports_ok_def plan_ok.simps)
  moreover from this(1) obtain ds where ops: "ls = []" "cs = c # ds" "ops = map StartOp ds" by (cases ls; cases cs) auto
  ultimately have in_list: "set (serving (pg_manager p)) \<subseteq> set cfgs" "c \<in> set cfgs" by auto
  have lab: "labelled (pg_manager p)" using assms(1) by (simp add: ports_ok_def)
  have "labelled ?m \<and> set (serving ?m) \<subseteq> set cfgs \<and> distinct (map endpoint (serving ?m))"
  proof (cases "fc_label c \<in> set (running_labels (pg_manager p))")
    case True
    with assms(1) in_list show ?thesis by (simp add: start_one_running ports_ok_def)
  next
    case False
    have serving: "serving ?m = serving (pg_manager p) @ [c]" by (simp add: serving_def start_one_fields [OF False])
    have "c \<notin> set (serving (pg_manager p))" using False labelled_running [OF lab] by auto
    then have "endpoint c \<notin> endpoint ` set (serving (pg_manager p))"
      using dist in_list by (auto simp: distinct_map dest: inj_onD)
    with assms(1) in_list lab show ?thesis
      by (simp add: serving ports_ok_def) (simp add: labelled_def start_one_fields [OF False])
  qed
  moreover from this have "plan_ok U ?m (SyncCalls ops)"
    using U dist sub ops unfolding plan_ok.simps by (intro exI [of _ "[]"] exI [of _ ds] exI [of _ cfgs]) auto
  ultimately show ?thesis using U none by (auto simp: ports_ok_def stopping_configs_def)
qed

lemma ports_step:
  assumes "program_step px p p'" and "ports_ok U p" and "inj_on fc_label U"
    and "\<And>path policy v cf. BgWatcher path policy \<in> set (pg_tasks p) \<Longrightarrow> load_yaml_config (px_files px v) path = Inr cf \<Longrightarrow> set (cf_forwarders cf) \<subseteq> U"
  shows "ports_ok U p' \<and> set (pg_tasks p') \<subseteq> set (pg_tasks p)"
  using assms(1)
proof (rule program_stepE)
  assume "main_step p p'"
  then show ?thesis
    using assms(2)
  proof (induction rule: main_step.induct)
    case (take_all p hs m)
    then have m: "serving m = []" "labelled m" by (auto simp: take_all_handles_def serving_def labelled_def)
    have "plan_ok U m todo" if "plan_ok U (pg_manager p) todo" for todo
      by (rule plan_fewer [OF that]) (simp add: m)
    with take_all.prems m show ?case by (simp add: ports_ok_def stopping_configs_def)
  qed (auto simp: on_signal_def reap_handle_def intro: ports_keep)
next
  assume "task_step px p p'"
  then show ?thesis
    using assms(2,4)
  proof (induction rule: task_step.induct)
    case (start_reload p path policy v cf)
    have "ports_ok U (p\<lparr>pg_waiting := False\<rparr>)" by (rule ports_keep [OF start_reload.prems(1)]) simp_all
    then have "ports_ok U (reload_begin (px_show_err px) (px_files px v) path policy (p\<lparr>pg_waiting := False\<rparr>))"
      by (rule ports_reload_begin [OF _ _ start_reload(5) start_reload.prems(2) [OF start_reload(3,5)]]) (simp add: start_reload)
    then show ?case using start_reload(5) by (simp add: reload_begin_def Let_def)
  next
    case (failed_reload p path policy v e)
    then show ?case by (auto simp: reload_begin_def intro: ports_keep)
  next
    case (plan p before cfgs)
    then show ?case using ports_plan [OF plan(3) assms(3)] by simp
  next
    case (stop_begin p before label ops h m)
    from ports_stop_begin [OF stop_begin.prems(1) stop_begin(2,3,4)] show ?case by simp
  next
    case (stop_absent p before label ops m)
    have "label \<notin> fc_label ` set (serving (pg_manager p))"
      using labelled_running [of "pg_manager p"] handle_of_iff [of label "pg_manager p"] stop_absent(4) stop_absent.prems(1)
      by (simp add: take_handle_def ports_ok_def handle_of_def)
    then have "plan_ok U (pg_manager p) (SyncCalls ops)"
      by (rule plan_pop [rotated]) (use stop_absent(2) stop_absent.prems(1) in \<open>simp add: ports_ok_def\<close>)
    with stop_absent(3) stop_absent.prems(1) show ?case by (simp add: ports_ok_def stopping_configs_def)
  next
    case (stop_end p before label ops lh joined)
    obtain h where lh: "lh = (label, h)" "label \<notin> fc_label ` set (serving (pg_manager p))"
      using stop_end(2,3) stop_end.prems(1) by (cases lh) (simp add: ports_ok_def)
    from this(2) have "plan_ok U (pg_manager p) (SyncCalls ops)"
      by (rule plan_pop [rotated]) (use stop_end(2) stop_end.prems(1) in \<open>simp add: ports_ok_def\<close>)
    then have "ports_ok U (p\<lparr>pg_stopping := None, pg_reload := Some (before, SyncCalls ops)\<rparr>)"
      using stop_end.prems(1) by (simp add: ports_ok_def stopping_configs_def)
    note keep = ports_keep [OF this]
    show ?case by (rule conjI [OF keep]) (simp_all add: reap_handle_def)
  next
    case (start p before cfg ops now)
    from ports_start [OF start.prems(1) start(2)] show ?case by simp
  next
    case (loaded p before)
    have "pg_stopping p = None" using loaded(2) loaded.prems(1) by (cases "pg_stopping p") (auto simp: ports_ok_def)
    with loaded.prems(1) show ?case by (simp add: reload_end_def ports_ok_def labelled_def stopping_configs_def)
  qed (auto simp: startup_report_def intro: ports_keep dest: in_set_remove1 set_remove1_subset [THEN subsetD])
qed

lemma ports_run:
  assumes "(program_step px)\<^sup>*\<^sup>* p p'" and "ports_ok U p" and "inj_on fc_label U"
    and "\<And>path policy v cf. BgWatcher path policy \<in> set (pg_tasks p) \<Longrightarrow> load_yaml_config (px_files px v) path = Inr cf \<Longrightarrow> set (cf_forwarders cf) \<subseteq> U"
  shows "ports_ok U p'"
proof -
  have "ports_ok U p' \<and> set (pg_tasks p') \<subseteq> set (pg_tasks p)"
    using assms(1)
  proof (induction rule: rtranclp_induct)
    case (step q r)
    then show ?case using ports_step [OF step(2) _ assms(3)] assms(4) by blast
  qed (simp add: assms(2))
  then show ?thesis ..
qed

lemma started_ports:
  assumes "run_start env cli now rl = Inr (m, source, settings, rl')"
    and "\<And>fwds src. load_forwarders_with_source (se_load env) cli = Inr (fwds, src) \<Longrightarrow> set fwds \<subseteq> U"
  shows "manager_ok m" "ports_ok U (program_init m tasks w)"
proof -
  obtain fwds m0 al where load: "load_forwarders_with_source (se_load env) cli = Inr (fwds, source)"
    and m0: "manager_new (se_builder env) settings al = Inr m0" and m: "m = start_all now fwds m0"
    using assms(1) by (rule run_start_Inr)
  have serves: "serving m = first_by_label fwds" and ok: "manager_ok m"
    using start_all_serves [of m0 now fwds] manager_new_ok [OF m0] by (simp_all add: m)
  have sub: "set (serving m) \<subseteq> set fwds" using first_by_label_set [of fwds] by (simp add: serves)
  have "distinct (map endpoint (serving m))" by (rule ports_distinct [OF ok loaded_no_duplicates [OF load] sub])
  moreover have "labelled m" using ok by (auto simp: manager_ok_def labelled_def list_all_iff)
  ultimately show "ports_ok U (program_init m tasks w)"
    using sub assms(2) [OF load] by (auto simp: ports_ok_def program_init_def stopping_configs_def)
  show "manager_ok m" by (rule ok)
qed

text \<open>
  C16. The ports of the whole life of the process. From a successful start on, in every state of
  every run, between the awaits of a reload too and whatever the files say that are loaded, no
  two forwarders of the table, nor the one that a reload is waiting to see stopped, claim the
  same local endpoint. Until the shutdown takes the forwarders, the registry lists exactly the
  labels of the table and the one that is being stopped, and as long as no stop has run into
  its deadline all forwarder tasks that may run have different endpoints. This is so when the
  label of a forwarder identifies it among all that are configured at the start or by a file
  of the watcher; it does when no host contains \<open>>\<close>, which nothing checks.\<close>
theorem ports_distinct_through_reloads:
  assumes "run_start env cli now rl = Inr (m, source, settings, rl')"
    and "(program_step px)\<^sup>*\<^sup>* (program_init m tasks w) p"
    and "inj_on fc_label U"
    and "\<And>fwds src. load_forwarders_with_source (se_load env) cli = Inr (fwds, src) \<Longrightarrow> set fwds \<subseteq> U"
    and "\<And>path policy v cf. BgWatcher path policy \<in> set tasks \<Longrightarrow> load_yaml_config (px_files px v) path = Inr cf
           \<Longrightarrow> set (cf_forwarders cf) \<subseteq> U"
  shows "distinct (map endpoint (serving (pg_manager p) @ stopping_configs p))
     \<and> (pg_phase p \<in> {Serving, Cancelled} \<longrightarrow>
          set (registry_labels (mg_registry (pg_manager p))) = fc_label ` set (serving (pg_manager p) @ stopping_configs p)
          \<and> (mg_lingering (pg_manager p) = [] \<longrightarrow> distinct (map (\<lambda>h. endpoint (fh_config h)) (live_handles p))))"
proof -
  note start = started_ports [OF assms(1), of U, OF assms(4)]
  have ports: "ports_ok U p"
    by (rule ports_run [OF assms(2) start(2) assms(3)]) (use assms(5) in \<open>auto simp: program_init_def\<close>)
  have early: "pg_reaping p = []" "table_ok (pg_manager p) (leaving p)" if "pg_phase p \<in> {Serving, Cancelled}"
    using before_reaping_run [OF start(1) assms(2)] that by (auto simp: before_reaping_def)
  have "leaving p = fc_label ` set (stopping_configs p)"
    using ports by (auto simp: ports_ok_def leaving_def stopping_configs_def split: option.splits)
  then have "set (registry_labels (mg_registry (pg_manager p))) = fc_label ` set (serving (pg_manager p) @ stopping_configs p)"
    if "pg_phase p \<in> {Serving, Cancelled}"
    using early(2) [OF that] labelled_running [of "pg_manager p"] ports by (simp add: table_ok_def ports_ok_def image_Un)
  moreover have "map (\<lambda>h. endpoint (fh_config h)) (live_handles p) = map endpoint (serving (pg_manager p) @ stopping_configs p)"
    if "pg_phase p \<in> {Serving, Cancelled}" "mg_lingering (pg_manager p) = []"
    using early(1) [OF that(1)] that(2) by (simp add: live_handles_def serving_def stopping_configs_def case_prod_unfold split: option.split)
  ultimately show ?thesis using ports by (auto simp: ports_ok_def)
qed

text \<open>A start and two reloads: the first takes everything away, the second brings it back.\<close>

definition two_files :: "(unit, unit) proc_env" where
  "two_files = sample_px\<lparr>px_files := (\<lambda>v. if v = 0 then sample_file else se_load sample_env)\<rparr>"

definition file_policy :: reload_policy where
  "file_policy = \<lparr>rl_cli = cli_default, rl_source = SrcFile\<rparr>"

lemma two_files_load:
  "load_yaml_config (px_files two_files 0) path = Inr \<lparr>cf_forwarders = [], cf_settings = settings_default\<rparr>"
  "load_yaml_config (px_files two_files 1) path = Inr \<lparr>cf_forwarders = fs_expand sample_spec, cf_settings = settings_default\<rparr>"
  by (simp_all add: two_files_def sample_loads sample_file_loads)

lemma sync_on_empty:
  assumes "mg_forwarders m = []"
  shows "serving (sync wait now cfgs m) = first_by_label cfgs"
proof -
  have "sync_plan cfgs m = map StartOp cfgs" using assms by (simp add: sync_plan_def running_labels_def Let_def)
  then have "sync wait now cfgs m = start_all now cfgs m" by (simp add: sync_def start_all_ops [symmetric])
  moreover have "serving m = []" "running_labels m = []" using assms by (simp_all add: serving_def running_labels_def)
  ultimately show ?thesis by (simp add: start_all_def serving_starts)
qed

lemma two_reloads:
  assumes "run_start sample_env sample_cli 0 rl = Inr (m, SrcFile, settings_default, rl')"
  shows "\<exists>p. (program_step two_files)\<^sup>*\<^sup>* (program_init m [BgWatcher [] file_policy] ()) p \<and> idle p
    \<and> serving (pg_manager p) = fs_expand sample_spec"
proof -
  let ?p0 = "program_init m [BgWatcher [] file_policy] ()"
  have init: "idle ?p0" "BgWatcher [] file_policy \<in> set (pg_tasks ?p0)" by (simp_all add: idle_def program_init_def)
  from reload_runs [OF this two_files_load(1), where wait = "\<lambda>_. JoinOk" and now = 1] obtain p1 where
    p1: "(program_step two_files)\<^sup>*\<^sup>* ?p0 p1" "idle p1" "pg_tasks p1 = pg_tasks ?p0"
      "pg_manager p1 = reload (px_show_err two_files) (px_files two_files 0) [] file_policy (\<lambda>_. JoinOk) 1 (pg_manager ?p0)" by blast
  have "BgWatcher [] file_policy \<in> set (pg_tasks p1)" using init(2) p1(3) by simp
  from reload_runs [OF p1(2) this two_files_load(2), where wait = "\<lambda>_. JoinOk" and now = 2] obtain p2 where
    p2: "(program_step two_files)\<^sup>*\<^sup>* p1 p2" "idle p2"
      "pg_manager p2 = reload (px_show_err two_files) (px_files two_files 1) [] file_policy (\<lambda>_. JoinOk) 2 (pg_manager p1)" by blast
  have "running_labels (pg_manager p1) = []"
    using running_sync [of "\<lambda>_. JoinOk" 1 "[]"]
    by (simp add: p1(4) reload_def two_files_load [simplified] Let_def file_policy_def running_labels_def)
  then have none: "mg_forwarders (pg_manager p1) = []" by (simp add: running_labels_def)
  have "distinct (map fc_label (fs_expand sample_spec))"
    using sample_endpoints plain_labels [OF sample_plain] by (simp add: distinct_map)
  then have "serving (pg_manager p2) = fs_expand sample_spec"
    using none by (simp add: p2(3) reload_def two_files_load [simplified] Let_def file_policy_def sync_on_empty update_knobs_def
        first_by_label_distinct)
  with p1(1) p2(1,2) show ?thesis by (meson rtranclp_trans)
qed

theorem ports_distinct_through_reloads_witness:
  "\<exists>m rl' p. run_start sample_env sample_cli 0 \<lparr>rlim_cur = 1024, rlim_max = 4096\<rparr> = Inr (m, SrcFile, settings_default, rl')
     \<and> (program_step two_files)\<^sup>*\<^sup>* (program_init m [BgWatcher [] file_policy] ()) p
     \<and> serving (pg_manager p) = fs_expand sample_spec \<and> distinct (map endpoint (serving (pg_manager p)))
     \<and> set (registry_labels (mg_registry (pg_manager p))) = fc_label ` set (fs_expand sample_spec)"
proof -
  obtain m rl' where r: "run_start sample_env sample_cli 0 \<lparr>rlim_cur = 1024, rlim_max = 4096\<rparr> = Inr (m, SrcFile, settings_default, rl')"
    using sample_starts by blast
  obtain p where p: "(program_step two_files)\<^sup>*\<^sup>* (program_init m [BgWatcher [] file_policy] ()) p" "idle p"
    "serving (pg_manager p) = fs_expand sample_spec" using two_reloads [OF r] by blast
  let ?U = "set (fs_expand sample_spec)"
  have start: "set fwds \<subseteq> ?U" if "load_forwarders_with_source (se_load sample_env) sample_cli = Inr (fwds, src)" for fwds src
    using that by (simp add: sample_loads)
  have files: "set (cf_forwarders cf) \<subseteq> ?U" if "load_yaml_config (px_files two_files v) path = Inr cf" for v path cf
    using that by (cases "v = 0") (auto simp: two_files_def sample_loads sample_file_loads)
  have "distinct (map endpoint (serving (pg_manager p) @ stopping_configs p))
      \<and> set (registry_labels (mg_registry (pg_manager p))) = fc_label ` set (serving (pg_manager p) @ stopping_configs p)"
    using ports_distinct_through_reloads [OF r p(1) plain_labels [OF sample_plain]] start files p(2) by (auto simp: idle_def)
  then show ?thesis using r p by (auto simp: idle_def stopping_configs_def)
qed

end
