(* ===== verification/Calendar.thy ===== *)
theory Calendar
  imports Notify_Text
begin

text \<open>
  The date in the footer of every alert (\<open>format_utc\<close> of \<open>src/src/notify.rs\<close>) against the Gregorian
  calendar. The reference is the calendar as it is defined, one day after the other; the code
  computes the date directly, with years that begin in March and cycles of 400 years.
\<close>

section \<open>The reference calendar\<close>

definition leap_year :: "nat \<Rightarrow> bool" where
  "leap_year y \<longleftrightarrow> (4 dvd y \<and> \<not> 100 dvd y) \<or> 400 dvd y"

definition month_len :: "bool \<Rightarrow> nat \<Rightarrow> nat" where
  "month_len leap m = (if m = 2 then (if leap then 29 else 28) else if m \<in> {4, 6, 9, 11} then 30 else 31)"

definition next_day :: "nat \<times> nat \<times> nat \<Rightarrow> nat \<times> nat \<times> nat" where
  "next_day date =
     (case date of (y, m, d) \<Rightarrow>
        if d < month_len (leap_year y) m then (y, m, d + 1)
        else if m < 12 then (y, m + 1, 1) else (y + 1, 1, 1))"

definition calendar_date :: "nat \<Rightarrow> nat \<times> nat \<times> nat" where
  "calendar_date days = (next_day ^^ days) (1970, 1, 1)"

section \<open>Years that begin in March\<close>

text \<open>The first day of a year in its cycle, its length, and the year the code finds for a day.\<close>

definition year_start :: "nat \<Rightarrow> nat" where
  "year_start yoe = 365 * yoe + yoe div 4 - yoe div 100"

definition year_len :: "nat \<Rightarrow> nat" where
  "year_len yoe = (if leap_year (yoe + 1) then 366 else 365)"

definition year_of :: "nat \<Rightarrow> nat" where
  "year_of doe = (doe - doe div 1460 + doe div 36524 - doe div 146096) div 365"

definition march_date :: "nat \<Rightarrow> nat \<Rightarrow> nat \<times> nat \<times> nat" where
  "march_date y doy =
     (let mp = (5 * doy + 2) div 153; month = (if mp < 10 then mp + 3 else mp - 9)
      in (if month \<le> 2 then y + 1 else y, month, doy - (153 * mp + 2) div 5 + 1))"

lemma leap_year_cycle: "leap_year (400 * era + k) = leap_year k"
proof -
  have "4 dvd 400 * era + k \<longleftrightarrow> 4 dvd k" "100 dvd 400 * era + k \<longleftrightarrow> 100 dvd k" "400 dvd 400 * era + k \<longleftrightarrow> 400 dvd k"
    by (simp_all add: dvd_add_right_iff)
  then show ?thesis by (simp add: leap_year_def)
qed

text \<open>A year of the cycle as centuries, groups of four years and years.\<close>

lemma year_parts:
  assumes "c < 4" "q < 25" "r < 4"
  shows "year_start (100 * c + 4 * q + r) = 36524 * c + 1461 * q + 365 * r"
    and "leap_year (100 * c + 4 * q + r + 1) \<longleftrightarrow> r = 3 \<and> (q \<noteq> 24 \<or> c = 3)"
proof -
  let ?y = "100 * c + 4 * q + r"
  have "?y div 4 = 25 * c + q" "?y div 100 = c" using assms by (auto intro!: div_nat_eqI)
  then show "year_start ?y = 36524 * c + 1461 * q + 365 * r" by (simp add: year_start_def)
  have multiple: "k dvd n \<longleftrightarrow> n = k" if "0 < n" "n \<le> k" for k n :: nat
    using that by (auto dest: dvd_imp_le)
  have "4 dvd 4 * (25 * c + q) + (r + 1) \<longleftrightarrow> 4 dvd r + 1" by (rule dvd_add_right_iff) simp
  moreover have "100 dvd 100 * c + (4 * q + r + 1) \<longleftrightarrow> 100 dvd 4 * q + r + 1" by (rule dvd_add_right_iff) simp
  ultimately have "4 dvd ?y + 1 \<longleftrightarrow> r + 1 = 4" "100 dvd ?y + 1 \<longleftrightarrow> 4 * q + r + 1 = 100" "400 dvd ?y + 1 \<longleftrightarrow> ?y + 1 = 400"
    using assms multiple [of "r + 1" 4] multiple [of "4 * q + r + 1" 100] multiple [of "?y + 1" 400]
    by (simp_all add: algebra_simps)
  then show "leap_year (?y + 1) \<longleftrightarrow> r = 3 \<and> (q \<noteq> 24 \<or> c = 3)"
    using assms by (auto simp: leap_year_def)
qed

lemma year_split:
  assumes "yoe < 400"
  obtains c q r where "yoe = 100 * c + 4 * q + r" "c < 4" "q < 25" "r < (4 :: nat)"
proof (rule that)
  show "yoe = 100 * (yoe div 100) + 4 * (yoe mod 100 div 4) + yoe mod 100 mod 4"
    by (simp only: add.assoc mult_div_mod_eq)
  show "yoe div 100 < 4" using assms by (simp add: less_mult_imp_div_less)
  show "yoe mod 100 div 4 < 25" by (simp add: less_mult_imp_div_less)
qed simp

lemma year_start_Suc:
  assumes "yoe < 399"
  shows "year_start (yoe + 1) = year_start yoe + year_len yoe"
proof -
  obtain c q r where y: "yoe = 100 * c + 4 * q + r" "c < 4" "q < 25" "r < 4"
    by (rule year_split [of yoe]) (use assms in simp)
  note now = year_parts [OF y(2-4), folded y(1)]
  show ?thesis
  proof (cases "r = 3")
    case False
    with y year_parts(1) [of c q "r + 1"] have "year_start (yoe + 1) = 36524 * c + 1461 * q + 365 * (r + 1)" by simp
    with False now show ?thesis by (simp add: year_len_def)
  next
    case r: True
    show ?thesis
    proof (cases "q = 24")
      case False
      with r y year_parts(1) [of c "q + 1" 0] have "year_start (yoe + 1) = 36524 * c + 1461 * (q + 1)" by (simp add: algebra_simps)
      with False r now show ?thesis by (simp add: year_len_def)
    next
      case True
      with r y assms have "c < 3" by simp
      with True r y year_parts(1) [of "c + 1" 0 0] have "year_start (yoe + 1) = 36524 * (c + 1)" by simp
      with True r now \<open>c < 3\<close> show ?thesis by (simp add: year_len_def)
    qed
  qed
qed

lemma last_year: "year_start 399 + year_len 399 = 146097"
  by (simp add: year_start_def year_len_def leap_year_def)

lemma year_end: "yoe < 400 \<Longrightarrow> year_start yoe + year_len yoe \<le> 146097"
  by (rule year_split [of yoe]) (auto simp: year_len_def year_parts)

text \<open>
  The correction terms of \<open>year_of\<close>: up to one day the quotient by 1460 counts the leap days
  before the day, and the last two terms put back the centuries.
\<close>

lemma year_of_day:
  assumes "yoe < 400" and "doy < year_len yoe"
  shows "year_of (year_start yoe + doy) = yoe"
proof -
  obtain c q r where y: "yoe = 100 * c + 4 * q + r" "c < 4" "q < 25" "r < 4"
    using assms(1) by (rule year_split)
  note start = year_parts(1) [OF y(2-4), folded y(1)] and leap = year_parts(2) [OF y(2-4), folded y(1)]
  define doe where "doe = year_start yoe + doy"
  have doy: "doy \<le> 364 \<or> (doy = 365 \<and> r = 3 \<and> (q \<noteq> 24 \<or> c = 3))"
    using assms(2) leap by (auto simp: year_len_def split: if_splits)
  define e where "e = (24 * c + q + 365 * r + doy) div 1460"
  have leaps: "doe div 1460 = 25 * c + q + e"
  proof -
    have "doe = (24 * c + q + 365 * r + doy) + (25 * c + q) * 1460" by (simp add: doe_def start)
    then show ?thesis by (simp add: e_def div_mult_self1)
  qed
  have centuries: "doe div 36524 - doe div 146096 = c \<and> doe div 146096 \<le> doe div 36524"
  proof (cases "q = 24 \<and> r = 3 \<and> doy = 365")
    case True
    with doy have "c = 3" by auto
    with True show ?thesis by (simp add: doe_def start)
  next
    case False
    then have "1461 * q + 365 * r + doy < 36524" using doy y(3,4) by auto
    then have "doe div 36524 = c" "doe < 146096" unfolding doe_def start using y(2) by (auto intro!: div_nat_eqI)
    then show ?thesis by simp
  qed
  have e: "e \<le> doy \<and> doy < 365 + e"
  proof -
    have "24 * c + q + 365 * r + doy < 2920" using y(2-4) doy by auto
    then have "e < 2" by (simp add: e_def less_mult_imp_div_less)
    moreover have "0 < doy" if "e = 1"
    proof -
      have "1460 \<le> 24 * c + q + 365 * r + doy" using that times_div_less_eq_dividend [of 1460 "24 * c + q + 365 * r + doy"] by (simp add: e_def)
      then show ?thesis using y(2-4) by auto
    qed
    moreover have "e = 1" if "doy = 365"
      using that doy y(2-4) unfolding e_def by (intro div_nat_eqI) auto
    ultimately show ?thesis using doy by (cases "e = 0") auto
  qed
  have "doe - doe div 1460 + doe div 36524 - doe div 146096 = 365 * yoe + (doy - e)"
  proof -
    have "doe - doe div 1460 + doe div 36524 - doe div 146096 = doe - doe div 1460 + c"
      using centuries by linarith
    also have "\<dots> = 36524 * c + 1461 * q + 365 * r + doy - (25 * c + q + e) + c"
      unfolding leaps by (simp only: doe_def start)
    also have "\<dots> = 365 * yoe + (doy - e)" using e unfolding y(1) by simp
    finally show ?thesis .
  qed
  moreover have "(365 * yoe + (doy - e)) div 365 = yoe" using e by (intro div_nat_eqI) auto
  ultimately show ?thesis by (simp only: year_of_def doe_def [symmetric])
qed

lemma civil_by_years:
  "civil_from_days days =
     (let z = days + 719468; doe = z mod 146097; yoe = year_of doe
      in march_date (yoe + z div 146097 * 400) (doe - year_start yoe))"
  unfolding civil_from_days_def march_date_def year_of_def year_start_def Let_def by (rule refl)

lemma civil_march_date:
  assumes "yoe < 400" and "doy < year_len yoe" and "days + 719468 = 146097 * era + year_start yoe + doy"
  shows "civil_from_days days = march_date (400 * era + yoe) doy"
proof -
  note year_end [OF assms(1)]
  with assms(2) have "year_start yoe + doy < 146097" by simp
  then have z: "(days + 719468) div 146097 = era" "(days + 719468) mod 146097 = year_start yoe + doy"
    unfolding assms(3) by (simp_all add: add.assoc)
  show ?thesis
    unfolding civil_by_years Let_def z year_of_day [OF assms(1,2)] by (simp add: add.commute mult.commute)
qed

lemma day_in_cycle:
  assumes "doe < 146097"
  obtains yoe doy where "yoe < 400" "doy < year_len yoe" "doe = year_start yoe + doy"
proof -
  let ?P = "\<lambda>y. y < 400 \<and> year_start y \<le> doe"
  define yoe where "yoe = Greatest ?P"
  have ex: "?P 0" by (simp add: year_start_def)
  have P: "?P yoe" unfolding yoe_def by (rule GreatestI_nat [of ?P 0 400]) (use ex in auto)
  have max: "y \<le> yoe" if "?P y" for y unfolding yoe_def using that by (intro Greatest_le_nat [of ?P _ 400]) auto
  have "doe < year_start yoe + year_len yoe"
  proof (cases "yoe = 399")
    case True
    with assms last_year show ?thesis by simp
  next
    case False
    with P have "yoe < 399" by simp
    moreover have "\<not> ?P (yoe + 1)" using max [of "yoe + 1"] by auto
    ultimately show ?thesis using year_start_Suc [of yoe] by simp
  qed
  with P show ?thesis by (intro that [of yoe "doe - year_start yoe"]) auto
qed

section \<open>One day after the other\<close>

text \<open>Months of a year that begins in March: \<open>mp\<close> from 0 to 11, its first day, and its number.\<close>

definition month_start :: "nat \<Rightarrow> nat" where
  "month_start mp = (153 * mp + 2) div 5"

definition month_no :: "nat \<Rightarrow> nat" where
  "month_no mp = (if mp < 10 then mp + 3 else mp - 9)"

lemma month_of_day: "(5 * doy + 2) div 153 = mp \<longleftrightarrow> month_start mp \<le> doy \<and> doy < month_start (mp + 1)"
proof -
  have "(5 * doy + 2) div 153 = mp \<longleftrightarrow> 153 * mp \<le> 5 * doy + 2 \<and> 5 * doy + 2 < 153 * (mp + 1)"
    by (auto intro!: div_nat_eqI)
  moreover have "month_start mp \<le> doy \<longleftrightarrow> 153 * mp + 2 < Suc doy * 5"
    unfolding month_start_def less_Suc_eq_le [symmetric] by (simp only: div_less_iff_less_mult zero_less_numeral)
  moreover have "doy < month_start (mp + 1) \<longleftrightarrow> Suc doy * 5 \<le> 153 * (mp + 1) + 2"
    unfolding month_start_def less_eq_Suc_le by (simp only: less_eq_div_iff_mult_less_eq zero_less_numeral)
  ultimately show ?thesis by auto
qed

lemma march_date_parts:
  assumes "month_start mp \<le> doy" and "doy < month_start (mp + 1)" and "mp < 12"
  shows "march_date y doy = (if mp < 10 then y else y + 1, month_no mp, doy - month_start mp + 1)"
  using month_of_day [of doy mp] assms by (auto simp: march_date_def Let_def month_no_def month_start_def)

lemma month_lengths:
  "mp < 11 \<Longrightarrow> month_start (mp + 1) - month_start mp = month_len leap (month_no mp)"
proof -
  assume "mp < 11"
  then have "mp \<in> {0, 1, 2, 3, 4, 5, 6, 7, 8, 9, 10}" unfolding insert_iff empty_iff by presburger
  then show ?thesis by (elim insertE emptyE) (simp_all add: month_start_def month_no_def month_len_def)
qed

lemma march_next:
  assumes "doy + 1 < (if leap_year (y + 1) then 366 else 365)"
  shows "next_day (march_date y doy) = march_date y (doy + 1)"
proof -
  define mp where "mp = (5 * doy + 2) div 153"
  have mp: "month_start mp \<le> doy" "doy < month_start (mp + 1)" using month_of_day [of doy mp] by (simp_all add: mp_def)
  have "mp < 12" using assms unfolding mp_def by (auto split: if_splits)
  note now = march_date_parts [OF mp this, of y]
  show ?thesis
  proof (cases "mp = 11")
    case True
    have "march_date y (doy + 1) = (y + 1, 2, doy + 1 - 337 + 1)"
      using march_date_parts [of 11 "doy + 1" y] mp assms True
      by (auto simp: month_start_def month_no_def split: if_splits)
    with now True mp assms show ?thesis
      by (auto simp: next_day_def month_no_def month_len_def month_start_def split: if_splits)
  next
    case False
    with \<open>mp < 12\<close> have small: "mp < 11" by simp
    note len = month_lengths [OF small]
    have order: "month_start (mp + 1) < month_start (mp + 2)"
      using div_le_mono [of "153 * (mp + 1) + 2 + 5" "153 * (mp + 2) + 2" 5] by (simp add: month_start_def)
    show ?thesis
    proof (cases "doy + 1 < month_start (mp + 1)")
      case True
      with mp have "march_date y (doy + 1) = (if mp < 10 then y else y + 1, month_no mp, doy + 1 - month_start mp + 1)"
        by (intro march_date_parts) (use \<open>mp < 12\<close> in auto)
      moreover have "doy - month_start mp + 1 < month_len leap (month_no mp)" for leap
        using True mp len [of leap] by simp
      ultimately show ?thesis using now mp by (simp add: next_day_def Suc_diff_le)
    next
      case False
      with mp have eq: "doy + 1 = month_start (mp + 1)" by simp
      have "march_date y (doy + 1) = (if mp + 1 < 10 then y else y + 1, month_no (mp + 1), doy + 1 - month_start (mp + 1) + 1)"
        by (intro march_date_parts) (use eq order small in auto)
      moreover have "\<not> doy - month_start mp + 1 < month_len leap (month_no mp)" for leap
        using eq mp len [of leap] by simp
      ultimately show ?thesis using now eq small by (auto simp: next_day_def month_no_def)
    qed
  qed
qed

lemma march_new_year: "next_day (march_date y ((if leap_year (y + 1) then 366 else 365) - 1)) = march_date (y + 1) 0"
proof -
  have "march_date y ((if leap_year (y + 1) then 366 else 365) - 1) = (y + 1, 2, if leap_year (y + 1) then 29 else 28)"
    using march_date_parts [of 11 365 y] march_date_parts [of 11 364 y] by (simp add: month_start_def month_no_def)
  moreover have "march_date (y + 1) 0 = (y + 1, 3, 1)"
    using march_date_parts [of 0 0 "y + 1"] by (simp add: month_start_def month_no_def)
  ultimately show ?thesis by (simp add: next_day_def month_len_def)
qed

lemma civil_Suc: "civil_from_days (Suc days) = next_day (civil_from_days days)"
proof -
  define z where "z = days + 719468"
  define era where "era = z div 146097"
  obtain yoe doy where d: "yoe < 400" "doy < year_len yoe" "z mod 146097 = year_start yoe + doy"
    by (rule day_in_cycle [of "z mod 146097"]) simp_all
  have z: "days + 719468 = 146097 * era + year_start yoe + doy"
    using d(3) by (simp add: z_def era_def add.assoc) (metis d(3) mult_div_mod_eq z_def)
  let ?y = "400 * era + yoe"
  have leap: "year_len yoe = (if leap_year (?y + 1) then 366 else 365)"
    using leap_year_cycle [of era "yoe + 1"] by (simp add: year_len_def add.assoc)
  note now = civil_march_date [OF d(1,2) z]
  show ?thesis
  proof (cases "doy + 1 < year_len yoe")
    case True
    have "civil_from_days (Suc days) = march_date ?y (doy + 1)"
      by (rule civil_march_date [OF d(1) True]) (use z in simp)
    with True now leap show ?thesis by (simp add: march_next)
  next
    case False
    with d(2) have last: "doy = year_len yoe - 1" by simp
    have "civil_from_days (Suc days) = march_date (?y + 1) 0"
    proof (cases "yoe = 399")
      case True
      have "civil_from_days (Suc days) = march_date (400 * (era + 1) + 0) 0"
      proof (rule civil_march_date)
        have "0 < year_len yoe" by (simp add: year_len_def)
        then show "Suc days + 719468 = 146097 * (era + 1) + year_start 0 + 0"
          using z last last_year True by (simp add: year_start_def)
      qed (simp_all add: year_len_def)
      with True show ?thesis by (simp add: algebra_simps)
    next
      case False
      with d(1) have yoe: "yoe < 399" by simp
      have "0 < year_len yoe" by (simp add: year_len_def)
      then have "Suc days + 719468 = 146097 * era + year_start (yoe + 1) + 0"
        using z last year_start_Suc [OF yoe] by simp
      then have "civil_from_days (Suc days) = march_date (400 * era + (yoe + 1)) 0"
        by (intro civil_march_date) (use yoe in \<open>simp_all add: year_len_def\<close>)
      then show ?thesis by (simp add: add.assoc)
    qed
    with now last leap march_new_year [of ?y] show ?thesis by simp
  qed
qed

lemma civil_is_calendar: "civil_from_days days = calendar_date days"
proof (induction days)
  case 0
  have "civil_from_days 0 = march_date (400 * 4 + 369) 306"
    by (rule civil_march_date) (simp_all add: year_start_def year_len_def)
  also have "\<dots> = (1970, 1, 1)" using march_date_parts [of 10 306 1969] by (simp add: month_start_def month_no_def)
  finally show ?case by (simp add: calendar_date_def)
next
  case (Suc days)
  then show ?case by (simp add: civil_Suc calendar_date_def)
qed

text \<open>Dates of the calendar are dates.\<close>

lemma calendar_date_valid:
  "case calendar_date days of (y, m, d) \<Rightarrow>
     1970 \<le> y \<and> 1 \<le> m \<and> m \<le> 12 \<and> 1 \<le> d \<and> d \<le> month_len (leap_year y) m"
proof (induction days)
  case 0
  show ?case by (simp add: calendar_date_def month_len_def)
next
  case (Suc days)
  have "1 \<le> month_len leap m" for leap m by (simp add: month_len_def)
  with Suc show ?case by (auto simp: calendar_date_def next_day_def split: prod.splits if_splits)
qed

text \<open>
  C28. The footer of an alert shows the true date. For every 64-bit number of seconds since the
  epoch, the date that is printed is the one the Gregorian calendar reaches when it steps
  through the days one by one from 1970-01-01, with its rule for leap years, and it is a valid
  date; the time of day is printed in hours, minutes and seconds that add up to the rest of
  the day.\<close>
theorem footer_date_is_calendar_date:
  "\<exists>y m d hh mm ss.
     calendar_date (unat t div 86400) = (y, m, d)
     \<and> 1 \<le> m \<and> m \<le> 12 \<and> 1 \<le> d \<and> d \<le> month_len (leap_year y) m
     \<and> 86400 * (unat t div 86400) + 3600 * hh + 60 * mm + ss = unat t \<and> hh < 24 \<and> mm < 60 \<and> ss < 60
     \<and> format_utc t = pad_zero 4 (show_nat y) @ lit ''-'' @ pad_zero 2 (show_nat m) @ lit ''-'' @ pad_zero 2 (show_nat d)
         @ lit '' '' @ pad_zero 2 (show_nat hh) @ lit '':'' @ pad_zero 2 (show_nat mm) @ lit '':'' @ pad_zero 2 (show_nat ss)
         @ lit '' UTC''"
proof -
  obtain y m d where c: "calendar_date (unat t div 86400) = (y, m, d)" by (metis prod_cases3)
  define r where "r = unat t mod 86400"
  have "86400 * (unat t div 86400) + 3600 * (r div 3600) + 60 * (r mod 3600 div 60) + r mod 60 = unat t"
  proof -
    have "r mod 3600 mod 60 = r mod 60" by (simp add: mod_mod_cancel)
    then have "3600 * (r div 3600) + 60 * (r mod 3600 div 60) + r mod 60 = r"
      using mult_div_mod_eq [of 60 "r mod 3600"] mult_div_mod_eq [of 3600 r] by linarith
    then show ?thesis using mult_div_mod_eq [of 86400 "unat t"] unfolding r_def by linarith
  qed
  moreover have "r div 3600 < 24" "r mod 3600 div 60 < 60" "r mod 60 < 60"
    by (simp_all add: r_def less_mult_imp_div_less)
  moreover have "format_utc t = pad_zero 4 (show_nat y) @ lit ''-'' @ pad_zero 2 (show_nat m) @ lit ''-'' @ pad_zero 2 (show_nat d)
         @ lit '' '' @ pad_zero 2 (show_nat (r div 3600)) @ lit '':'' @ pad_zero 2 (show_nat (r mod 3600 div 60))
         @ lit '':'' @ pad_zero 2 (show_nat (r mod 60)) @ lit '' UTC''"
    using c by (simp add: format_utc_def civil_is_calendar r_def [symmetric] Let_def)
  ultimately show ?thesis using c calendar_date_valid [of "unat t div 86400"] by (intro exI conjI) auto
qed

end
