(* ===== verification/Udp_Offload.thy ===== *)
theory Udp_Offload
  imports Net
begin

text \<open>
  UDP segmentation offload, \<open>mod offload\<close> of \<open>src/src/udp.rs\<close>: what a receive with
  \<open>UDP_GRO\<close> means, and the splitting of a coalesced buffer into sends with \<open>UDP_SEGMENT\<close>.
  The system calls are parameters. A send returns its answer and the next world; the sends
  that succeeded are part of the result of \<open>send_chunks\<close>, for the proofs.
\<close>

type_synonym payload = "nat list"

definition MAX_GSO_SEGMENTS :: nat where "MAX_GSO_SEGMENTS = 64"
definition GSO_MAX_PAYLOAD :: nat where "GSO_MAX_PAYLOAD = 65507"
definition GRO_BUF_BYTES :: nat where "GRO_BUF_BYTES = 128 * 1024"

text \<open>\<open>len\<close> of the code is the length of the data that was received.\<close>

record gro_recv =
  gr_data :: payload
  gr_segment :: nat
  gr_from :: "socket_addr option"
  gr_truncated :: bool

definition is_coalesced :: "nat \<Rightarrow> nat \<Rightarrow> bool" where
  "is_coalesced len segment \<longleftrightarrow> segment > 0 \<and> segment < len"

definition div_ceil :: "nat \<Rightarrow> nat \<Rightarrow> nat" where
  "div_ceil a b = (a + b - 1) div b"

definition segments :: "nat \<Rightarrow> nat \<Rightarrow> u64" where
  "segments len segment = (if is_coalesced len segment then of_nat (div_ceil len segment) else 1)"

definition chunk_bytes :: "nat \<Rightarrow> nat" where
  "chunk_bytes segment = segment * max 1 (min (GSO_MAX_PAYLOAD div segment) MAX_GSO_SEGMENTS)"

definition is_fallback_error :: "io_error \<Rightarrow> bool" where
  "is_fallback_error e \<longleftrightarrow> ioe_os e \<in> {Some EINVAL, Some EIO, Some EMSGSIZE}"

text \<open>
  The control messages of one \<open>recvmsg\<close> as level, type and value: the last \<open>UDP_GRO\<close>
  message wins, a negative value counts as absent.
\<close>

definition SOL_UDP :: int where "SOL_UDP = 17"
definition UDP_GRO :: int where "UDP_GRO = 104"

definition gro_segment :: "(int \<times> int \<times> int) list \<Rightarrow> nat" where
  "gro_segment cmsgs =
     fold (\<lambda>(level, typ, v) seg. if level = SOL_UDP \<and> typ = UDP_GRO then nat v else seg) cmsgs 0"

text \<open>
  One \<open>recvmsg\<close>: what the kernel fills in (the bytes, the source address, the control messages and
  \<open>MSG_TRUNC\<close>), and what \<open>recv\<close> makes of it. The source is reported only when it was asked for.
\<close>

record recvmsg_answer =
  ra_data :: payload
  ra_name :: "socket_addr option"
  ra_cmsgs :: "(int \<times> int \<times> int) list"
  ra_trunc :: bool

definition offload_recv :: "bool \<Rightarrow> io_error + recvmsg_answer \<Rightarrow> io_error + gro_recv" where
  "offload_recv want_from ans =
     (case ans of
        Inl e \<Rightarrow> Inl e
      | Inr a \<Rightarrow>
          Inr \<lparr>gr_data = ra_data a, gr_segment = gro_segment (ra_cmsgs a),
               gr_from = (if want_from then ra_name a else None), gr_truncated = ra_trunc a\<rparr>)"

text \<open>The control messages of one \<open>sendmsg\<close>: a segment size above zero asks for segmentation.\<close>

definition UDP_SEGMENT :: int where "UDP_SEGMENT = 103"

definition offload_send_cmsgs :: "u16 \<Rightarrow> (int \<times> int \<times> int) list" where
  "offload_send_cmsgs segment = (if segment > 0 then [(SOL_UDP, UDP_SEGMENT, uint segment)] else [])"

text \<open>\<open>slice::chunks\<close>.\<close>

function chunks :: "nat \<Rightarrow> 'a list \<Rightarrow> 'a list list" where
  "chunks n xs = (if xs = [] \<or> n = 0 then [] else take n xs # chunks n (drop n xs))"
  by pat_completeness auto
termination by (relation "measure (\<lambda>(n, xs). length xs)") auto

declare chunks.simps [simp del]

datatype gso_send = GsoSent | GsoStopped nat io_error

text \<open>
  The send loop. \<open>step\<close> is positive for every positive segment size; a segment size of zero
  is no burst and never reaches this code (\<open>chunk_bytes\<close> would divide by zero).
\<close>

function send_loop :: "('w \<Rightarrow> payload \<Rightarrow> u16 \<Rightarrow> (io_error + nat) \<times> 'w) \<Rightarrow> nat \<Rightarrow> u16 \<Rightarrow> nat \<Rightarrow> nat \<Rightarrow> payload
    \<Rightarrow> 'w \<Rightarrow> gso_send \<times> (payload \<times> u16) list \<times> 'w" where
  "send_loop send_one segment seg16 step off buf w =
     (if off < length buf \<and> 0 < step
      then (let e = min (off + step) (length buf);
                chunk = take (e - off) (drop off buf);
                seg = (if length chunk > segment then seg16 else 0)
            in case send_one w chunk seg of
                 (Inl err, w') \<Rightarrow> (GsoStopped off err, [], w')
               | (Inr n, w') \<Rightarrow>
                   (case send_loop send_one segment seg16 step e buf w' of
                      (r, sent, w'') \<Rightarrow> (r, (chunk, seg) # sent, w'')))
      else (GsoSent, [], w))"
  by pat_completeness auto
termination by (relation "measure (\<lambda>(s, g, h, step, off, buf, w). length buf - off)") auto

declare send_loop.simps [simp del]

definition send_chunks :: "('w \<Rightarrow> payload \<Rightarrow> u16 \<Rightarrow> (io_error + nat) \<times> 'w) \<Rightarrow> payload \<Rightarrow> nat
    \<Rightarrow> 'w \<Rightarrow> gso_send \<times> (payload \<times> u16) list \<times> 'w" where
  "send_chunks send_one buf segment w =
     (if segment \<ge> 2 ^ 16 then (GsoStopped 0 \<lparr>ioe_kind = OtherKind, ioe_os = Some EINVAL\<rparr>, [], w)
      else send_loop send_one segment (of_nat segment) (chunk_bytes segment) 0 buf w)"

text \<open>The datagrams one send puts on the wire: the kernel cuts at the segment size.\<close>

definition wire :: "payload \<times> u16 \<Rightarrow> payload list" where
  "wire s = (case s of (chunk, seg) \<Rightarrow> if seg = 0 then [chunk] else chunks (unat seg) chunk)"

text \<open>
  The kernel's side of both calls on one host: a send with its control messages as datagrams,
  and a burst with its segment size as \<open>recvmsg\<close> delivers it.
\<close>

definition segment_asked :: "(int \<times> int \<times> int) list \<Rightarrow> nat" where
  "segment_asked cmsgs =
     fold (\<lambda>(level, typ, v) seg. if level = SOL_UDP \<and> typ = UDP_SEGMENT then nat v else seg) cmsgs 0"

definition sent_datagrams :: "payload \<Rightarrow> (int \<times> int \<times> int) list \<Rightarrow> payload list" where
  "sent_datagrams buf cmsgs =
     (if segment_asked cmsgs = 0 then [buf] else chunks (segment_asked cmsgs) buf)"

section \<open>Chunks\<close>

lemma chunks_Nil [simp]: "chunks n [] = []"
  by (subst chunks.simps) simp

lemma chunks_short: "xs \<noteq> [] \<Longrightarrow> length xs \<le> n \<Longrightarrow> chunks n xs = [xs]"
  by (cases xs) (simp_all add: chunks.simps)

lemma chunks_Cons: "xs \<noteq> [] \<Longrightarrow> 0 < n \<Longrightarrow> chunks n xs = take n xs # chunks n (drop n xs)"
  by (subst chunks.simps) simp

lemma chunks_append:
  "0 < n \<Longrightarrow> n dvd length xs \<Longrightarrow> chunks n (xs @ ys) = chunks n xs @ chunks n ys"
proof (induction n xs rule: chunks.induct)
  case (1 n xs)
  show ?case
  proof (cases "xs = []")
    case False
    then have le: "n \<le> length xs" using 1(3) by (simp add: dvd_imp_le)
    then have "n dvd length (drop n xs)" using 1(3) by (simp add: dvd_diff_nat)
    with 1(1) False 1(2) have IH: "chunks n (drop n xs @ ys) = chunks n (drop n xs) @ chunks n ys" by simp
    have "chunks n (xs @ ys) = take n xs # chunks n (drop n xs @ ys)"
      using False le 1(2) by (subst chunks.simps) simp
    moreover have "chunks n xs = take n xs # chunks n (drop n xs)"
      using False 1(2) by (rule chunks_Cons)
    ultimately show ?thesis using IH by simp
  qed simp
qed

lemma length_chunks: "0 < n \<Longrightarrow> length (chunks n xs) = div_ceil (length xs) n"
proof (induction n xs rule: chunks.induct)
  case (1 n xs)
  show ?case
  proof (cases "xs = []")
    case False
    with 1 have IH: "length (chunks n (drop n xs)) = div_ceil (length xs - n) n" by simp
    have "length (chunks n xs) = Suc (div_ceil (length xs - n) n)"
      using False 1(2) IH by (simp add: chunks_Cons)
    also have "\<dots> = div_ceil (length xs) n"
    proof (cases "length xs \<le> n")
      case True
      have "(length xs + n - 1) div n = 1"
      proof (rule div_nat_eqI)
        have "1 \<le> length xs" using False by (cases xs) auto
        then show "n * 1 \<le> length xs + n - 1" by simp
        show "length xs + n - 1 < n * Suc 1" using True 1(2) by simp
      qed
      with True 1(2) show ?thesis by (simp add: div_ceil_def)
    next
      case le: False
      define k where "k = length xs - n + n - 1"
      have "length xs + n - 1 = k + n" using le 1(2) by (simp add: k_def)
      moreover have "(k + n) div n = Suc (k div n)" using 1(2) by (simp add: div_add_self2)
      ultimately show ?thesis unfolding div_ceil_def k_def [symmetric] by simp
    qed
    finally show ?thesis .
  qed (simp add: div_ceil_def 1)
qed

lemma chunks_nonempty: "c \<in> set (chunks n xs) \<Longrightarrow> c \<noteq> [] \<and> length c \<le> n"
proof (induction n xs rule: chunks.induct)
  case (1 n xs)
  then show ?case by (subst (asm) (2) chunks.simps) (auto split: if_splits)
qed

lemma concat_chunks: "0 < n \<Longrightarrow> concat (chunks n xs) = xs"
proof (induction n xs rule: chunks.induct)
  case (1 n xs)
  then show ?case by (cases "xs = []") (simp_all add: chunks_Cons)
qed

lemma segments_chunks:
  "0 < segment \<Longrightarrow> data \<noteq> [] \<Longrightarrow> segments (length data) segment = of_nat (length (chunks segment data))"
proof (cases "segment < length data")
  case True
  assume "0 < segment"
  with True show ?thesis by (simp add: segments_def is_coalesced_def length_chunks)
next
  case False
  assume "0 < segment" "data \<noteq> []"
  with False show ?thesis by (simp add: segments_def is_coalesced_def chunks_short)
qed

section \<open>Sending a burst\<close>

lemma chunk_bytes_facts:
  assumes "0 < segment"
  shows "0 < chunk_bytes segment" "segment dvd chunk_bytes segment"
    "segment \<le> GSO_MAX_PAYLOAD \<Longrightarrow> chunk_bytes segment \<le> GSO_MAX_PAYLOAD"
    "chunk_bytes segment \<le> MAX_GSO_SEGMENTS * segment"
proof -
  show "0 < chunk_bytes segment" using assms by (simp add: chunk_bytes_def)
  show "segment dvd chunk_bytes segment" by (simp add: chunk_bytes_def)
  show "chunk_bytes segment \<le> MAX_GSO_SEGMENTS * segment"
    by (simp add: chunk_bytes_def MAX_GSO_SEGMENTS_def max_def)
  assume "segment \<le> GSO_MAX_PAYLOAD"
  then have "1 \<le> GSO_MAX_PAYLOAD div segment" using assms by (simp add: div_greater_zero_iff Suc_leI)
  then have "max 1 (min (GSO_MAX_PAYLOAD div segment) MAX_GSO_SEGMENTS) \<le> GSO_MAX_PAYLOAD div segment"
    by simp
  then have "chunk_bytes segment \<le> segment * (GSO_MAX_PAYLOAD div segment)"
    unfolding chunk_bytes_def by (rule mult_le_mono2)
  also have "\<dots> \<le> GSO_MAX_PAYLOAD" by simp
  finally show "chunk_bytes segment \<le> GSO_MAX_PAYLOAD" .
qed

lemma wire_chunks:
  assumes "0 < segment" "segment < 2 ^ 16" "chunk \<noteq> []"
  shows "wire (chunk, if length chunk > segment then of_nat segment else 0) = chunks segment chunk"
proof -
  have u: "unat (of_nat segment :: u16) = segment" using assms(2) by (simp add: unat_of_nat)
  then have "(of_nat segment :: u16) \<noteq> 0" using assms(1) by (metis less_numeral_extra(3) unat_0)
  with u assms show ?thesis by (auto simp: wire_def chunks_short)
qed

text \<open>What is left of the burst after a result, and the offsets a result may have.\<close>

fun burst_rest :: "payload \<Rightarrow> gso_send \<Rightarrow> payload" where
  "burst_rest buf GsoSent = []"
| "burst_rest buf (GsoStopped from e) = drop from buf"

fun stop_ok :: "payload \<Rightarrow> nat \<Rightarrow> gso_send \<Rightarrow> bool" where
  "stop_ok buf segment GsoSent = True"
| "stop_ok buf segment (GsoStopped from e) = (segment dvd from \<and> from < length buf)"

lemma send_loop_wire:
  assumes "0 < segment" "segment < 2 ^ 16" "segment dvd step" "0 < step" "segment dvd off"
    and "send_loop send_one segment (of_nat segment) step off buf w = (r, sent, w')"
  shows "concat (map wire sent) @ chunks segment (burst_rest buf r) = chunks segment (drop off buf)
     \<and> stop_ok buf segment r \<and> list_all (\<lambda>(chunk, seg). length chunk \<le> step \<and> wire (chunk, seg) = chunks segment chunk) sent"
  using assms
proof (induction send_one segment "of_nat segment :: u16" step off buf w arbitrary: r sent w' rule: send_loop.induct)
  case (1 send_one segment step off buf w)
  show ?case
  proof (cases "off < length buf")
    case False
    then have "r = GsoSent \<and> sent = []" using 1(7) by (subst (asm) send_loop.simps) simp
    with False show ?thesis by simp
  next
    case True
    define e where "e = min (off + step) (length buf)"
    define chunk where "chunk = take (e - off) (drop off buf)"
    let ?seg = "if length chunk > segment then of_nat segment else 0 :: u16"
    have chunk: "chunk \<noteq> []" "length chunk = e - off" "length chunk \<le> step"
      using True 1(5) by (auto simp: chunk_def e_def)
    have wire: "wire (chunk, ?seg) = chunks segment chunk"
      by (rule wire_chunks [OF 1(2,3) chunk(1)])
    have step: "send_loop send_one segment (of_nat segment) step off buf w =
        (case send_one w chunk ?seg of
           (Inl err, w') \<Rightarrow> (GsoStopped off err, [], w')
         | (Inr n, w') \<Rightarrow>
             (case send_loop send_one segment (of_nat segment) step e buf w' of
                (r, sent, w'') \<Rightarrow> (r, (chunk, ?seg) # sent, w'')))"
      by (subst send_loop.simps)
        (simp only: Let_def e_def [symmetric] chunk_def [symmetric] True 1(5) simp_thms if_True)
    obtain ans w1 where s1: "send_one w chunk ?seg = (ans, w1)" by fastforce
    show ?thesis
    proof (cases ans)
      case (Inl err)
      then have "r = GsoStopped off err \<and> sent = []" using 1(7) step s1 by simp
      with True 1(6) show ?thesis by simp
    next
      case (Inr n)
      obtain r2 sent2 w2 where rec: "send_loop send_one segment (of_nat segment) step e buf w1 = (r2, sent2, w2)"
        by (metis prod.exhaust_sel)
      have res: "r = r2" "sent = (chunk, ?seg) # sent2" using 1(7) step s1 Inr rec by simp_all
      have split: "drop off buf = chunk @ drop e buf"
      proof -
        have "off \<le> e" using True by (simp add: e_def)
        then have "drop e buf = drop (e - off) (drop off buf)" by simp
        then show ?thesis by (simp only: chunk_def append_take_drop_id)
      qed
      show ?thesis
      proof (cases "off + step \<le> length buf")
        case True
        then have e: "e = off + step" "segment dvd e" using 1(4,6) by (simp_all add: e_def)
        have dvd: "segment dvd length chunk" using chunk(2) e 1(4) by simp
        have "concat (map wire sent2) @ chunks segment (burst_rest buf r2) = chunks segment (drop e buf)
            \<and> stop_ok buf segment r2 \<and> list_all (\<lambda>(chunk, seg). length chunk \<le> step \<and> wire (chunk, seg) = chunks segment chunk) sent2"
          by (rule 1(1) [OF _ e_def chunk_def refl s1 [symmetric] Inr 1(2-5) e(2) rec])
            (use \<open>off < length buf\<close> 1(5) in simp)
        then show ?thesis using res split wire dvd chunk(3) 1(2) by (simp add: chunks_append)
      next
        case False
        then have e: "e = length buf" by (simp add: e_def)
        then have "r2 = GsoSent \<and> sent2 = []" using rec by (subst (asm) send_loop.simps) simp
        then show ?thesis using res split wire chunk(3) e by simp
      qed
    qed
  qed
qed

lemma send_chunks_stop:
  assumes "is_coalesced (length buf) segment" and "send_chunks send_one buf segment w = (r, sent, w')"
  shows "stop_ok buf segment r"
proof (cases "segment < 2 ^ 16")
  case True
  have pos: "0 < segment" using assms(1) by (simp add: is_coalesced_def)
  have run: "send_loop send_one segment (of_nat segment) (chunk_bytes segment) 0 buf w = (r, sent, w')"
    using assms(2) True by (simp add: send_chunks_def)
  show ?thesis
    using send_loop_wire [OF pos True chunk_bytes_facts(2,1) [OF pos] dvd_0_right run] by blast
next
  case False
  moreover have "0 < length buf" using assms(1) by (cases buf) (auto simp: is_coalesced_def)
  ultimately show ?thesis using assms(2) by (auto simp: send_chunks_def)
qed

lemma chunks_split:
  assumes "0 < n" and "n dvd f" and "f \<le> length xs"
  shows "chunks n xs = chunks n (take f xs) @ chunks n (drop f xs)"
    and "length (chunks n (take f xs)) = f div n"
proof -
  have "n dvd length (take f xs)" using assms by simp
  then show "chunks n xs = chunks n (take f xs) @ chunks n (drop f xs)"
    using chunks_append [OF assms(1), of "take f xs" "drop f xs"] by simp
  obtain q where f: "f = n * q" using assms(2) by (rule dvdE)
  have "(n * q + n - 1) div n = q"
    using assms(1) by (intro div_nat_eqI) (auto simp: algebra_simps)
  then show "length (chunks n (take f xs)) = f div n"
    using assms f by (simp add: length_chunks div_ceil_def)
qed

lemma segments_split:
  assumes "0 < n" and "n dvd f" and "f < length xs"
  shows "of_nat (f div n) + of_nat (length (chunks n (drop f xs))) = segments (length xs) n"
    and "of_nat (f div n) + segments (length xs - f) n = segments (length xs) n"
proof -
  have ne: "xs \<noteq> []" "drop f xs \<noteq> []" using assms(3) by auto
  show *: "of_nat (f div n) + of_nat (length (chunks n (drop f xs))) = segments (length xs) n"
    using chunks_split [OF assms(1,2), of xs] assms(3) segments_chunks [OF assms(1) ne(1)] by simp
  show "of_nat (f div n) + segments (length xs - f) n = segments (length xs) n"
    using * segments_chunks [OF assms(1) ne(2)] by simp
qed

lemma drop_chunks: "0 < n \<Longrightarrow> drop i (chunks n xs) = chunks n (drop (i * n) xs)"
proof (induction i arbitrary: xs)
  case (Suc i)
  show ?case
  proof (cases "xs = []")
    case False
    then show ?thesis using Suc by (simp add: chunks_Cons add.commute)
  qed simp
qed simp

lemma div_ceil_le: "a \<le> k * b \<Longrightarrow> 0 < b \<Longrightarrow> div_ceil a b \<le> k"
proof -
  assume a: "a \<le> k * b" and b: "0 < b"
  then have "a + b - 1 < Suc k * b" by simp
  then have "(a + b - 1) div b < Suc k" using b by (simp add: less_mult_imp_div_less)
  then show ?thesis by (simp add: div_ceil_def)
qed

text \<open>
  C9. Segmentation offload never changes a datagram: for every burst and any outcomes of the
  sends, the datagrams on the wire followed by those of the unsent rest are exactly the
  burst's datagrams in order, a send that stopped did so on a datagram boundary inside the
  burst, and each send carried at most 64 datagrams and, for segments that fit a UDP packet,
  at most 65507 bytes.\<close>
theorem gso_preserves_datagrams:
  assumes "is_coalesced (length buf) segment"
    and "send_chunks send_one buf segment w = (r, sent, w')"
  shows "concat (map wire sent) @ chunks segment (burst_rest buf r) = chunks segment buf
     \<and> stop_ok buf segment r
     \<and> list_all (\<lambda>s. length (wire s) \<le> 64 \<and> (segment \<le> 65507 \<longrightarrow> length (fst s) \<le> 65507)) sent"
proof (cases "segment < 2 ^ 16")
  case True
  have pos: "0 < segment" using assms(1) by (simp add: is_coalesced_def)
  note f = chunk_bytes_facts [OF pos]
  have run: "send_loop send_one segment (of_nat segment) (chunk_bytes segment) 0 buf w = (r, sent, w')"
    using assms(2) True by (simp add: send_chunks_def)
  note l = send_loop_wire [OF pos True f(2) f(1) dvd_0_right run]
  have "length (wire s) \<le> 64 \<and> (segment \<le> 65507 \<longrightarrow> length (fst s) \<le> 65507)" if "s \<in> set sent" for s
  proof -
    have s: "length (fst s) \<le> chunk_bytes segment" "wire s = chunks segment (fst s)"
      using l that by (auto simp: list_all_iff)
    have "length (fst s) \<le> 64 * segment" using s(1) f(4) by (simp add: MAX_GSO_SEGMENTS_def)
    then have "length (wire s) \<le> 64" using s(2) pos by (simp add: length_chunks div_ceil_le)
    moreover have "segment \<le> 65507 \<Longrightarrow> length (fst s) \<le> 65507"
      using s(1) f(3) by (simp add: GSO_MAX_PAYLOAD_def)
    ultimately show ?thesis by blast
  qed
  then show ?thesis using l by (simp add: list_all_iff)
next
  case False
  then have "r = GsoStopped 0 \<lparr>ioe_kind = OtherKind, ioe_os = Some EINVAL\<rparr> \<and> sent = []"
    using assms(2) by (simp add: send_chunks_def)
  moreover have "0 < length buf" using assms(1) by (cases buf) (auto simp: is_coalesced_def)
  ultimately show ?thesis by simp
qed

definition sample_send :: "nat \<Rightarrow> payload \<Rightarrow> u16 \<Rightarrow> (io_error + nat) \<times> nat" where
  "sample_send n chunk seg = (Inr (length chunk), Suc n)"

theorem gso_preserves_datagrams_witness:
  "\<exists>r sent w'. send_chunks sample_send [1, 2, 3, 4, 5] 2 0 = (r, sent, w')
     \<and> concat (map wire sent) @ chunks 2 (burst_rest [1, 2, 3, 4, 5] r) = chunks 2 [1, 2, 3, 4, 5]"
proof -
  obtain r sent w' where s: "send_chunks sample_send [1, 2, 3, 4, 5] 2 0 = (r, sent, w')"
    by (metis prod.exhaust_sel)
  have "is_coalesced (length [1, 2, 3, 4, 5 :: nat]) 2" by (simp add: is_coalesced_def)
  from gso_preserves_datagrams [OF this s] s show ?thesis by blast
qed

text \<open>
  The control messages carry the segment size: what the kernel cuts from a send is \<open>wire\<close> of its
  size, and a burst that is received with the size of the sender is read back with it, so that
  the engine cuts it at the same places. A message without one is a single datagram.
\<close>

lemma send_cmsgs_wire: "sent_datagrams buf (offload_send_cmsgs segment) = wire (buf, segment)"
proof -
  have "segment_asked (offload_send_cmsgs segment) = unat segment"
    by (auto simp: segment_asked_def offload_send_cmsgs_def word_gt_0)
  then show ?thesis by (simp add: sent_datagrams_def wire_def unat_eq_zero)
qed

lemma offload_recv_burst:
  assumes "offload_recv True (Inr a) = Inr r" and "ra_cmsgs a = [(SOL_UDP, UDP_GRO, int n)]"
  shows "gr_segment r = n \<and> gr_data r = ra_data a \<and> gr_from r = ra_name a \<and> gr_truncated r = ra_trunc a"
  using assms by (auto simp: offload_recv_def gro_segment_def)

lemma offload_recv_plain:
  assumes "offload_recv want (Inr a) = Inr r" and "\<forall>(level, typ, v) \<in> set (ra_cmsgs a). level \<noteq> SOL_UDP \<or> typ \<noteq> UDP_GRO"
  shows "gr_segment r = 0 \<and> segments (length (gr_data r)) (gr_segment r) = 1"
proof -
  have "fold (\<lambda>(level, typ, v) seg. if level = SOL_UDP \<and> typ = UDP_GRO then nat v else seg) cs z = z"
    if "\<forall>(level, typ, v) \<in> set cs. level \<noteq> SOL_UDP \<or> typ \<noteq> UDP_GRO" for cs and z :: nat
    using that by (induction cs arbitrary: z) auto
  with assms show ?thesis by (auto simp: offload_recv_def gro_segment_def segments_def is_coalesced_def)
qed

end
