(* ===== verification/Udp_Engine.thy ===== *)
theory Udp_Engine
  imports Udp_Offload Connect Stats Notify Permits
begin

text \<open>
  The UDP engine of \<open>src/src/udp.rs\<close>: one listener with a table of sessions, one connected
  upstream socket and one reply task per session. The kernel, the clock included, is the
  record \<open>udp_kernel\<close> over a world; every system call returns its answer and the next world.

  A session is a record that lives as long as its shared part does: as long as the listener's
  table has it (\<open>se_listed\<close>) or its reply task runs (\<open>se_task\<close>). Its permit and its place
  in the gauge of active connections go with it.
\<close>

section \<open>Errors and log gates\<close>

datatype udp_err = UdpWouldBlock | UdpTransient | UdpIcmp icmp_kind | UdpFatal

definition classify_udp_err :: "io_error \<Rightarrow> udp_err" where
  "classify_udp_err e =
     (case ioe_kind e of
        WouldBlock \<Rightarrow> UdpWouldBlock
      | Interrupted \<Rightarrow> UdpTransient
      | ConnectionRefused \<Rightarrow> UdpIcmp PortUnreachable
      | ConnectionReset \<Rightarrow> UdpIcmp PortUnreachable
      | HostUnreachable \<Rightarrow> UdpIcmp IcmpHostUnreachable
      | NetworkUnreachable \<Rightarrow> UdpIcmp IcmpNetworkUnreachable
      | _ \<Rightarrow> UdpFatal)"

definition LISTENER_BATCH :: nat where "LISTENER_BATCH = 64"
definition SESSION_BATCH :: nat where "SESSION_BATCH = 64"
definition DROP_LOG_SPACING :: duration where "DROP_LOG_SPACING = from_secs 10"
definition DNS_FAIL_LOG_SPACING :: duration where "DNS_FAIL_LOG_SPACING = from_secs 30"
definition UDP_BUF_BYTES :: nat where "UDP_BUF_BYTES = 65536"

record log_gate =
  lg_last :: "instant option"
  lg_suppressed :: u64

definition log_gate_default :: log_gate where
  "log_gate_default = \<lparr>lg_last = None, lg_suppressed = 0\<rparr>"

definition log_gate_check :: "duration \<Rightarrow> instant \<Rightarrow> log_gate \<Rightarrow> u64 option \<times> log_gate" where
  "log_gate_check spacing now g =
     (if (case lg_last g of Some t \<Rightarrow> now - t < spacing | None \<Rightarrow> False)
      then (None, g\<lparr>lg_suppressed := lg_suppressed g + 1\<rparr>)
      else (Some (lg_suppressed g), \<lparr>lg_last = Some now, lg_suppressed = 0\<rparr>))"

interpretation udp_log_gate: gate log_gate_check "\<lambda>g :: log_gate. (lg_last g, lg_suppressed g)"
proof
  fix g :: log_gate and l n t w
  assume "(lg_last g, lg_suppressed g) = (Some l, n)" and "t - l < w"
  then show "fst (log_gate_check w t g) = None
      \<and> (lg_last (snd (log_gate_check w t g)), lg_suppressed (snd (log_gate_check w t g))) = (Some l, n + 1)"
    by (simp add: log_gate_check_def)
next
  fix g :: log_gate and last_passed n t w
  assume "(lg_last g, lg_suppressed g) = (last_passed, n)" and "\<forall>l. last_passed = Some l \<longrightarrow> w \<le> t - l"
  then show "fst (log_gate_check w t g) = Some n
      \<and> (lg_last (snd (log_gate_check w t g)), lg_suppressed (snd (log_gate_check w t g))) = (Some t, 0)"
    by (auto simp: log_gate_check_def split: option.splits)
qed

record gates =
  ga_send_full :: log_gate
  ga_no_target :: log_gate
  ga_open_failed :: log_gate
  ga_recv_failed :: log_gate
  ga_gso_fallback :: log_gate
  ga_gro_trunc :: log_gate

section \<open>Sessions\<close>

record batch =
  ba_bytes :: u64
  ba_datagrams :: u64
  ba_dropped :: u64

definition batch_default :: batch where
  "batch_default = \<lparr>ba_bytes = 0, ba_datagrams = 0, ba_dropped = 0\<rparr>"

record session =
  se_id :: nat
  se_client :: socket_addr
  se_remote :: socket_addr
  se_last_activity_ms :: u64
  se_dead :: bool
  se_rx_datagrams :: u64
  se_gro :: bool
  se_opened :: instant
  se_tx_datagrams :: u64
  se_gso_ok :: bool
  se_listed :: bool
  se_task :: bool

definition touch :: "u64 \<Rightarrow> session \<Rightarrow> session" where
  "touch now_ms s =
     (if se_last_activity_ms s < now_ms
      then s\<lparr>se_last_activity_ms := max (se_last_activity_ms s) now_ms\<rparr> else s)"

definition same_addr_set :: "socket_addr list \<Rightarrow> socket_addr list \<Rightarrow> bool" where
  "same_addr_set a b \<longleftrightarrow> sort_dedup a = sort_dedup b"

definition is_fd_exhaustion :: "io_error \<Rightarrow> bool" where
  "is_fd_exhaustion e \<longleftrightarrow> ioe_os e \<in> {Some EMFILE, Some ENFILE}"

text \<open>
  The system calls: the clock, its reading when it is asked a second time with no other call in
  between, a receive on the listener (plain and with control messages),
  the connect and the \<open>UDP_GRO\<close> option of a new upstream socket and of the listener, a send
  upstream for a session (segment size 0 is a plain send), a receive from upstream (for one
  readiness flag), a reply through the listener, and the waiting reply of a blocked session.
\<close>

record 'w udp_kernel =
  uk_now :: "'w \<Rightarrow> instant"
  uk_now_again :: "'w \<Rightarrow> instant"
  uk_recv_from :: "'w \<Rightarrow> (io_error + (payload \<times> socket_addr)) \<times> 'w"
  uk_recv_gro :: "'w \<Rightarrow> (io_error + gro_recv) \<times> 'w"
  uk_connect :: "'w \<Rightarrow> socket_addr \<Rightarrow> nat option \<Rightarrow> (io_error + unit) \<times> 'w"
  uk_set_gro :: "'w \<Rightarrow> (io_error + unit) \<times> 'w"
  uk_send_up :: "nat \<Rightarrow> 'w \<Rightarrow> payload \<Rightarrow> u16 \<Rightarrow> (io_error + nat) \<times> 'w"
  uk_recv_up :: "nat \<Rightarrow> bool \<Rightarrow> 'w \<Rightarrow> (io_error + payload) \<times> 'w"
  uk_recv_up_gro :: "nat \<Rightarrow> bool \<Rightarrow> 'w \<Rightarrow> (io_error + gro_recv) \<times> 'w"
  uk_reply :: "socket_addr \<Rightarrow> 'w \<Rightarrow> payload \<Rightarrow> u16 \<Rightarrow> (io_error + nat) \<times> 'w"

section \<open>Client to target\<close>

text \<open>The part of the engine a send upstream touches.\<close>

record 'w sending =
  sd_session :: session
  sd_batch :: batch
  sd_stats :: forwarder_stats
  sd_gates :: gates
  sd_world :: 'w

definition note_upstream_send_error :: "'w udp_kernel \<Rightarrow> io_error \<Rightarrow> u64 \<Rightarrow> 'w sending \<Rightarrow> 'w sending" where
  "note_upstream_send_error k e now_ms sd =
     (case classify_udp_err e of
        UdpWouldBlock \<Rightarrow>
          sd\<lparr>sd_gates := (sd_gates sd)\<lparr>ga_send_full :=
               snd (log_gate_check DROP_LOG_SPACING (uk_now k (sd_world sd)) (ga_send_full (sd_gates sd)))\<rparr>\<rparr>
      | UdpIcmp kind \<Rightarrow> sd\<lparr>sd_stats := mark_udp_icmp_error now_ms kind (sd_stats sd)\<rparr>
      | UdpTransient \<Rightarrow> sd
      | UdpFatal \<Rightarrow> sd)"

definition count_sent :: "u64 \<Rightarrow> u64 \<Rightarrow> 'w sending \<Rightarrow> 'w sending" where
  "count_sent datagrams bytes sd =
     sd\<lparr>sd_session := (sd_session sd)\<lparr>se_tx_datagrams := se_tx_datagrams (sd_session sd) + datagrams\<rparr>,
        sd_batch := (sd_batch sd)\<lparr>ba_datagrams := ba_datagrams (sd_batch sd) + datagrams,
                                  ba_bytes := ba_bytes (sd_batch sd) + bytes\<rparr>\<rparr>"

definition count_dropped :: "u64 \<Rightarrow> 'w sending \<Rightarrow> 'w sending" where
  "count_dropped n sd = sd\<lparr>sd_batch := (sd_batch sd)\<lparr>ba_dropped := ba_dropped (sd_batch sd) + n\<rparr>\<rparr>"

definition touch_session :: "u64 \<Rightarrow> 'w sending \<Rightarrow> 'w sending" where
  "touch_session now_ms sd = sd\<lparr>sd_session := touch now_ms (sd_session sd)\<rparr>"

definition forward_upstream :: "'w udp_kernel \<Rightarrow> u64 \<Rightarrow> payload \<Rightarrow> 'w sending \<Rightarrow> 'w sending" where
  "forward_upstream k now_ms data sd =
     (case uk_send_up k (se_id (sd_session sd)) (sd_world sd) data 0 of
        (Inr n, w') \<Rightarrow> touch_session now_ms (count_sent 1 (of_nat (length data)) (sd\<lparr>sd_world := w'\<rparr>))
      | (Inl e, w') \<Rightarrow> note_upstream_send_error k e now_ms (count_dropped 1 (sd\<lparr>sd_world := w'\<rparr>)))"

definition forward_upstream_coalesced :: "'w udp_kernel \<Rightarrow> u64 \<Rightarrow> payload \<Rightarrow> nat \<Rightarrow> 'w sending \<Rightarrow> 'w sending" where
  "forward_upstream_coalesced k now_ms data segment sd =
     (let total = segments (length data) segment;
          one_by_one = (\<lambda>from sd. fold (forward_upstream k now_ms) (chunks segment (drop from data)) sd)
      in if se_gso_ok (sd_session sd)
         then (case send_chunks (uk_send_up k (se_id (sd_session sd))) data segment (sd_world sd) of
                 (GsoSent, _, w') \<Rightarrow>
                   touch_session now_ms (count_sent total (of_nat (length data)) (sd\<lparr>sd_world := w'\<rparr>))
               | (GsoStopped f err, _, w') \<Rightarrow>
                   (let sent = of_nat (f div segment);
                        sd1 = count_sent sent (of_nat f) (sd\<lparr>sd_world := w'\<rparr>);
                        sd2 = (if sent > 0 then touch_session now_ms sd1 else sd1)
                    in if \<not> is_fallback_error err
                       then note_upstream_send_error k err now_ms (count_dropped (total - sent) sd2)
                       else one_by_one f
                              (sd2\<lparr>sd_session := (sd_session sd2)\<lparr>se_gso_ok := False\<rparr>,
                                   sd_gates := (sd_gates sd2)\<lparr>ga_gso_fallback :=
                                     snd (log_gate_check DROP_LOG_SPACING (uk_now k w')
                                            (ga_gso_fallback (sd_gates sd2)))\<rparr>\<rparr>)))
         else one_by_one 0 sd)"

section \<open>The engine\<close>

record offload =
  of_gro_set :: bool
  of_enabled :: bool
  of_gro_aware :: bool
  of_unsupported :: bool
  of_gso_ok :: bool

definition offload_init :: offload where
  "offload_init =
     \<lparr>of_gro_set = False, of_enabled = False, of_gro_aware = False, of_unsupported = False, of_gso_ok = True\<rparr>"

text \<open>
  Where \<open>run_udp_forwarder\<close> is: in the listener's loop, in it with the forwarder's token
  cancelled, behind \<open>close_all\<close> and waiting for the tasks, or returned.
\<close>

datatype engine_phase = LoopRuns | LoopCancelled | Closing | Returned

text \<open>
  \<open>en_free\<close> are the free permits of \<open>udp_limit\<close>; \<open>en_next_id\<close> names the next session;
  \<open>en_panicked\<close> records the sessions whose task has panicked, which nothing in the program does.
\<close>

record 'w engine =
  en_label :: rstr
  en_stats :: forwarder_stats
  en_knobs :: runtime_knobs
  en_free :: nat
  en_alerts :: alerting
  en_targets :: "socket_addr list"
  en_sessions :: "session list"
  en_next_id :: nat
  en_gates :: gates
  en_last_limit_alert :: "instant option"
  en_off :: offload
  en_phase :: engine_phase
  en_panicked :: "nat list"
  en_world :: 'w

text \<open>
  A session that neither the table nor a task refers to is dropped: the guard restores the
  gauge and the permit goes back.
\<close>

definition session_alive :: "session \<Rightarrow> bool" where
  "session_alive s \<longleftrightarrow> se_listed s \<or> se_task s"

definition reap :: "'w engine \<Rightarrow> 'w engine" where
  "reap en =
     (let n = length (filter (\<lambda>s. \<not> session_alive s) (en_sessions en))
      in en\<lparr>en_sessions := filter session_alive (en_sessions en),
            en_stats := (dec_connections ^^ n) (en_stats en),
            en_free := (release ^^ n) (en_free en)\<rparr>)"

definition unlist_where :: "(session \<Rightarrow> bool) \<Rightarrow> 'w engine \<Rightarrow> 'w engine" where
  "unlist_where P en =
     reap (en\<lparr>en_sessions := map (\<lambda>s. if se_listed s \<and> P s then s\<lparr>se_listed := False\<rparr> else s) (en_sessions en)\<rparr>)"

definition find_session :: "socket_addr \<Rightarrow> 'w engine \<Rightarrow> session option" where
  "find_session client en = find (\<lambda>s. se_listed s \<and> se_client s = client) (en_sessions en)"

definition replace_session :: "session \<Rightarrow> session list \<Rightarrow> session list" where
  "replace_session s ss = map (\<lambda>t. if se_id t = se_id s then s else t) ss"

definition sending_of :: "'w engine \<Rightarrow> batch \<Rightarrow> session \<Rightarrow> 'w sending" where
  "sending_of en ba s =
     \<lparr>sd_session = s, sd_batch = ba, sd_stats = en_stats en, sd_gates = en_gates en, sd_world = en_world en\<rparr>"

definition absorb :: "'w engine \<Rightarrow> 'w sending \<Rightarrow> 'w engine \<times> batch" where
  "absorb en sd =
     (en\<lparr>en_sessions := replace_session (sd_session sd) (en_sessions en), en_stats := sd_stats sd,
         en_gates := sd_gates sd, en_world := sd_world sd\<rparr>, sd_batch sd)"

definition drop_in_batch :: "u64 \<Rightarrow> batch \<Rightarrow> batch" where
  "drop_in_batch n ba = ba\<lparr>ba_dropped := ba_dropped ba + n\<rparr>"

definition mark_gro_unsupported :: "'w engine \<Rightarrow> 'w engine" where
  "mark_gro_unsupported en = en\<lparr>en_off := (en_off en)\<lparr>of_unsupported := True\<rparr>\<rparr>"

text \<open>Whether the new upstream socket gets \<open>UDP_GRO\<close>.\<close>

definition session_gro :: "'w udp_kernel \<Rightarrow> 'w engine \<Rightarrow> bool \<times> 'w engine" where
  "session_gro k en =
     (if of_enabled (en_off en)
      then (case uk_set_gro k (en_world en) of
              (Inr _, w') \<Rightarrow> (True, en\<lparr>en_world := w'\<rparr>)
            | (Inl e, w') \<Rightarrow>
                (False, if ioe_os e = Some ENOPROTOOPT then mark_gro_unsupported (en\<lparr>en_world := w'\<rparr>)
                        else en\<lparr>en_world := w'\<rparr>))
      else (False, en))"

text \<open>The rejection of a new session because \<open>udp_max_sessions\<close> is reached.\<close>

definition reject_session :: "'w udp_kernel \<Rightarrow> u64 \<Rightarrow> 'w engine \<Rightarrow> 'w engine" where
  "reject_session k datagrams en =
     (let stats = add_rejected datagrams (en_stats en);
          now = uk_now k (en_world en);
          en1 = en\<lparr>en_stats := stats\<rparr>
      in if (case en_last_limit_alert en of None \<Rightarrow> True | Some t \<Rightarrow> now - t \<ge> LIMIT_ALERT_SPACING)
         then en1\<lparr>en_last_limit_alert := Some (uk_now_again k (en_world en)),
                  en_alerts := notify (UdpSessionLimitReached (en_label en) (sx_rejected_connections stats))
                                 (en_alerts en)\<rparr>
         else en1)"

definition gate_no_target :: "'w udp_kernel \<Rightarrow> 'w engine \<Rightarrow> 'w engine" where
  "gate_no_target k en =
     en\<lparr>en_gates := (en_gates en)\<lparr>ga_no_target :=
          snd (log_gate_check DROP_LOG_SPACING (uk_now k (en_world en)) (ga_no_target (en_gates en)))\<rparr>\<rparr>"

definition gate_open_failed :: "'w udp_kernel \<Rightarrow> 'w engine \<Rightarrow> 'w engine" where
  "gate_open_failed k en =
     en\<lparr>en_gates := (en_gates en)\<lparr>ga_open_failed :=
          snd (log_gate_check DROP_LOG_SPACING (uk_now k (en_world en)) (ga_open_failed (en_gates en)))\<rparr>\<rparr>"

text \<open>The new session, already in the table, its guard and permit taken and its task spawned.\<close>

definition add_session :: "'w udp_kernel \<Rightarrow> socket_addr \<Rightarrow> socket_addr \<Rightarrow> u64 \<Rightarrow> bool \<Rightarrow> 'w engine \<Rightarrow> session \<times> 'w engine" where
  "add_session k client remote now_ms gro en =
     (let s = \<lparr>se_id = en_next_id en, se_client = client, se_remote = remote, se_last_activity_ms = now_ms,
               se_dead = False, se_rx_datagrams = 0, se_gro = gro, se_opened = uk_now k (en_world en),
               se_tx_datagrams = 0, se_gso_ok = True, se_listed = True, se_task = True\<rparr>
      in (s, en\<lparr>en_sessions := en_sessions en @ [s], en_next_id := en_next_id en + 1,
                en_stats := inc_connections (en_stats en)\<rparr>))"

definition open_session :: "'w udp_kernel \<Rightarrow> socket_addr \<Rightarrow> u64 \<Rightarrow> u64 \<Rightarrow> 'w engine \<times> batch
    \<Rightarrow> session option \<times> 'w engine \<times> batch" where
  "open_session k client now_ms datagrams st =
     (case st of (en, ba) \<Rightarrow>
      case en_targets en of
        [] \<Rightarrow>
          (None, gate_no_target k (en\<lparr>en_stats := mark_connect_failed (en_stats en)\<rparr>), drop_in_batch datagrams ba)
      | remote # _ \<Rightarrow>
          (case try_acquire (en_free en) of
             (False, free) \<Rightarrow>
               (None, reject_session k datagrams (en\<lparr>en_free := free\<rparr>), drop_in_batch datagrams ba)
           | (True, free) \<Rightarrow>
               (case uk_connect k (en_world en) remote (knob_socket_buffer_bytes (en_knobs en)) of
                  (Inl e, w') \<Rightarrow>
                    (None,
                     gate_open_failed k (en\<lparr>en_free := release free,
                                            en_stats := mark_connect_failed (en_stats en), en_world := w'\<rparr>),
                     drop_in_batch datagrams ba)
                | (Inr _, w') \<Rightarrow>
                    (let (gro, en1) = session_gro k (en\<lparr>en_free := free, en_world := w'\<rparr>);
                         (s, en2) = add_session k client remote now_ms gro en1
                     in (Some s, en2, ba)))))"

text \<open>
  \<open>on_client_datagram\<close> and \<open>on_client_buffer\<close> differ in how many datagrams the buffer
  holds and in the forwarding function.
\<close>

definition on_client :: "'w udp_kernel \<Rightarrow> (payload \<Rightarrow> 'w sending \<Rightarrow> 'w sending) \<Rightarrow> u64 \<Rightarrow> socket_addr \<Rightarrow> payload \<Rightarrow> u64
    \<Rightarrow> 'w engine \<times> batch \<Rightarrow> 'w engine \<times> batch" where
  "on_client k forward datagrams client data now_ms st =
     (case st of (en, ba) \<Rightarrow>
        let fresh = (\<lambda>en. case open_session k client now_ms datagrams (en, ba) of
                            (None, en', ba') \<Rightarrow> (en', ba')
                          | (Some s, en', ba') \<Rightarrow> absorb en' (forward data (sending_of en' ba' s)))
        in case find_session client en of
             Some s \<Rightarrow>
               if \<not> se_dead s then absorb en (forward data (sending_of en ba s))
               else fresh (unlist_where (\<lambda>t. se_id t = se_id s) en)
           | None \<Rightarrow> fresh en)"

definition on_client_datagram :: "'w udp_kernel \<Rightarrow> socket_addr \<Rightarrow> payload \<Rightarrow> u64 \<Rightarrow> 'w engine \<times> batch
    \<Rightarrow> 'w engine \<times> batch" where
  "on_client_datagram k client data now_ms st = on_client k (forward_upstream k now_ms) 1 client data now_ms st"

definition on_client_buffer :: "'w udp_kernel \<Rightarrow> socket_addr \<Rightarrow> payload \<Rightarrow> nat \<Rightarrow> u64 \<Rightarrow> 'w engine \<times> batch
    \<Rightarrow> 'w engine \<times> batch" where
  "on_client_buffer k client data segment now_ms st =
     (if \<not> is_coalesced (length data) segment then on_client_datagram k client data now_ms st
      else on_client k (\<lambda>data. forward_upstream_coalesced k now_ms data segment)
             (segments (length data) segment) client data now_ms st)"

section \<open>Draining the listener\<close>

datatype listener_drain = DrainIdle | DrainFull | DrainFailed

definition gate_recv_failed :: "'w udp_kernel \<Rightarrow> 'w engine \<Rightarrow> 'w engine" where
  "gate_recv_failed k en =
     en\<lparr>en_gates := (en_gates en)\<lparr>ga_recv_failed :=
          snd (log_gate_check DROP_LOG_SPACING (uk_now k (en_world en)) (ga_recv_failed (en_gates en)))\<rparr>\<rparr>"

definition gate_gro_trunc :: "'w udp_kernel \<Rightarrow> 'w engine \<Rightarrow> 'w engine" where
  "gate_gro_trunc k en =
     en\<lparr>en_gates := (en_gates en)\<lparr>ga_gro_trunc :=
          snd (log_gate_check DROP_LOG_SPACING (uk_now k (en_world en)) (ga_gro_trunc (en_gates en)))\<rparr>\<rparr>"

text \<open>The last component counts the datagrams taken from the socket, for the proofs.\<close>

fun drain_loop :: "nat \<Rightarrow> 'w udp_kernel \<Rightarrow> u64 \<Rightarrow> 'w engine \<times> batch \<Rightarrow> u64
    \<Rightarrow> listener_drain \<times> ('w engine \<times> batch) \<times> u64" where
  "drain_loop 0 k now_ms st got = (DrainFull, st, got)"
| "drain_loop (Suc n) k now_ms (en, ba) got =
     (case uk_recv_from k (en_world en) of
        (Inr (data, client), w') \<Rightarrow>
          drain_loop n k now_ms (on_client_datagram k client data now_ms (en\<lparr>en_world := w'\<rparr>, ba)) (got + 1)
      | (Inl e, w') \<Rightarrow>
          (case classify_udp_err e of
             UdpWouldBlock \<Rightarrow> (DrainIdle, (en\<lparr>en_world := w'\<rparr>, ba), got)
           | UdpTransient \<Rightarrow> drain_loop n k now_ms (en\<lparr>en_world := w'\<rparr>, ba) got
           | UdpIcmp _ \<Rightarrow> drain_loop n k now_ms (en\<lparr>en_world := w'\<rparr>, ba) got
           | UdpFatal \<Rightarrow> (DrainFailed, (gate_recv_failed k (en\<lparr>en_world := w'\<rparr>), ba), got)))"

fun drain_gro_loop :: "nat \<Rightarrow> 'w udp_kernel \<Rightarrow> u64 \<Rightarrow> 'w engine \<times> batch \<Rightarrow> u64
    \<Rightarrow> listener_drain \<times> ('w engine \<times> batch) \<times> u64" where
  "drain_gro_loop 0 k now_ms st got = (DrainFull, st, got)"
| "drain_gro_loop (Suc n) k now_ms (en, ba) got =
     (case uk_recv_gro k (en_world en) of
        (Inr r, w') \<Rightarrow>
          (let en1 = en\<lparr>en_world := w'\<rparr>; segs = segments (length (gr_data r)) (gr_segment r) in
           case gr_from r of
             None \<Rightarrow> drain_gro_loop n k now_ms (en1, ba) got
           | Some client \<Rightarrow>
               if gr_truncated r
               then drain_gro_loop n k now_ms (gate_gro_trunc k en1, drop_in_batch segs ba) (got + segs)
               else drain_gro_loop n k now_ms
                      (on_client_buffer k client (gr_data r) (gr_segment r) now_ms (en1, ba))
                      (got + segs))
      | (Inl e, w') \<Rightarrow>
          (case classify_udp_err e of
             UdpWouldBlock \<Rightarrow> (DrainIdle, (en\<lparr>en_world := w'\<rparr>, ba), got)
           | UdpTransient \<Rightarrow> drain_gro_loop n k now_ms (en\<lparr>en_world := w'\<rparr>, ba) got
           | UdpIcmp _ \<Rightarrow> drain_gro_loop n k now_ms (en\<lparr>en_world := w'\<rparr>, ba) got
           | UdpFatal \<Rightarrow> (DrainFailed, (gate_recv_failed k (en\<lparr>en_world := w'\<rparr>), ba), got)))"

definition flush_sent :: "batch \<Rightarrow> forwarder_stats \<Rightarrow> forwarder_stats" where
  "flush_sent ba s =
     (let s1 = (if ba_datagrams ba > 0
                then add_datagrams_sent (ba_datagrams ba) (add_sent (ba_bytes ba) s) else s)
      in if ba_dropped ba > 0 then add_datagrams_dropped (ba_dropped ba) s1 else s1)"

definition drain_listener :: "'w udp_kernel \<Rightarrow> 'w engine \<Rightarrow> listener_drain \<times> 'w engine \<times> u64" where
  "drain_listener k en =
     (let now_ms = elapsed_ms (uk_now k (en_world en)) (en_stats en) in
      case drain_loop LISTENER_BATCH k now_ms (en, batch_default) 0 of
        (r, (en', ba), got) \<Rightarrow> (r, en'\<lparr>en_stats := flush_sent ba (en_stats en')\<rparr>, got))"

definition drain_listener_gro :: "'w udp_kernel \<Rightarrow> 'w engine \<Rightarrow> listener_drain \<times> 'w engine \<times> u64" where
  "drain_listener_gro k en =
     (let now_ms = elapsed_ms (uk_now k (en_world en)) (en_stats en) in
      case drain_gro_loop LISTENER_BATCH k now_ms (en, batch_default) 0 of
        (r, (en', ba), got) \<Rightarrow> (r, en'\<lparr>en_stats := flush_sent ba (en_stats en')\<rparr>, got))"

section \<open>Upkeep of the table\<close>

definition session_expired :: "u64 \<Rightarrow> u64 \<Rightarrow> session \<Rightarrow> bool" where
  "session_expired now_ms timeout_ms s \<longleftrightarrow>
     se_dead s \<or> sat_sub now_ms (se_last_activity_ms s) \<ge> timeout_ms"

definition sweep_timeout_ms :: "runtime_knobs \<Rightarrow> u64" where
  "sweep_timeout_ms knobs =
     (let ms = as_millis (knob_udp_session_timeout knobs) in if ms < 2 ^ 64 then of_nat ms else u64_max)"

definition sweep :: "'w udp_kernel \<Rightarrow> 'w engine \<Rightarrow> 'w engine" where
  "sweep k en =
     (if filter se_listed (en_sessions en) = [] then en
      else unlist_where
             (session_expired (elapsed_ms (uk_now k (en_world en)) (en_stats en)) (sweep_timeout_ms (en_knobs en)))
             en)"

definition on_targets_changed :: "'w engine \<Rightarrow> 'w engine" where
  "on_targets_changed en = unlist_where (\<lambda>s. se_remote s \<notin> set (en_targets en)) en"

definition close_all :: "'w engine \<Rightarrow> 'w engine" where
  "close_all en = unlist_where (\<lambda>s. True) en"

definition apply_gro_knob :: "'w udp_kernel \<Rightarrow> 'w engine \<Rightarrow> 'w engine" where
  "apply_gro_knob k en =
     (let off = en_off en;
          want = (kn_udp_gro_gso (en_knobs en) \<and> \<not> of_unsupported off)
      in if want = of_enabled off then en
         else if \<not> want then en\<lparr>en_off := off\<lparr>of_enabled := False\<rparr>\<rparr>
         else if of_gro_set off then en\<lparr>en_off := off\<lparr>of_enabled := True\<rparr>\<rparr>
         else (let off1 = off\<lparr>of_gro_aware := True\<rparr> in
               case uk_set_gro k (en_world en) of
                 (Inr _, w') \<Rightarrow>
                   en\<lparr>en_off := off1\<lparr>of_gro_set := True, of_enabled := True\<rparr>, en_world := w'\<rparr>
               | (Inl e, w') \<Rightarrow>
                   en\<lparr>en_off := off1\<lparr>of_unsupported := True\<rparr>, en_world := w'\<rparr>))"

section \<open>Target to client\<close>

datatype session_drain = SdIdle | SdFull | SdBlocked payload nat | SdDead

text \<open>What a reply task works on: its session, its batch, the shared statistics and the
  listener's GSO flag.\<close>

record 'w replying =
  rp_session :: session
  rp_batch :: batch
  rp_stats :: forwarder_stats
  rp_gso_ok :: bool
  rp_world :: 'w

definition count_reply :: "u64 \<Rightarrow> u64 \<Rightarrow> 'w replying \<Rightarrow> 'w replying" where
  "count_reply datagrams bytes rp =
     rp\<lparr>rp_batch := (rp_batch rp)\<lparr>ba_datagrams := ba_datagrams (rp_batch rp) + datagrams,
                                  ba_bytes := ba_bytes (rp_batch rp) + bytes\<rparr>\<rparr>"

definition count_reply_dropped :: "u64 \<Rightarrow> 'w replying \<Rightarrow> 'w replying" where
  "count_reply_dropped n rp = rp\<lparr>rp_batch := drop_in_batch n (rp_batch rp)\<rparr>"

definition io_would_block :: "io_error \<Rightarrow> bool" where
  "io_would_block e \<longleftrightarrow> ioe_kind e = WouldBlock"

text \<open>A receive tries the readable flag, then the error flag.\<close>

definition recv_upstream :: "(bool \<Rightarrow> 'w \<Rightarrow> (io_error + 'a) \<times> 'w) \<Rightarrow> 'w \<Rightarrow> (io_error + 'a) \<times> 'w" where
  "recv_upstream recv w =
     (case recv True w of
        (Inl e, w') \<Rightarrow> if io_would_block e then recv False w' else (Inl e, w')
      | (Inr a, w') \<Rightarrow> (Inr a, w'))"

text \<open>One reply datagram; \<open>Some\<close> means that the listener's send buffer is full.\<close>

definition reply_one :: "'w udp_kernel \<Rightarrow> payload \<Rightarrow> 'w replying \<Rightarrow> bool \<times> 'w replying" where
  "reply_one k data rp =
     (case uk_reply k (se_client (rp_session rp)) (rp_world rp) data 0 of
        (Inr _, w') \<Rightarrow> (False, count_reply 1 (of_nat (length data)) (rp\<lparr>rp_world := w'\<rparr>))
      | (Inl e, w') \<Rightarrow>
          if io_would_block e then (True, rp\<lparr>rp_world := w'\<rparr>)
          else (False, count_reply_dropped 1 (rp\<lparr>rp_world := w'\<rparr>)))"

text \<open>The pieces of a burst one by one; a full buffer leaves that piece and what follows.\<close>

fun reply_pieces :: "'w udp_kernel \<Rightarrow> payload list \<Rightarrow> 'w replying \<Rightarrow> payload list \<times> 'w replying" where
  "reply_pieces k [] rp = ([], rp)"
| "reply_pieces k (piece # pieces) rp =
     (case reply_one k piece rp of
        (True, rp') \<Rightarrow> (piece # pieces, rp')
      | (False, rp') \<Rightarrow> reply_pieces k pieces rp')"

definition reply_coalesced :: "'w udp_kernel \<Rightarrow> payload \<Rightarrow> nat \<Rightarrow> 'w replying
    \<Rightarrow> (payload \<times> nat) option \<times> 'w replying" where
  "reply_coalesced k data segment rp =
     (let one_by_one = (\<lambda>from rp. case reply_pieces k (chunks segment (drop from data)) rp of
                          ([], rp') \<Rightarrow> (None, rp')
                        | (rest, rp') \<Rightarrow> (Some (concat rest, segment), rp'))
      in if rp_gso_ok rp
         then (case send_chunks (uk_reply k (se_client (rp_session rp))) data segment (rp_world rp) of
                 (GsoSent, _, w') \<Rightarrow>
                   (None, count_reply (segments (length data) segment) (of_nat (length data)) (rp\<lparr>rp_world := w'\<rparr>))
               | (GsoStopped f err, _, w') \<Rightarrow>
                   (let rp1 = count_reply (of_nat (f div segment)) (of_nat f) (rp\<lparr>rp_world := w'\<rparr>)
                    in if io_would_block err then (Some (drop f data, segment), rp1)
                       else if \<not> is_fallback_error err
                       then (None, count_reply_dropped (segments (length data - f) segment) rp1)
                       else one_by_one f (rp1\<lparr>rp_gso_ok := False\<rparr>)))
         else one_by_one 0 rp)"

text \<open>
  The loops return the outcome, whether any reply was received, and how many reply datagrams
  were taken from the upstream socket.
\<close>

fun drain_up_loop :: "nat \<Rightarrow> 'w udp_kernel \<Rightarrow> u64 \<Rightarrow> 'w replying \<Rightarrow> bool \<Rightarrow> u64
    \<Rightarrow> session_drain \<times> 'w replying \<times> bool \<times> u64" where
  "drain_up_loop 0 k now_ms rp replied got = (SdFull, rp, replied, got)"
| "drain_up_loop (Suc n) k now_ms rp replied got =
     (case recv_upstream (uk_recv_up k (se_id (rp_session rp))) (rp_world rp) of
        (Inr data, w') \<Rightarrow>
          (case reply_one k data (rp\<lparr>rp_world := w'\<rparr>) of
             (True, rp') \<Rightarrow> (SdBlocked data 0, rp', True, got + 1)
           | (False, rp') \<Rightarrow> drain_up_loop n k now_ms rp' True (got + 1))
      | (Inl e, w') \<Rightarrow>
          (let rp1 = rp\<lparr>rp_world := w'\<rparr> in
           case classify_udp_err e of
             UdpWouldBlock \<Rightarrow> (SdIdle, rp1, replied, got)
           | UdpTransient \<Rightarrow> drain_up_loop n k now_ms rp1 replied got
           | UdpIcmp kind \<Rightarrow>
               drain_up_loop n k now_ms (rp1\<lparr>rp_stats := mark_udp_icmp_error now_ms kind (rp_stats rp1)\<rparr>) replied got
           | UdpFatal \<Rightarrow> (SdDead, rp1\<lparr>rp_session := (rp_session rp1)\<lparr>se_dead := True\<rparr>\<rparr>, replied, got)))"

fun drain_up_gro_loop :: "nat \<Rightarrow> 'w udp_kernel \<Rightarrow> u64 \<Rightarrow> 'w replying \<Rightarrow> bool \<Rightarrow> u64
    \<Rightarrow> session_drain \<times> 'w replying \<times> bool \<times> u64" where
  "drain_up_gro_loop 0 k now_ms rp replied got = (SdFull, rp, replied, got)"
| "drain_up_gro_loop (Suc n) k now_ms rp replied got =
     (case recv_upstream (uk_recv_up_gro k (se_id (rp_session rp))) (rp_world rp) of
        (Inr r, w') \<Rightarrow>
          (let rp1 = rp\<lparr>rp_world := w'\<rparr>;
               data = gr_data r;
               segs = segments (length data) (gr_segment r)
           in if gr_truncated r
              then drain_up_gro_loop n k now_ms (count_reply_dropped segs rp1) True (got + segs)
              else if \<not> is_coalesced (length data) (gr_segment r)
              then (case reply_one k data rp1 of
                      (True, rp') \<Rightarrow> (SdBlocked data 0, rp', True, got + segs)
                    | (False, rp') \<Rightarrow> drain_up_gro_loop n k now_ms rp' True (got + segs))
              else (case reply_coalesced k data (gr_segment r) rp1 of
                      (Some (rest, seg), rp') \<Rightarrow> (SdBlocked rest seg, rp', True, got + segs)
                    | (None, rp') \<Rightarrow> drain_up_gro_loop n k now_ms rp' True (got + segs)))
      | (Inl e, w') \<Rightarrow>
          (let rp1 = rp\<lparr>rp_world := w'\<rparr> in
           case classify_udp_err e of
             UdpWouldBlock \<Rightarrow> (SdIdle, rp1, replied, got)
           | UdpTransient \<Rightarrow> drain_up_gro_loop n k now_ms rp1 replied got
           | UdpIcmp kind \<Rightarrow>
               drain_up_gro_loop n k now_ms (rp1\<lparr>rp_stats := mark_udp_icmp_error now_ms kind (rp_stats rp1)\<rparr>) replied got
           | UdpFatal \<Rightarrow> (SdDead, rp1\<lparr>rp_session := (rp_session rp1)\<lparr>se_dead := True\<rparr>\<rparr>, replied, got)))"

text \<open>The end of either drain: the evidence and the batch are written back.\<close>

definition flush_replies :: "u64 \<Rightarrow> bool \<Rightarrow> 'w replying \<Rightarrow> 'w replying" where
  "flush_replies now_ms replied rp =
     (let ba = rp_batch rp;
          rp1 = (if replied
                 then rp\<lparr>rp_session := touch now_ms (rp_session rp), rp_stats := mark_connect_ok_at now_ms (rp_stats rp)\<rparr>
                 else rp);
          rp2 = (if ba_datagrams ba > 0
                 then rp1\<lparr>rp_session := (rp_session rp1)\<lparr>se_rx_datagrams := se_rx_datagrams (rp_session rp1) + ba_datagrams ba\<rparr>,
                          rp_stats := add_datagrams_received (ba_datagrams ba) (add_received (ba_bytes ba) (rp_stats rp1))\<rparr>
                 else rp1)
      in if ba_dropped ba > 0 then rp2\<lparr>rp_stats := add_datagrams_dropped (ba_dropped ba) (rp_stats rp2)\<rparr> else rp2)"

definition replying_of :: "'w engine \<Rightarrow> session \<Rightarrow> 'w replying" where
  "replying_of en s =
     \<lparr>rp_session = s, rp_batch = batch_default, rp_stats = en_stats en, rp_gso_ok = of_gso_ok (en_off en),
      rp_world = en_world en\<rparr>"

definition drain_upstream :: "'w udp_kernel \<Rightarrow> 'w engine \<Rightarrow> session \<Rightarrow> session_drain \<times> 'w replying \<times> u64" where
  "drain_upstream k en s =
     (let now_ms = elapsed_ms (uk_now k (en_world en)) (en_stats en) in
      case (if se_gro s then drain_up_gro_loop SESSION_BATCH k now_ms (replying_of en s) False 0
            else drain_up_loop SESSION_BATCH k now_ms (replying_of en s) False 0) of
        (r, rp, replied, got) \<Rightarrow> (r, flush_replies now_ms replied rp, got))"

text \<open>
  The awaited sends of a blocked reply, up to a cancellation: \<open>sends\<close> pieces complete before
  the task is cancelled, if it is.
\<close>

definition blocked_pieces :: "payload \<Rightarrow> nat \<Rightarrow> payload list" where
  "blocked_pieces data segment =
     (if segment > 0 \<and> segment < length data then chunks segment data else [data])"

definition send_blocked_piece :: "'w udp_kernel \<Rightarrow> payload \<Rightarrow> 'w replying \<Rightarrow> 'w replying" where
  "send_blocked_piece k piece rp =
     (case uk_reply k (se_client (rp_session rp)) (rp_world rp) piece 0 of
        (Inr _, w') \<Rightarrow>
          rp\<lparr>rp_world := w',
             rp_session := (rp_session rp)\<lparr>se_rx_datagrams := se_rx_datagrams (rp_session rp) + 1\<rparr>,
             rp_stats := add_datagrams_received 1 (add_received (of_nat (length piece)) (rp_stats rp))\<rparr>
      | (Inl e, w') \<Rightarrow> rp\<lparr>rp_world := w', rp_stats := add_datagrams_dropped 1 (rp_stats rp)\<rparr>)"

definition absorb_reply :: "'w engine \<Rightarrow> 'w replying \<Rightarrow> 'w engine" where
  "absorb_reply en rp =
     en\<lparr>en_sessions := replace_session (rp_session rp) (en_sessions en), en_stats := rp_stats rp,
        en_off := (en_off en)\<lparr>of_gso_ok := rp_gso_ok rp\<rparr>, en_world := rp_world rp\<rparr>"

definition end_task :: "session \<Rightarrow> 'w engine \<Rightarrow> 'w engine" where
  "end_task s en =
     reap (en\<lparr>en_sessions := map (\<lambda>t. if se_id t = se_id s then t\<lparr>se_task := False\<rparr> else t) (en_sessions en)\<rparr>)"

text \<open>
  One turn of \<open>run_session\<close> once its socket is ready (or readiness failed). \<open>sends\<close> bounds
  the pieces of a blocked reply that go out before a cancellation; \<open>None\<close> is no cancellation.
\<close>

definition session_turn :: "'w udp_kernel \<Rightarrow> bool \<Rightarrow> nat option \<Rightarrow> session \<Rightarrow> 'w engine \<Rightarrow> 'w engine" where
  "session_turn k ready_ok sends s en =
     (if \<not> ready_ok
      then end_task s (en\<lparr>en_sessions := replace_session (s\<lparr>se_dead := True\<rparr>) (en_sessions en)\<rparr>)
      else case drain_upstream k en s of
             (SdIdle, rp, _) \<Rightarrow> absorb_reply en rp
           | (SdFull, rp, _) \<Rightarrow> absorb_reply en rp
           | (SdDead, rp, _) \<Rightarrow> end_task s (absorb_reply en rp)
           | (SdBlocked data segment, rp, _) \<Rightarrow>
               (let pieces = blocked_pieces data segment in
                case sends of
                  None \<Rightarrow> absorb_reply en (fold (send_blocked_piece k) pieces rp)
                | Some n \<Rightarrow>
                    end_task s (absorb_reply en (fold (send_blocked_piece k) (take n pieces) rp))))"

section \<open>The DNS refresher\<close>

text \<open>
  One answer of the resolver. A changed set of addresses is published in the watch channel,
  where \<open>open_session\<close> reads it at once; \<open>on_targets_changed\<close> runs when the listener's loop
  sees the change (the flag that is returned).
\<close>

definition dns_refresh :: "forwarder_config \<Rightarrow> (rstr \<Rightarrow> lookup) \<Rightarrow> instant \<Rightarrow> log_gate \<times> 'w engine
    \<Rightarrow> bool \<times> log_gate \<times> 'w engine" where
  "dns_refresh cfg resolver now st =
     (case st of (fail_gate, en) \<Rightarrow>
      case resolve_targets (fc_remote_host cfg) (fc_remote_port cfg) None resolver of
        Inr addrs \<Rightarrow>
          (let ips = map sa_ip addrs;
               (old, stats) = observe_addrs ips (en_stats en);
               al = (case old of
                       Some old \<Rightarrow> notify (DnsChanged (en_label en) (fc_remote_host cfg) old (sort_dedup ips)) (en_alerts en)
                     | None \<Rightarrow> en_alerts en);
               same = same_addr_set (en_targets en) addrs
           in (\<not> same, fail_gate,
               en\<lparr>en_stats := stats, en_alerts := al, en_targets := (if same then en_targets en else addrs)\<rparr>))
      | Inl e \<Rightarrow>
          (False, snd (log_gate_check DNS_FAIL_LOG_SPACING now fail_gate),
           en\<lparr>en_stats := mark_connect_failed (en_stats en)\<rparr>))"

end
