(* ===== verification/Udp_Accounting.thy ===== *)
theory Udp_Accounting
  imports Udp_Engine
begin

text \<open>
  No datagram goes missing in the UDP engine: what is taken from a socket is counted, exactly
  once, as forwarded or as dropped, in both directions, with and without segmentation
  offload. The counters are 64-bit words, so the equations hold for counters that wrap.
\<close>

definition batch_total :: "batch \<Rightarrow> u64" where
  "batch_total ba = ba_datagrams ba + ba_dropped ba"

definition datagram_fields :: "forwarder_stats \<Rightarrow> u64 \<times> u64 \<times> u64" where
  "datagram_fields s = (sx_datagrams_sent s, sx_datagrams_received s, sx_datagrams_dropped s)"

lemma datagram_fields_simps [simp]:
  "datagram_fields (mark_connect_failed s) = datagram_fields s"
  "datagram_fields (mark_udp_icmp_error t kind s) = datagram_fields s"
  "datagram_fields (mark_connect_ok_at t s) = datagram_fields s"
  "datagram_fields (add_rejected n s) = datagram_fields s"
  "datagram_fields (inc_connections s) = datagram_fields s"
  "datagram_fields (dec_connections s) = datagram_fields s"
  by (simp_all add: datagram_fields_def mark_connect_failed_def mark_udp_icmp_error_def
      mark_connect_ok_at_def add_rejected_def inc_connections_def dec_connections_def Let_def)

lemma datagram_fields_dec_pow [simp]: "datagram_fields ((dec_connections ^^ n) s) = datagram_fields s"
  by (induction n) simp_all

section \<open>Client to target\<close>

lemma note_error_frame [simp]:
  "sd_batch (note_upstream_send_error k e t sd) = sd_batch sd"
  "sd_session (note_upstream_send_error k e t sd) = sd_session sd"
  "datagram_fields (sd_stats (note_upstream_send_error k e t sd)) = datagram_fields (sd_stats sd)"
  by (simp_all add: note_upstream_send_error_def split: udp_err.split)

lemma count_frame [simp]:
  "batch_total (sd_batch (count_sent n b sd)) = batch_total (sd_batch sd) + n"
  "batch_total (sd_batch (count_dropped n sd)) = batch_total (sd_batch sd) + n"
  "sd_stats (count_sent n b sd) = sd_stats sd" "sd_stats (count_dropped n sd) = sd_stats sd"
  "sd_batch (touch_session t sd) = sd_batch sd" "sd_stats (touch_session t sd) = sd_stats sd"
  by (simp_all add: batch_total_def count_sent_def count_dropped_def touch_session_def)

lemma forward_upstream_accounts:
  "batch_total (sd_batch (forward_upstream k t data sd)) = batch_total (sd_batch sd) + 1"
  "datagram_fields (sd_stats (forward_upstream k t data sd)) = datagram_fields (sd_stats sd)"
  by (simp_all add: forward_upstream_def split: prod.split sum.split)

lemma forward_pieces_account:
  "batch_total (sd_batch (fold (forward_upstream k t) pieces sd)) = batch_total (sd_batch sd) + of_nat (length pieces)"
  "datagram_fields (sd_stats (fold (forward_upstream k t) pieces sd)) = datagram_fields (sd_stats sd)"
  by (induction pieces arbitrary: sd) (simp_all add: forward_upstream_accounts)

lemma forward_coalesced_accounts:
  assumes "is_coalesced (length data) segment"
  shows "batch_total (sd_batch (forward_upstream_coalesced k t data segment sd))
      = batch_total (sd_batch sd) + segments (length data) segment"
    and "datagram_fields (sd_stats (forward_upstream_coalesced k t data segment sd)) = datagram_fields (sd_stats sd)"
proof -
  have pos: "0 < segment" and ne: "data \<noteq> []" using assms by (auto simp: is_coalesced_def)
  obtain r sent w' where s: "send_chunks (uk_send_up k (se_id (sd_session sd))) data segment (sd_world sd) = (r, sent, w')"
    by (metis prod.exhaust_sel)
  note stop = send_chunks_stop [OF assms s]
  have split: "segments (length data) segment = of_nat (f div segment) + of_nat (length (chunks segment (drop f data)))"
    if "r = GsoStopped f e" for f e
    using stop that segments_split(1) [OF pos, of f data] by simp
  show "batch_total (sd_batch (forward_upstream_coalesced k t data segment sd))
      = batch_total (sd_batch sd) + segments (length data) segment"
    using segments_chunks [OF pos ne] split
    by (cases r) (simp_all add: forward_upstream_coalesced_def s Let_def forward_pieces_account)
  show "datagram_fields (sd_stats (forward_upstream_coalesced k t data segment sd)) = datagram_fields (sd_stats sd)"
    by (cases r) (simp_all add: forward_upstream_coalesced_def s Let_def forward_pieces_account)
qed

text \<open>Frames of the operations on the table.\<close>

lemma reap_fields [simp]: "datagram_fields (en_stats (reap en)) = datagram_fields (en_stats en)"
  by (simp add: reap_def Let_def)

lemma unlist_fields [simp]: "datagram_fields (en_stats (unlist_where P en)) = datagram_fields (en_stats en)"
  by (simp add: unlist_where_def)

lemma absorb_fields:
  "snd (absorb en sd) = sd_batch sd" "en_stats (fst (absorb en sd)) = sd_stats sd"
  by (simp_all add: absorb_def)

lemma sending_of_fields [simp]: "sd_batch (sending_of en ba s) = ba" "sd_stats (sending_of en ba s) = en_stats en"
  by (simp_all add: sending_of_def)

lemma gate_fields [simp]:
  "en_stats (gate_no_target k en) = en_stats en" "en_stats (gate_open_failed k en) = en_stats en"
  "en_stats (gate_recv_failed k en) = en_stats en" "en_stats (gate_gro_trunc k en) = en_stats en"
  by (simp_all add: gate_no_target_def gate_open_failed_def gate_recv_failed_def gate_gro_trunc_def)

lemma session_gro_stats [simp]: "en_stats (snd (session_gro k en)) = en_stats en"
  by (simp add: session_gro_def mark_gro_unsupported_def split: prod.split sum.split)

lemma drop_in_batch_total [simp]: "batch_total (drop_in_batch n ba) = batch_total ba + n"
  by (simp add: batch_total_def drop_in_batch_def)

lemma reject_fields [simp]: "datagram_fields (en_stats (reject_session k n en)) = datagram_fields (en_stats en)"
  by (simp add: reject_session_def Let_def)

lemma add_session_fields: "datagram_fields (en_stats (snd (add_session k c r t g en))) = datagram_fields (en_stats en)"
  by (simp add: add_session_def Let_def)

text \<open>Opening a session either fails, and the whole buffer is counted as dropped, or leaves
  the batch alone.\<close>

lemma open_session_accounts:
  "batch_total (snd (snd (open_session k client t n (en, ba))))
     = batch_total ba + (if fst (open_session k client t n (en, ba)) = None then n else 0)
   \<and> datagram_fields (en_stats (fst (snd (open_session k client t n (en, ba))))) = datagram_fields (en_stats en)"
proof (cases "en_targets en")
  case Nil
  then show ?thesis by (simp add: open_session_def)
next
  case (Cons remote rest)
  obtain ok free where acq: "try_acquire (en_free en) = (ok, free)" by fastforce
  obtain conn w' where conn: "uk_connect k (en_world en) remote (knob_socket_buffer_bytes (en_knobs en)) = (conn, w')"
    by fastforce
  obtain g en1 where gro: "session_gro k (en\<lparr>en_free := free, en_world := w'\<rparr>) = (g, en1)" by fastforce
  obtain s en2 where add: "add_session k client remote t g en1 = (s, en2)" by fastforce
  have "datagram_fields (en_stats en2) = datagram_fields (en_stats en)"
    using add_session_fields [of k client remote t g en1] session_gro_stats [of k "en\<lparr>en_free := free, en_world := w'\<rparr>"]
    by (simp add: add gro)
  then show ?thesis
    by (cases ok; cases conn) (simp_all add: open_session_def Cons acq conn gro add)
qed

lemma fresh_session_accounts:
  assumes "\<And>sd. batch_total (sd_batch (forward data sd)) = batch_total (sd_batch sd) + n"
    and "\<And>sd. datagram_fields (sd_stats (forward data sd)) = datagram_fields (sd_stats sd)"
  shows "(case open_session k client t n (en, ba) of
      (None, en', ba') \<Rightarrow> (en', ba')
    | (Some s, en', ba') \<Rightarrow> absorb en' (forward data (sending_of en' ba' s))) = (en2, ba2)
    \<Longrightarrow> batch_total ba2 = batch_total ba + n \<and> datagram_fields (en_stats en2) = datagram_fields (en_stats en)"
proof -
  obtain so en1 ba1 where op: "open_session k client t n (en, ba) = (so, en1, ba1)" by (metis prod.exhaust)
  have acc: "batch_total ba1 = batch_total ba + (if so = None then n else 0)"
      "datagram_fields (en_stats en1) = datagram_fields (en_stats en)"
    using open_session_accounts [of k client t n en ba] by (simp_all add: op)
  assume res: "(case open_session k client t n (en, ba) of
      (None, en', ba') \<Rightarrow> (en', ba')
    | (Some s, en', ba') \<Rightarrow> absorb en' (forward data (sending_of en' ba' s))) = (en2, ba2)"
  show ?thesis
  proof (cases so)
    case None
    with res acc show ?thesis by (simp add: op)
  next
    case (Some s)
    with res have "absorb en1 (forward data (sending_of en1 ba1 s)) = (en2, ba2)" by (simp add: op)
    then show ?thesis
      using absorb_fields [of en1 "forward data (sending_of en1 ba1 s)"] assms [of "sending_of en1 ba1 s"] acc Some
      by simp
  qed
qed

lemma on_client_accounts:
  assumes fwd: "\<And>sd. batch_total (sd_batch (forward data sd)) = batch_total (sd_batch sd) + n"
      "\<And>sd. datagram_fields (sd_stats (forward data sd)) = datagram_fields (sd_stats sd)"
    and on: "on_client k forward n client data t (en, ba) = (en', ba')"
  shows "batch_total ba' = batch_total ba + n \<and> datagram_fields (en_stats en') = datagram_fields (en_stats en)"
proof (cases "find_session client en")
  case None
  with on show ?thesis
    by (intro fresh_session_accounts [where forward = forward and data = data and k = k and client = client and t = t])
      (simp_all add: fwd on_client_def Let_def)
next
  case (Some s)
  show ?thesis
  proof (cases "se_dead s")
    case True
    have "batch_total ba' = batch_total ba + n
        \<and> datagram_fields (en_stats en') = datagram_fields (en_stats (unlist_where (\<lambda>t. se_id t = se_id s) en))"
      using Some True on
      by (intro fresh_session_accounts [where forward = forward and data = data and k = k and client = client and t = t])
        (simp_all add: fwd on_client_def Let_def)
    then show ?thesis by simp
  next
    case False
    with Some on have "absorb en (forward data (sending_of en ba s)) = (en', ba')"
      by (simp add: on_client_def Let_def)
    then show ?thesis
      using fwd [of "sending_of en ba s"] absorb_fields [of en "forward data (sending_of en ba s)"] by simp
  qed
qed

lemma on_client_datagram_accounts:
  "on_client_datagram k client data t (en, ba) = (en', ba')
   \<Longrightarrow> batch_total ba' = batch_total ba + 1 \<and> datagram_fields (en_stats en') = datagram_fields (en_stats en)"
  unfolding on_client_datagram_def
  by (rule on_client_accounts) (auto simp: forward_upstream_accounts)

lemma on_client_buffer_accounts:
  assumes "on_client_buffer k client data segment t (en, ba) = (en', ba')"
  shows "batch_total ba' = batch_total ba + segments (length data) segment
     \<and> datagram_fields (en_stats en') = datagram_fields (en_stats en)"
proof (cases "is_coalesced (length data) segment")
  case True
  with assms have "on_client k (\<lambda>data. forward_upstream_coalesced k t data segment)
      (segments (length data) segment) client data t (en, ba) = (en', ba')"
    by (simp add: on_client_buffer_def)
  then show ?thesis by (rule on_client_accounts [rotated 2]) (simp_all add: forward_coalesced_accounts True)
next
  case False
  with assms show ?thesis
    using on_client_datagram_accounts [of k client data t en ba] by (simp add: on_client_buffer_def segments_def)
qed

section \<open>Draining the listener\<close>

lemma drain_loop_accounts:
  "drain_loop n k t (en, ba) got = (r, (en', ba'), got')
   \<Longrightarrow> batch_total ba' - got' = batch_total ba - got \<and> datagram_fields (en_stats en') = datagram_fields (en_stats en)"
proof (induction n arbitrary: en ba got)
  case (Suc n)
  obtain ans w' where recv: "uk_recv_from k (en_world en) = (ans, w')" by fastforce
  show ?case
  proof (cases ans)
    case (Inr dc)
    obtain data client where dc: "dc = (data, client)" by fastforce
    obtain en1 ba1 where on: "on_client_datagram k client data t (en\<lparr>en_world := w'\<rparr>, ba) = (en1, ba1)" by fastforce
    have "drain_loop n k t (en1, ba1) (got + 1) = (r, (en', ba'), got')"
      using Suc.prems by (simp add: recv Inr dc on)
    from Suc.IH [OF this] on_client_datagram_accounts [OF on] show ?thesis by simp
  next
    case (Inl e)
    then show ?thesis
      using Suc.prems Suc.IH [of "en\<lparr>en_world := w'\<rparr>" ba got]
      by (cases "classify_udp_err e") (auto simp: recv)
  qed
qed simp

lemma drain_gro_loop_accounts:
  "drain_gro_loop n k t (en, ba) got = (r, (en', ba'), got')
   \<Longrightarrow> batch_total ba' - got' = batch_total ba - got \<and> datagram_fields (en_stats en') = datagram_fields (en_stats en)"
proof (induction n arbitrary: en ba got)
  case (Suc n)
  obtain ans w' where recv: "uk_recv_gro k (en_world en) = (ans, w')" by fastforce
  let ?en = "en\<lparr>en_world := w'\<rparr>"
  show ?case
  proof (cases ans)
    case (Inr m)
    let ?segs = "segments (length (gr_data m)) (gr_segment m)"
    show ?thesis
    proof (cases "gr_from m")
      case None
      then have "drain_gro_loop n k t (?en, ba) got = (r, (en', ba'), got')"
        using Suc.prems by (simp add: recv Inr)
      from Suc.IH [OF this] show ?thesis by simp
    next
      case (Some client)
      show ?thesis
      proof (cases "gr_truncated m")
        case True
        have "drain_gro_loop n k t (gate_gro_trunc k ?en, drop_in_batch ?segs ba) (got + ?segs) = (r, (en', ba'), got')"
          using Suc.prems Some True by (simp add: recv Inr Let_def)
        from Suc.IH [OF this] show ?thesis by simp
      next
        case False
        obtain en1 ba1 where on: "on_client_buffer k client (gr_data m) (gr_segment m) t (?en, ba) = (en1, ba1)"
          by fastforce
        have "drain_gro_loop n k t (en1, ba1) (got + ?segs) = (r, (en', ba'), got')"
          using Suc.prems Some False by (simp add: recv Inr on)
        from Suc.IH [OF this] on_client_buffer_accounts [OF on] show ?thesis by simp
      qed
    qed
  next
    case (Inl e)
    then show ?thesis
      using Suc.prems Suc.IH [of ?en ba got]
      by (cases "classify_udp_err e") (auto simp: recv)
  qed
qed simp

lemma batch_total_default [simp]: "batch_total batch_default = 0"
  by (simp add: batch_total_def batch_default_def)

lemma flush_sent_fields:
  "sx_datagrams_sent (flush_sent ba s) + sx_datagrams_dropped (flush_sent ba s)
     = sx_datagrams_sent s + sx_datagrams_dropped s + batch_total ba"
  by (cases "ba_datagrams ba = 0"; cases "ba_dropped ba = 0")
    (simp_all add: flush_sent_def add_datagrams_sent_def add_sent_def add_datagrams_dropped_def
      batch_total_def word_neq_0_conv)

text \<open>
  C2. Every datagram the listener takes from a client is counted exactly once, as sent to the
  target or as dropped, whatever happens to it: no session, a full table, a socket that will
  not open, a dead session, a full buffer, an ICMP error, a burst that is truncated or only
  partly sent. The last component of the result is the number of datagrams taken, a burst
  counting as its segments; both receive paths satisfy the same equation.\<close>
theorem client_datagrams_accounted:
  "(case drain_listener k en of (r, en', got) \<Rightarrow>
      sx_datagrams_sent (en_stats en') + sx_datagrams_dropped (en_stats en')
        = sx_datagrams_sent (en_stats en) + sx_datagrams_dropped (en_stats en) + got)
   \<and> (case drain_listener_gro k en of (r, en', got) \<Rightarrow>
      sx_datagrams_sent (en_stats en') + sx_datagrams_dropped (en_stats en')
        = sx_datagrams_sent (en_stats en) + sx_datagrams_dropped (en_stats en) + got)"
proof
  let ?t = "elapsed_ms (uk_now k (en_world en)) (en_stats en)"
  obtain r en1 ba got where d: "drain_loop LISTENER_BATCH k ?t (en, batch_default) 0 = (r, (en1, ba), got)"
    by (metis prod.exhaust)
  have "batch_total ba = got" "datagram_fields (en_stats en1) = datagram_fields (en_stats en)"
    using drain_loop_accounts [OF d] by simp_all
  then show "case drain_listener k en of (r, en', got) \<Rightarrow>
      sx_datagrams_sent (en_stats en') + sx_datagrams_dropped (en_stats en')
        = sx_datagrams_sent (en_stats en) + sx_datagrams_dropped (en_stats en) + got"
    by (simp add: drain_listener_def Let_def d flush_sent_fields datagram_fields_def)
next
  let ?t = "elapsed_ms (uk_now k (en_world en)) (en_stats en)"
  obtain r en1 ba got where d: "drain_gro_loop LISTENER_BATCH k ?t (en, batch_default) 0 = (r, (en1, ba), got)"
    by (metis prod.exhaust)
  have "batch_total ba = got" "datagram_fields (en_stats en1) = datagram_fields (en_stats en)"
    using drain_gro_loop_accounts [OF d] by simp_all
  then show "case drain_listener_gro k en of (r, en', got) \<Rightarrow>
      sx_datagrams_sent (en_stats en') + sx_datagrams_dropped (en_stats en')
        = sx_datagrams_sent (en_stats en) + sx_datagrams_dropped (en_stats en) + got"
    by (simp add: drain_listener_gro_def Let_def d flush_sent_fields datagram_fields_def)
qed

section \<open>Target to client\<close>

lemma reply_frame [simp]:
  "batch_total (rp_batch (count_reply n b rp)) = batch_total (rp_batch rp) + n"
  "batch_total (rp_batch (count_reply_dropped n rp)) = batch_total (rp_batch rp) + n"
  "rp_stats (count_reply n b rp) = rp_stats rp" "rp_stats (count_reply_dropped n rp) = rp_stats rp"
  by (simp_all add: count_reply_def count_reply_dropped_def batch_total_def drop_in_batch_def)

lemma reply_one_accounts:
  assumes "reply_one k data rp = (blocked, rp')"
  shows "batch_total (rp_batch rp') + (if blocked then 1 else 0) = batch_total (rp_batch rp) + 1"
    and "rp_stats rp' = rp_stats rp"
  using assms by (auto simp: reply_one_def split: prod.splits sum.splits if_splits)

lemma reply_pieces_account:
  assumes "reply_pieces k pieces rp = (rest, rp')"
  shows "batch_total (rp_batch rp') + of_nat (length rest) = batch_total (rp_batch rp) + of_nat (length pieces)
     \<and> rp_stats rp' = rp_stats rp \<and> (\<exists>i. rest = drop i pieces)"
  using assms
proof (induction k pieces rp rule: reply_pieces.induct)
  case (2 k piece pieces rp)
  obtain blocked rp1 where one: "reply_one k piece rp = (blocked, rp1)" by fastforce
  note acc = reply_one_accounts [OF one]
  show ?case
  proof (cases blocked)
    case True
    with 2(2) have res: "rest = piece # pieces" "rp' = rp1" by (simp_all add: one)
    then have "\<exists>i. rest = drop i (piece # pieces)" by (auto intro: exI [of _ 0])
    with acc True res show ?thesis by simp
  next
    case False
    with 2 have IH: "batch_total (rp_batch rp') + of_nat (length rest) = batch_total (rp_batch rp1) + of_nat (length pieces)"
        "rp_stats rp' = rp_stats rp1" "\<exists>i. rest = drop i pieces"
      by (simp_all add: one)
    then obtain i where "rest = drop (Suc i) (piece # pieces)" by auto
    then have "\<exists>i. rest = drop i (piece # pieces)" by blast
    moreover have "batch_total (rp_batch rp') + of_nat (length rest)
        = batch_total (rp_batch rp) + of_nat (length (piece # pieces))"
      using IH(1) acc(1) False by (simp add: add.assoc add.commute)
    ultimately show ?thesis using IH(2) acc(2) by simp
  qed
qed auto

text \<open>How many datagrams a blocked reply still holds.\<close>

definition pending_count :: "(payload \<times> nat) option \<Rightarrow> u64" where
  "pending_count p = (case p of None \<Rightarrow> 0 | Some (data, segment) \<Rightarrow> of_nat (length (blocked_pieces data segment)))"

lemma blocked_pieces_chunks: "0 < n \<Longrightarrow> xs \<noteq> [] \<Longrightarrow> blocked_pieces xs n = chunks n xs"
  by (simp add: blocked_pieces_def chunks_short not_less)

lemma blocked_suffix:
  assumes "0 < n" and "rest = drop i (chunks n xs)" and "rest \<noteq> []"
  shows "blocked_pieces (concat rest) n = rest"
proof -
  have rest: "rest = chunks n (drop (i * n) xs)" using assms by (simp add: drop_chunks)
  then have c: "concat rest = drop (i * n) xs" using assms(1) by (simp add: concat_chunks)
  moreover have "drop (i * n) xs \<noteq> []" using rest assms(3) by auto
  ultimately show ?thesis using assms(1) rest by (simp add: blocked_pieces_chunks)
qed

lemma one_by_one_accounts:
  assumes "0 < n" and "reply_pieces k (chunks n xs) rp = (rest, rp')"
  shows "batch_total (rp_batch rp') + pending_count (if rest = [] then None else Some (concat rest, n))
      = batch_total (rp_batch rp) + of_nat (length (chunks n xs))"
    and "rp_stats rp' = rp_stats rp"
proof -
  obtain i where i: "rest = drop i (chunks n xs)"
    and acc: "batch_total (rp_batch rp') + of_nat (length rest) = batch_total (rp_batch rp) + of_nat (length (chunks n xs))"
      "rp_stats rp' = rp_stats rp"
    using reply_pieces_account [OF assms(2)] by blast
  show "batch_total (rp_batch rp') + pending_count (if rest = [] then None else Some (concat rest, n))
      = batch_total (rp_batch rp) + of_nat (length (chunks n xs))"
    using acc(1) blocked_suffix [OF assms(1) i] by (auto simp: pending_count_def)
  show "rp_stats rp' = rp_stats rp" by (rule acc(2))
qed

text \<open>One step of a burst or of a single reply: what was handed over is sent, dropped or held
  back.\<close>

lemma reply_coalesced_accounts:
  assumes c: "is_coalesced (length data) segment" and r: "reply_coalesced k data segment rp = (pend, rp')"
  shows "batch_total (rp_batch rp') + pending_count pend = batch_total (rp_batch rp) + segments (length data) segment
     \<and> rp_stats rp' = rp_stats rp"
proof -
  have pos: "0 < segment" and ne: "data \<noteq> []" using c by (auto simp: is_coalesced_def)
  have one: "batch_total (rp_batch rp2) + pending_count pend = batch_total (rp_batch rp1) + of_nat (length (chunks segment (drop f data)))
      \<and> rp_stats rp2 = rp_stats rp1"
    if "(case reply_pieces k (chunks segment (drop f data)) rp1 of
           ([], rp') \<Rightarrow> (None, rp') | (rest, rp') \<Rightarrow> (Some (concat rest, segment), rp')) = (pend, rp2)" for f rp1 rp2
  proof -
    obtain rest rp3 where p: "reply_pieces k (chunks segment (drop f data)) rp1 = (rest, rp3)" by fastforce
    have "rp3 = rp2" "pend = (if rest = [] then None else Some (concat rest, segment))"
      using that by (cases rest; simp add: p)+
    then show ?thesis using one_by_one_accounts [OF pos p] by simp
  qed
  show ?thesis
  proof (cases "rp_gso_ok rp")
    case False
    then show ?thesis
      using r one [of 0 rp rp'] segments_chunks [OF pos ne] by (simp add: reply_coalesced_def)
  next
    case True
    obtain g sent w' where s: "send_chunks (uk_reply k (se_client (rp_session rp))) data segment (rp_world rp) = (g, sent, w')"
      by (metis prod.exhaust)
    note stop = send_chunks_stop [OF c s]
    show ?thesis
    proof (cases g)
      case GsoSent
      then show ?thesis using r True by (auto simp: reply_coalesced_def s pending_count_def)
    next
      case (GsoStopped f err)
      let ?rp1 = "count_reply (of_nat (f div segment)) (of_nat f) (rp\<lparr>rp_world := w'\<rparr>)"
      have f: "segment dvd f" "f < length data" using stop GsoStopped by simp_all
      note split = segments_split [OF pos f]
      have b1: "batch_total (rp_batch ?rp1) = batch_total (rp_batch rp) + of_nat (f div segment)" "rp_stats ?rp1 = rp_stats rp"
        by simp_all
      consider (block) "io_would_block err" | (dropped) "\<not> io_would_block err" "\<not> is_fallback_error err"
        | (fallback) "\<not> io_would_block err" "is_fallback_error err" by blast
      then show ?thesis
      proof cases
        case block
        then have "pend = Some (drop f data, segment)" "rp' = ?rp1"
          using r True GsoStopped by (simp_all add: reply_coalesced_def s Let_def)
        moreover have "drop f data \<noteq> []" using f(2) by simp
        ultimately show ?thesis
          using b1 split(1) by (simp add: pending_count_def blocked_pieces_chunks [OF pos] add.assoc)
      next
        case dropped
        then have "pend = None" "rp' = count_reply_dropped (segments (length data - f) segment) ?rp1"
          using r True GsoStopped by (simp_all add: reply_coalesced_def s Let_def)
        then show ?thesis using split(2) by (simp add: pending_count_def add.assoc)
      next
        case fallback
        then have res: "(case reply_pieces k (chunks segment (drop f data)) (?rp1\<lparr>rp_gso_ok := False\<rparr>) of
           ([], rp') \<Rightarrow> (None, rp') | (rest, rp') \<Rightarrow> (Some (concat rest, segment), rp')) = (pend, rp')"
          using r True GsoStopped by (simp add: reply_coalesced_def s Let_def)
        show ?thesis using one [OF res] split(1) by (simp add: add.assoc)
      qed
    qed
  qed
qed

text \<open>The datagrams a drain leaves waiting for room in the listener's send buffer.\<close>

definition waiting :: "session_drain \<Rightarrow> u64" where
  "waiting r = (case r of SdBlocked data segment \<Rightarrow> pending_count (Some (data, segment)) | _ \<Rightarrow> 0)"

lemma waiting_simps [simp]:
  "waiting SdIdle = 0" "waiting SdFull = 0" "waiting SdDead = 0" "pending_count (Some (data, 0)) = 1"
  "waiting (SdBlocked data segment) = pending_count (Some (data, segment))"
  by (simp_all add: waiting_def pending_count_def blocked_pieces_def)

lemma drain_up_loop_accounts:
  "drain_up_loop n k t rp replied got = (r, rp', replied', got')
   \<Longrightarrow> batch_total (rp_batch rp') + waiting r - got' = batch_total (rp_batch rp) - got
     \<and> datagram_fields (rp_stats rp') = datagram_fields (rp_stats rp)"
proof (induction n arbitrary: rp replied got)
  case (Suc n)
  obtain ans w' where recv: "recv_upstream (uk_recv_up k (se_id (rp_session rp))) (rp_world rp) = (ans, w')" by fastforce
  show ?case
  proof (cases ans)
    case (Inr data)
    obtain b rp1 where one: "reply_one k data (rp\<lparr>rp_world := w'\<rparr>) = (b, rp1)" by fastforce
    note acc = reply_one_accounts [OF one]
    show ?thesis
    proof (cases b)
      case True
      then have "r = SdBlocked data 0" "rp' = rp1" "got' = got + 1"
        using Suc.prems by (simp_all add: recv Inr one)
      then show ?thesis using acc True by simp
    next
      case False
      then have "drain_up_loop n k t rp1 True (got + 1) = (r, rp', replied', got')"
        using Suc.prems by (simp add: recv Inr one)
      from Suc.IH [OF this] acc False show ?thesis by simp
    qed
  next
    case (Inl e)
    then show ?thesis
      using Suc.prems Suc.IH [of "rp\<lparr>rp_world := w'\<rparr>" replied got]
        Suc.IH [of "rp\<lparr>rp_world := w', rp_stats := mark_udp_icmp_error t kind (rp_stats rp)\<rparr>" replied got for kind]
      by (cases "classify_udp_err e") (auto simp: recv)
  qed
qed simp

lemma drain_up_gro_loop_accounts:
  "drain_up_gro_loop n k t rp replied got = (r, rp', replied', got')
   \<Longrightarrow> batch_total (rp_batch rp') + waiting r - got' = batch_total (rp_batch rp) - got
     \<and> datagram_fields (rp_stats rp') = datagram_fields (rp_stats rp)"
proof (induction n arbitrary: rp replied got)
  case (Suc n)
  obtain ans w' where recv: "recv_upstream (uk_recv_up_gro k (se_id (rp_session rp))) (rp_world rp) = (ans, w')" by fastforce
  show ?case
  proof (cases ans)
    case (Inr m)
    let ?data = "gr_data m" and ?seg = "gr_segment m" and ?rp = "rp\<lparr>rp_world := w'\<rparr>"
    let ?segs = "segments (length ?data) ?seg"
    note unfold = recv Inr Let_def
    consider (trunc) "gr_truncated m" | (single) "\<not> gr_truncated m" "\<not> is_coalesced (length ?data) ?seg"
      | (burst) "\<not> gr_truncated m" "is_coalesced (length ?data) ?seg" by blast
    then show ?thesis
    proof cases
      case trunc
      then have "drain_up_gro_loop n k t (count_reply_dropped ?segs ?rp) True (got + ?segs) = (r, rp', replied', got')"
        using Suc.prems by (simp add: unfold)
      from Suc.IH [OF this] show ?thesis by simp
    next
      case single
      then have one_seg: "?segs = 1" by (simp add: segments_def)
      obtain b rp1 where one: "reply_one k ?data ?rp = (b, rp1)" by fastforce
      note acc = reply_one_accounts [OF one]
      show ?thesis
      proof (cases b)
        case True
        then have "r = SdBlocked ?data 0" "rp' = rp1" "got' = got + ?segs"
          using Suc.prems single by (simp_all add: unfold one)
        then show ?thesis using acc True one_seg by simp
      next
        case False
        then have "drain_up_gro_loop n k t rp1 True (got + ?segs) = (r, rp', replied', got')"
          using Suc.prems single by (simp add: unfold one)
        from Suc.IH [OF this] acc False one_seg show ?thesis by simp
      qed
    next
      case burst
      obtain pend rp1 where c: "reply_coalesced k ?data ?seg ?rp = (pend, rp1)" by fastforce
      note acc = reply_coalesced_accounts [OF burst(2) c]
      show ?thesis
      proof (cases pend)
        case None
        then have "drain_up_gro_loop n k t rp1 True (got + ?segs) = (r, rp', replied', got')"
          using Suc.prems burst by (simp add: unfold c)
        from Suc.IH [OF this] acc None show ?thesis by (simp add: pending_count_def)
      next
        case (Some p)
        obtain rest seg where p: "p = (rest, seg)" by fastforce
        then have "r = SdBlocked rest seg" "rp' = rp1" "got' = got + ?segs"
          using Suc.prems burst Some by (simp_all add: unfold c)
        then show ?thesis using acc Some p by simp
      qed
    qed
  next
    case (Inl e)
    then show ?thesis
      using Suc.prems Suc.IH [of "rp\<lparr>rp_world := w'\<rparr>" replied got]
        Suc.IH [of "rp\<lparr>rp_world := w', rp_stats := mark_udp_icmp_error t kind (rp_stats rp)\<rparr>" replied got for kind]
      by (cases "classify_udp_err e") (auto simp: recv)
  qed
qed simp

definition reply_total :: "forwarder_stats \<Rightarrow> u64" where
  "reply_total s = sx_datagrams_received s + sx_datagrams_dropped s"

lemma reply_total_fields: "datagram_fields s = datagram_fields s' \<Longrightarrow> reply_total s = reply_total s'"
  by (simp add: datagram_fields_def reply_total_def)

lemma reply_total_simps [simp]:
  "reply_total (add_datagrams_received n (add_received b s)) = reply_total s + n"
  "reply_total (add_datagrams_dropped n s) = reply_total s + n"
  "reply_total (mark_connect_ok_at t s) = reply_total s"
  by (simp_all add: reply_total_def add_datagrams_received_def add_received_def add_datagrams_dropped_def
      mark_connect_ok_at_def Let_def)

lemma flush_replies_total: "reply_total (rp_stats (flush_replies t replied rp)) = reply_total (rp_stats rp) + batch_total (rp_batch rp)"
  by (cases "ba_datagrams (rp_batch rp) = 0"; cases "ba_dropped (rp_batch rp) = 0"; cases replied)
    (simp_all add: flush_replies_def Let_def batch_total_def word_neq_0_conv)

lemma drain_upstream_total:
  assumes "drain_upstream k en s = (r, rp, got)"
  shows "reply_total (rp_stats rp) + waiting r = reply_total (en_stats en) + got"
proof -
  let ?t = "elapsed_ms (uk_now k (en_world en)) (en_stats en)" and ?rp = "replying_of en s"
  obtain r1 rp1 replied got1 where d: "(if se_gro s then drain_up_gro_loop SESSION_BATCH k ?t ?rp False 0
      else drain_up_loop SESSION_BATCH k ?t ?rp False 0) = (r1, rp1, replied, got1)" by (metis prod.exhaust)
  have init: "batch_total (rp_batch ?rp) = 0" "rp_stats ?rp = en_stats en" by (simp_all add: replying_of_def)
  have acc: "batch_total (rp_batch rp1) + waiting r1 = got1" "reply_total (rp_stats rp1) = reply_total (en_stats en)"
    using drain_up_loop_accounts [of SESSION_BATCH k ?t ?rp False 0] drain_up_gro_loop_accounts [of SESSION_BATCH k ?t ?rp False 0]
      d init by (auto split: if_splits intro: reply_total_fields)
  have "r = r1" "rp = flush_replies ?t replied rp1" "got = got1"
    using assms d by (simp_all add: drain_upstream_def Let_def)
  then show ?thesis using acc by (simp add: flush_replies_total add.assoc)
qed

lemma send_blocked_total: "reply_total (rp_stats (send_blocked_piece k piece rp)) = reply_total (rp_stats rp) + 1"
  by (simp add: send_blocked_piece_def split: prod.split sum.split)

lemma send_blocked_pieces_total:
  "reply_total (rp_stats (fold (send_blocked_piece k) pieces rp)) = reply_total (rp_stats rp) + of_nat (length pieces)"
  by (induction pieces arbitrary: rp) (simp_all add: send_blocked_total)

lemma end_task_fields: "datagram_fields (en_stats (end_task s en)) = datagram_fields (en_stats en)"
  by (simp add: end_task_def)

text \<open>
  C6. Replies are accounted for in the same way. What a drain of a session's upstream socket
  takes is counted as received, counted as dropped, or held in the reply that waits for the
  listener; and once a turn of the session's task that is not cancelled has sent what waited,
  received plus dropped has grown by exactly the number of reply datagrams taken. This holds
  for single datagrams and for bursts, for bursts that are sent whole, in part or one by one.\<close>
theorem replies_accounted:
  "case drain_upstream k en s of (r, rp, got) \<Rightarrow>
     sx_datagrams_received (rp_stats rp) + sx_datagrams_dropped (rp_stats rp) + waiting r
       = sx_datagrams_received (en_stats en) + sx_datagrams_dropped (en_stats en) + got
   \<and> sx_datagrams_received (en_stats (session_turn k True None s en))
       + sx_datagrams_dropped (en_stats (session_turn k True None s en))
       = sx_datagrams_received (en_stats en) + sx_datagrams_dropped (en_stats en) + got"
proof -
  obtain r rp got where d: "drain_upstream k en s = (r, rp, got)" by (metis prod.exhaust)
  note total = drain_upstream_total [OF d]
  have "reply_total (en_stats (session_turn k True None s en)) = reply_total (en_stats en) + got"
  proof (cases r)
    case SdDead
    then show ?thesis
      using total reply_total_fields [OF end_task_fields, of s "absorb_reply en rp"]
      by (simp add: session_turn_def d absorb_reply_def)
  next
    case (SdBlocked data segment)
    then show ?thesis
      using total by (simp add: session_turn_def d absorb_reply_def Let_def send_blocked_pieces_total pending_count_def)
  qed (use total in \<open>simp_all add: session_turn_def d absorb_reply_def\<close>)
  with total show ?thesis by (simp add: d reply_total_def)
qed

end
