(* ===== verification/Udp_Sessions.thy ===== *)
theory Udp_Sessions
  imports Udp_Accounting
begin

text \<open>
  The UDP engine as a machine, and the life of its sessions. \<open>engine_step\<close> has one rule per
  branch of \<open>Engine::run\<close>, per way a session task moves and per outside event; any
  interleaving of them is a run. \<open>udp_plane_step\<close> puts the engines of all UDP forwarders
  side by side over the one semaphore they share.
\<close>

section \<open>The run loop\<close>

text \<open>The listener is readable: the receive path depends on whether bursts may arrive.\<close>

definition on_readable :: "'w udp_kernel \<Rightarrow> 'w engine \<Rightarrow> listener_drain \<times> 'w engine" where
  "on_readable k en =
     (case (if of_gro_aware (en_off en) then drain_listener_gro k en else drain_listener k en) of
        (r, en', _) \<Rightarrow> (r, en'))"

definition on_tick :: "'w udp_kernel \<Rightarrow> 'w engine \<Rightarrow> 'w engine" where
  "on_tick k en = apply_gro_knob k (sweep k en)"

text \<open>
  A session's token is a child of the forwarder's: it is cancelled when the session leaves the
  table, and for all sessions at once when the forwarder is stopped. Then its task ends, also in
  the middle of a waiting reply, and the listed sessions of a stopped forwarder may have lost
  their tasks before \<open>close_all\<close> takes them out of the table. The listener's loop looks at the
  token before each turn, so a turn it has begun may still be made after the stop. Behind
  \<open>close_all\<close> the forwarder waits for its tasks, but not longer than two seconds: it returns
  when they have ended or the wait is over, and the guard of the listening flag is dropped. A
  session task may panic at any time. \<open>environment\<close> is whatever happens outside: packets, time,
  reloaded knobs, deliveries of alerts, and changes of the statistics by other components,
  which leave the gauge and the listening flag alone.
\<close>

definition SESSION_STOP_GRACE :: duration where "SESSION_STOP_GRACE = from_secs 2"

definition in_loop :: "'w engine \<Rightarrow> bool" where
  "in_loop en \<longleftrightarrow> en_phase en = LoopRuns \<or> en_phase en = LoopCancelled"

definition session_cancelled :: "'w engine \<Rightarrow> session \<Rightarrow> bool" where
  "session_cancelled en s \<longleftrightarrow> \<not> se_listed s \<or> en_phase en \<noteq> LoopRuns"

definition return_forwarder :: "'w engine \<Rightarrow> 'w engine" where
  "return_forwarder en = en\<lparr>en_phase := Returned, en_stats := set_listening False (en_stats en)\<rparr>"

inductive engine_step :: "'w udp_kernel \<Rightarrow> 'w engine \<Rightarrow> 'w engine \<Rightarrow> bool" for k where
  tick: "in_loop en \<Longrightarrow> engine_step k en (on_tick k en)"
| readable: "in_loop en \<Longrightarrow> engine_step k en (snd (on_readable k en))"
| readiness_failed: "in_loop en \<Longrightarrow> engine_step k en (gate_recv_failed k en)"
| targets: "in_loop en \<Longrightarrow> engine_step k en (on_targets_changed en)"
| refresh: "engine_step k en (snd (snd (dns_refresh cfg resolver now (fail_gate, en))))"
| reply: "s \<in> set (en_sessions en) \<Longrightarrow> se_task s \<Longrightarrow> sends = None \<or> session_cancelled en s
    \<Longrightarrow> engine_step k en (session_turn k ready sends s en)"
| cancelled: "s \<in> set (en_sessions en) \<Longrightarrow> se_task s \<Longrightarrow> session_cancelled en s \<Longrightarrow> engine_step k en (end_task s en)"
| panicked: "s \<in> set (en_sessions en) \<Longrightarrow> se_task s
    \<Longrightarrow> engine_step k en (end_task s (en\<lparr>en_panicked := se_id s # en_panicked en\<rparr>))"
| stop: "en_phase en = LoopRuns \<Longrightarrow> engine_step k en (en\<lparr>en_phase := LoopCancelled\<rparr>)"
| close: "en_phase en = LoopCancelled \<Longrightarrow> engine_step k en ((close_all en)\<lparr>en_phase := Closing\<rparr>)"
| joined: "en_phase en = Closing \<Longrightarrow> \<forall>s \<in> set (en_sessions en). \<not> se_task s \<Longrightarrow> engine_step k en (return_forwarder en)"
| grace_over: "en_phase en = Closing \<Longrightarrow> engine_step k en (return_forwarder en)"
| environment: "sx_active_connections st = sx_active_connections (en_stats en) \<Longrightarrow> sx_listening st = sx_listening (en_stats en)
    \<Longrightarrow> engine_step k en (en\<lparr>en_world := w, en_knobs := kn, en_alerts := al, en_stats := st\<rparr>)"

inductive_cases engine_stepE: "engine_step k en en'"

text \<open>A fresh engine, as \<open>run_udp_forwarder\<close> builds it; an IP literal is published at once.\<close>

definition log_gates_default :: gates where
  "log_gates_default =
     \<lparr>ga_send_full = log_gate_default, ga_no_target = log_gate_default, ga_open_failed = log_gate_default,
      ga_recv_failed = log_gate_default, ga_gso_fallback = log_gate_default, ga_gro_trunc = log_gate_default\<rparr>"

definition engine_new :: "forwarder_config \<Rightarrow> ip_addr option \<Rightarrow> forwarder_stats \<Rightarrow> runtime_knobs \<Rightarrow> nat \<Rightarrow> alerting \<Rightarrow> 'w
    \<Rightarrow> 'w engine" where
  "engine_new cfg literal stats knobs free al w =
     \<lparr>en_label = fc_label cfg, en_stats = stats, en_knobs = knobs, en_free = free, en_alerts = al,
      en_targets = (case literal of Some ip \<Rightarrow> [SocketAddr ip (fc_remote_port cfg)] | None \<Rightarrow> []),
      en_sessions = [], en_next_id = 0, en_gates = log_gates_default, en_last_limit_alert = None,
      en_off = offload_init, en_phase = LoopRuns, en_panicked = [], en_world = w\<rparr>"

text \<open>All UDP forwarders share one semaphore; a forwarder may be started at any time.\<close>

inductive udp_plane_step :: "'w udp_kernel \<Rightarrow> nat \<times> 'w engine list \<Rightarrow> nat \<times> 'w engine list \<Rightarrow> bool" for k where
  start: "sx_active_connections stats = 0
    \<Longrightarrow> udp_plane_step k (free, es) (free, es @ [engine_new cfg literal stats knobs free al w])"
| engine: "i < length es \<Longrightarrow> engine_step k ((es ! i)\<lparr>en_free := free\<rparr>) en'
    \<Longrightarrow> udp_plane_step k (free, es) (en_free en', es[i := en'])"

section \<open>What the table is made of\<close>

text \<open>The part of a session that decides about its life; traffic leaves it alone.\<close>

definition se_key :: "session \<Rightarrow> nat \<times> socket_addr \<times> socket_addr \<times> bool \<times> bool \<times> bool" where
  "se_key s = (se_id s, se_client s, se_remote s, se_listed s, se_task s, se_dead s)"

text \<open>
  \<open>excused\<close> are the sessions that may have lost their task without being dead: those whose task
  has panicked, and all of them once the forwarder is stopped.
\<close>

definition excused :: "'w engine \<Rightarrow> nat set" where
  "excused en = (if en_phase en = LoopRuns then set (en_panicked en) else UNIV)"

definition sessions_ok :: "nat \<Rightarrow> nat set \<Rightarrow> session list \<Rightarrow> bool" where
  "sessions_ok next_id X ss \<longleftrightarrow>
     distinct (map se_id ss) \<and> (\<forall>s \<in> set ss. se_id s < next_id)
     \<and> distinct (map se_client (filter se_listed ss))
     \<and> (\<forall>s \<in> set ss. se_listed s \<and> \<not> se_task s \<longrightarrow> se_dead s \<or> se_id s \<in> X)"

definition engine_ok :: "'w engine \<Rightarrow> bool" where
  "engine_ok en \<longleftrightarrow> sessions_ok (en_next_id en) (excused en) (en_sessions en) \<and> list_all session_alive (en_sessions en)"

text \<open>Permits and gauge, counted against the sessions, and what only the life of the forwarder changes.\<close>

type_synonym engine_life = "bool \<times> engine_phase \<times> nat list"

definition life :: "'w engine \<Rightarrow> engine_life" where
  "life en = (sx_listening (en_stats en), en_phase en, en_panicked en)"

definition tally :: "'w engine \<Rightarrow> nat \<times> u64 \<times> engine_life" where
  "tally en =
     (en_free en + length (en_sessions en), sx_active_connections (en_stats en) - of_nat (length (en_sessions en)), life en)"

lemma excused_life: "life en = life en' \<Longrightarrow> excused en = excused en'"
  by (simp add: life_def excused_def)

lemma sessions_ok_key:
  assumes "map se_key ss = map se_key ss'"
  shows "sessions_ok n X ss = sessions_ok n X ss'" "list_all session_alive ss = list_all session_alive ss'"
proof -
  have len: "length ss = length ss'" using assms by (metis length_map)
  have key: "se_key (ss ! i) = se_key (ss' ! i)" if "i < length ss" for i
    using assms that len by (metis nth_map)
  have "map se_id ss = map se_id ss'"
    using key len by (intro nth_equalityI) (auto simp: se_key_def)
  moreover have "map se_client (filter se_listed ss) = map se_client (filter se_listed ss')"
    using len assms by (induction ss ss' rule: list_induct2) (auto simp: se_key_def)
  moreover have "(\<forall>s \<in> set ss. P (se_key s)) \<longleftrightarrow> (\<forall>s \<in> set ss'. P (se_key s))" for P
    using assms by (metis (mono_tags) image_iff list.set_map)
  from this [of "\<lambda>(i, c, r, l, t, d). i < n"] this [of "\<lambda>(i, c, r, l, t, d). l \<and> \<not> t \<longrightarrow> d \<or> i \<in> X"]
    this [of "\<lambda>(i, c, r, l, t, d). l \<or> t"]
  have "(\<forall>s \<in> set ss. se_id s < n) \<longleftrightarrow> (\<forall>s \<in> set ss'. se_id s < n)"
    "(\<forall>s \<in> set ss. se_listed s \<and> \<not> se_task s \<longrightarrow> se_dead s \<or> se_id s \<in> X)
      \<longleftrightarrow> (\<forall>s \<in> set ss'. se_listed s \<and> \<not> se_task s \<longrightarrow> se_dead s \<or> se_id s \<in> X)"
    "(\<forall>s \<in> set ss. session_alive s) \<longleftrightarrow> (\<forall>s \<in> set ss'. session_alive s)"
    by (simp_all add: se_key_def session_alive_def)
  ultimately show "sessions_ok n X ss = sessions_ok n X ss'" "list_all session_alive ss = list_all session_alive ss'"
    by (simp_all add: sessions_ok_def list_all_iff)
qed

text \<open>An engine up to what its operations on traffic leave alone.\<close>

definition same_table :: "'w engine \<Rightarrow> 'w engine \<Rightarrow> bool" where
  "same_table en en' \<longleftrightarrow>
     map se_key (en_sessions en') = map se_key (en_sessions en) \<and> en_next_id en' = en_next_id en
     \<and> en_free en' = en_free en \<and> sx_active_connections (en_stats en') = sx_active_connections (en_stats en)
     \<and> life en' = life en"

lemma same_table_keeps:
  assumes "same_table en en'"
  shows "engine_ok en' = engine_ok en" "tally en' = tally en"
proof -
  have "length (en_sessions en') = length (en_sessions en)"
    using assms by (metis length_map same_table_def)
  then show "tally en' = tally en" using assms by (simp add: same_table_def tally_def)
  show "engine_ok en' = engine_ok en"
    using assms sessions_ok_key [of "en_sessions en'" "en_sessions en"] excused_life [of en' en] by (simp add: same_table_def engine_ok_def)
qed

lemma same_table_refl [simp]: "same_table en en"
  by (simp add: same_table_def)

lemma same_table_trans: "same_table a b \<Longrightarrow> same_table b c \<Longrightarrow> same_table a c"
  by (simp add: same_table_def)

section \<open>Removing sessions\<close>

lemma release_pow: "(release ^^ n) free = free + n"
  by (induction n) (simp_all add: release_def)

lemma dec_pow: "sx_active_connections ((dec_connections ^^ n) s) = sx_active_connections s - of_nat n"
  by (induction n) (simp_all add: dec_connections_def)

lemma dec_pow_listening: "sx_listening ((dec_connections ^^ n) s) = sx_listening s"
  by (induction n) (simp_all add: dec_connections_def)

lemma life_simps [simp]:
  "life (en\<lparr>en_sessions := ss\<rparr>) = life en" "life (en\<lparr>en_world := w\<rparr>) = life en" "life (en\<lparr>en_free := f\<rparr>) = life en"
  "life (en\<lparr>en_gates := g\<rparr>) = life en" "life (en\<lparr>en_off := off\<rparr>) = life en" "life (en\<lparr>en_next_id := i\<rparr>) = life en"
  "life (en\<lparr>en_alerts := al\<rparr>) = life en" "life (en\<lparr>en_targets := ts\<rparr>) = life en" "life (en\<lparr>en_knobs := kn\<rparr>) = life en"
  "life (en\<lparr>en_last_limit_alert := t\<rparr>) = life en"
  by (simp_all add: life_def)

lemma excused_simps [simp]:
  "excused (en\<lparr>en_sessions := ss\<rparr>) = excused en" "excused (en\<lparr>en_world := w\<rparr>) = excused en" "excused (en\<lparr>en_free := f\<rparr>) = excused en"
  "excused (en\<lparr>en_gates := g\<rparr>) = excused en" "excused (en\<lparr>en_off := off\<rparr>) = excused en" "excused (en\<lparr>en_next_id := i\<rparr>) = excused en"
  "excused (en\<lparr>en_alerts := al\<rparr>) = excused en" "excused (en\<lparr>en_targets := ts\<rparr>) = excused en" "excused (en\<lparr>en_knobs := kn\<rparr>) = excused en"
  "excused (en\<lparr>en_last_limit_alert := t\<rparr>) = excused en" "excused (en\<lparr>en_stats := st\<rparr>) = excused en"
  by (simp_all add: excused_def)

lemma life_stats: "sx_listening st = sx_listening (en_stats en) \<Longrightarrow> life (en\<lparr>en_stats := st\<rparr>) = life en"
  by (simp add: life_def)

lemma reap_life [simp]: "life (reap en) = life en" "excused (reap en) = excused en"
  by (simp_all add: reap_def Let_def life_def excused_def dec_pow_listening)

lemma reap_tally [simp]: "tally (reap en) = tally en"
proof -
  have "length (filter session_alive (en_sessions en)) + length (filter (\<lambda>s. \<not> session_alive s) (en_sessions en))
      = length (en_sessions en)"
    by (rule sum_length_filter_compl)
  then have "length (en_sessions en) = length (filter session_alive (en_sessions en))
      + length (filter (\<lambda>s. \<not> session_alive s) (en_sessions en))" ..
  then show ?thesis using reap_life(1) [of en] by (simp add: tally_def del: reap_life) (simp add: reap_def Let_def release_pow dec_pow)
qed

lemma sessions_ok_filter:
  assumes "sessions_ok n X ss"
  shows "sessions_ok n X (filter P ss)"
proof -
  have "filter se_listed (filter P ss) = filter P (filter se_listed ss)"
    by (simp add: conj_commute)
  then have "distinct (map se_client (filter se_listed (filter P ss)))"
    using assms distinct_map_filter [of se_client "filter se_listed ss" P] by (simp add: sessions_ok_def)
  moreover have "distinct (map se_id (filter P ss))"
    using assms distinct_map_filter [of se_id ss P] by (simp add: sessions_ok_def)
  ultimately show ?thesis using assms by (simp add: sessions_ok_def)
qed

lemma reap_ok: "sessions_ok (en_next_id en) (excused en) (en_sessions en) \<Longrightarrow> engine_ok (reap en)"
  unfolding engine_ok_def reap_life by (simp add: reap_def Let_def sessions_ok_filter list_all_iff)

text \<open>Sessions changed one by one, their identity kept and nobody newly listed.\<close>

lemma sessions_ok_map:
  assumes "sessions_ok n X ss"
    and same: "\<And>s. s \<in> set ss \<Longrightarrow> se_id (f s) = se_id s \<and> se_client (f s) = se_client s \<and> (se_listed (f s) \<longrightarrow> se_listed s)"
    and dead: "\<And>s. s \<in> set ss \<Longrightarrow> se_listed (f s) \<Longrightarrow> \<not> se_task (f s) \<Longrightarrow> se_dead (f s) \<or> se_id s \<in> X"
  shows "sessions_ok n X (map f ss)"
proof -
  have "map se_client (filter se_listed (map f ss)) = map se_client (filter (\<lambda>s. se_listed (f s)) (filter se_listed ss))"
    using same by (induction ss) auto
  then have "distinct (map se_client (filter se_listed (map f ss)))"
    using assms(1) distinct_map_filter [of se_client "filter se_listed ss"] by (simp add: sessions_ok_def)
  moreover have "map se_id (map f ss) = map se_id ss" using same by simp
  then have "distinct (map se_id (map f ss))" using assms(1) by (simp only: sessions_ok_def)
  ultimately show ?thesis using assms(1) same dead unfolding sessions_ok_def by simp
qed

lemma tally_map: "length (en_sessions en') = length (en_sessions en) \<Longrightarrow> en_free en' = en_free en
    \<Longrightarrow> sx_active_connections (en_stats en') = sx_active_connections (en_stats en) \<Longrightarrow> life en' = life en \<Longrightarrow> tally en' = tally en"
  by (simp add: tally_def)

lemma unlist_keeps:
  assumes "engine_ok en"
  shows "engine_ok (unlist_where P en)" "tally (unlist_where P en) = tally en"
proof -
  let ?f = "\<lambda>s. if se_listed s \<and> P s then s\<lparr>se_listed := False\<rparr> else s"
  have "sessions_ok (en_next_id en) (excused en) (map ?f (en_sessions en))"
  proof (rule sessions_ok_map)
    show ok: "sessions_ok (en_next_id en) (excused en) (en_sessions en)" using assms by (simp add: engine_ok_def)
    show "se_dead (?f s) \<or> se_id s \<in> excused en" if "s \<in> set (en_sessions en)" "se_listed (?f s)" "\<not> se_task (?f s)" for s
      using ok that unfolding sessions_ok_def by (cases "se_listed s \<and> P s") auto
  qed auto
  then show "engine_ok (unlist_where P en)" by (simp add: unlist_where_def reap_ok)
  show "tally (unlist_where P en) = tally en" unfolding unlist_where_def reap_tally by (rule tally_map) simp_all
qed

text \<open>Ending a task is right when the session is dead, has left the table or is excused.\<close>

lemma end_task_keeps:
  assumes "sessions_ok (en_next_id en) (excused en) (en_sessions en)"
    and "\<And>t. t \<in> set (en_sessions en) \<Longrightarrow> se_id t = se_id s \<Longrightarrow> se_dead t \<or> \<not> se_listed t \<or> se_id s \<in> excused en"
  shows "engine_ok (end_task s en)" "tally (end_task s en) = tally en"
proof -
  let ?f = "\<lambda>t. if se_id t = se_id s then t\<lparr>se_task := False\<rparr> else t"
  have "sessions_ok (en_next_id en) (excused en) (map ?f (en_sessions en))"
  proof (rule sessions_ok_map [OF assms(1)])
    show "se_dead (?f t) \<or> se_id t \<in> excused en" if "t \<in> set (en_sessions en)" "se_listed (?f t)" "\<not> se_task (?f t)" for t
      using assms that unfolding sessions_ok_def by (cases "se_id t = se_id s") auto
  qed auto
  then show "engine_ok (end_task s en)" by (simp add: end_task_def reap_ok)
  show "tally (end_task s en) = tally en" unfolding end_task_def reap_tally by (rule tally_map) simp_all
qed

section \<open>Traffic\<close>

lemma active_simps [simp]:
  "sx_active_connections (mark_connect_failed s) = sx_active_connections s"
  "sx_active_connections (mark_udp_icmp_error t kind s) = sx_active_connections s"
  "sx_active_connections (mark_connect_ok_at t s) = sx_active_connections s"
  "sx_active_connections (add_rejected n s) = sx_active_connections s"
  "sx_active_connections (add_sent n s) = sx_active_connections s"
  "sx_active_connections (add_received n s) = sx_active_connections s"
  "sx_active_connections (add_datagrams_sent n s) = sx_active_connections s"
  "sx_active_connections (add_datagrams_received n s) = sx_active_connections s"
  "sx_active_connections (add_datagrams_dropped n s) = sx_active_connections s"
  by (simp_all add: mark_connect_failed_def mark_udp_icmp_error_def mark_connect_ok_at_def add_rejected_def
      add_sent_def add_received_def add_datagrams_sent_def add_datagrams_received_def add_datagrams_dropped_def Let_def)

lemma listening_simps [simp]:
  "sx_listening (mark_connect_failed s) = sx_listening s"
  "sx_listening (mark_udp_icmp_error t kind s) = sx_listening s"
  "sx_listening (mark_connect_ok_at t s) = sx_listening s"
  "sx_listening (add_rejected n s) = sx_listening s"
  "sx_listening (add_sent n s) = sx_listening s"
  "sx_listening (add_received n s) = sx_listening s"
  "sx_listening (add_datagrams_sent n s) = sx_listening s"
  "sx_listening (add_datagrams_received n s) = sx_listening s"
  "sx_listening (add_datagrams_dropped n s) = sx_listening s"
  "sx_listening (inc_connections s) = sx_listening s"
  by (simp_all add: mark_connect_failed_def mark_udp_icmp_error_def mark_connect_ok_at_def add_rejected_def
      add_sent_def add_received_def add_datagrams_sent_def add_datagrams_received_def add_datagrams_dropped_def
      inc_connections_def Let_def)

lemma listening_observe [simp]: "sx_listening (snd (observe_addrs xs s)) = sx_listening s"
  by (simp add: observe_addrs_def Let_def split: option.split)

lemma listening_flush_sent [simp]: "sx_listening (flush_sent ba s) = sx_listening s"
  by (simp add: flush_sent_def Let_def)

lemma active_observe [simp]: "sx_active_connections (snd (observe_addrs xs s)) = sx_active_connections s"
  by (simp add: observe_addrs_def Let_def split: option.split)

lemma active_flush_sent [simp]: "sx_active_connections (flush_sent ba s) = sx_active_connections s"
  by (simp add: flush_sent_def Let_def)

definition sending_key :: "'w sending \<Rightarrow> (nat \<times> socket_addr \<times> socket_addr \<times> bool \<times> bool \<times> bool) \<times> u64 \<times> bool" where
  "sending_key sd = (se_key (sd_session sd), sx_active_connections (sd_stats sd), sx_listening (sd_stats sd))"

lemma se_key_touch [simp]: "se_key (touch t s) = se_key s"
  by (simp add: se_key_def touch_def)

lemma sending_key_simps [simp]:
  "sending_key (note_upstream_send_error k e t sd) = sending_key sd"
  "sending_key (count_sent n b sd) = sending_key sd"
  "sending_key (count_dropped n sd) = sending_key sd"
  "sending_key (touch_session t sd) = sending_key sd"
  "sending_key (sd\<lparr>sd_world := w\<rparr>) = sending_key sd"
  by (simp_all add: sending_key_def note_upstream_send_error_def count_sent_def count_dropped_def touch_session_def
      se_key_def touch_def split: udp_err.split)

lemma forward_upstream_key [simp]: "sending_key (forward_upstream k t data sd) = sending_key sd"
  by (simp add: forward_upstream_def split: prod.split sum.split)

lemma forward_pieces_key [simp]: "sending_key (fold (forward_upstream k t) pieces sd) = sending_key sd"
  by (induction pieces arbitrary: sd) simp_all

lemma sending_key_fallback [simp]:
  "sending_key (sd\<lparr>sd_session := (sd_session sd)\<lparr>se_gso_ok := b\<rparr>, sd_gates := g\<rparr>) = sending_key sd"
  by (simp add: sending_key_def se_key_def)

lemma forward_coalesced_key [simp]: "sending_key (forward_upstream_coalesced k t data segment sd) = sending_key sd"
  by (simp add: forward_upstream_coalesced_def Let_def split: prod.split gso_send.split)

lemma replace_same_key:
  assumes "distinct (map se_id ss)" and "s \<in> set ss" and "se_key s' = se_key s"
  shows "map se_key (replace_session s' ss) = map se_key ss"
proof -
  have "t = s" if "t \<in> set ss" "se_id t = se_id s'" for t
    using assms that by (metis (no_types, lifting) distinct_map inj_onD prod.inject se_key_def)
  then show ?thesis using assms(3) by (auto simp: replace_session_def)
qed

text \<open>The invariant with the tally it starts from.\<close>

definition good :: "nat \<times> u64 \<times> engine_life \<Rightarrow> 'w engine \<Rightarrow> bool" where
  "good c en \<longleftrightarrow> engine_ok en \<and> tally en = c"

lemma good_same_table: "good c en \<Longrightarrow> same_table en en' \<Longrightarrow> good c en'"
  by (simp add: good_def same_table_keeps)

lemma good_distinct: "good c en \<Longrightarrow> distinct (map se_id (en_sessions en))"
  by (simp add: good_def engine_ok_def sessions_ok_def)

lemma good_world [simp]: "good c (en\<lparr>en_world := w\<rparr>) = good c en"
  by (simp add: good_def engine_ok_def tally_def)

lemma good_stats: "sx_active_connections st = sx_active_connections (en_stats en) \<Longrightarrow> sx_listening st = sx_listening (en_stats en)
    \<Longrightarrow> good c (en\<lparr>en_stats := st\<rparr>) = good c en"
  by (simp add: good_def engine_ok_def tally_def life_stats)

lemma good_gates [simp]:
  "good c (gate_no_target k en) = good c en" "good c (gate_open_failed k en) = good c en"
  "good c (gate_recv_failed k en) = good c en" "good c (gate_gro_trunc k en) = good c en"
  by (simp_all add: good_def engine_ok_def tally_def gate_no_target_def gate_open_failed_def gate_recv_failed_def
      gate_gro_trunc_def)

lemma good_reject [simp]: "good c (reject_session k n en) = good c en"
  by (simp add: reject_session_def Let_def good_def engine_ok_def tally_def life_stats)

lemma absorb_good:
  assumes "good c en" and "s \<in> set (en_sessions en)"
    and "sending_key sd = (se_key s, sx_active_connections (en_stats en), sx_listening (en_stats en))"
  shows "good c (fst (absorb en sd))"
proof (rule good_same_table [OF assms(1)])
  show "same_table en (fst (absorb en sd))"
    using assms replace_same_key [OF good_distinct [OF assms(1)] assms(2), of "sd_session sd"]
    by (simp add: same_table_def absorb_def sending_key_def life_def)
qed

lemma session_gro_frame:
  "en_sessions (snd (session_gro k en)) = en_sessions en" "en_next_id (snd (session_gro k en)) = en_next_id en"
  "en_free (snd (session_gro k en)) = en_free en" "life (snd (session_gro k en)) = life en"
  by (simp_all add: session_gro_def mark_gro_unsupported_def split: prod.split sum.split)

lemma add_session_good:
  assumes "good c (en\<lparr>en_free := Suc (en_free en)\<rparr>)"
    and "\<And>s. s \<in> set (en_sessions en) \<Longrightarrow> se_listed s \<Longrightarrow> se_client s \<noteq> client"
  shows "good c (snd (add_session k client remote t gro en))"
    and "fst (add_session k client remote t gro en) \<in> set (en_sessions (snd (add_session k client remote t gro en)))"
proof -
  have "sessions_ok (en_next_id en) (excused en) (en_sessions en)" using assms(1) by (simp add: good_def engine_ok_def)
  then have "sessions_ok (en_next_id en + 1) (excused en) (en_sessions (snd (add_session k client remote t gro en)))"
    using assms(2) by (auto simp: sessions_ok_def add_session_def Let_def less_Suc_eq)
  then show "good c (snd (add_session k client remote t gro en))"
    using assms(1)
    by (auto simp: good_def engine_ok_def tally_def add_session_def Let_def life_stats session_alive_def)
      (auto simp: inc_connections_def)
  show "fst (add_session k client remote t gro en) \<in> set (en_sessions (snd (add_session k client remote t gro en)))"
    by (simp add: add_session_def Let_def)
qed

lemma open_session_good:
  assumes g: "good c en" and free: "\<And>s. s \<in> set (en_sessions en) \<Longrightarrow> se_listed s \<Longrightarrow> se_client s \<noteq> client"
    and op: "open_session k client t n (en, ba) = (so, en', ba')"
  shows "good c en' \<and> (\<forall>s. so = Some s \<longrightarrow> s \<in> set (en_sessions en'))"
proof (cases "en_targets en")
  case Nil
  with op g show ?thesis by (auto simp: open_session_def good_stats)
next
  case (Cons remote rest)
  obtain ok fr where acq: "try_acquire (en_free en) = (ok, fr)" by fastforce
  obtain conn w' where conn: "uk_connect k (en_world en) remote (knob_socket_buffer_bytes (en_knobs en)) = (conn, w')"
    by fastforce
  show ?thesis
  proof (cases ok)
    case False
    then have "fr = en_free en" using acq by (simp add: try_acquire_def split: if_splits)
    moreover have "so = None" "en' = reject_session k n (en\<lparr>en_free := fr\<rparr>)"
      using op Cons acq False by (simp_all add: open_session_def)
    ultimately show ?thesis using g by simp
  next
    case True
    then have fr: "en_free en = Suc fr" using acq by (simp add: try_acquire_def split: if_splits)
    show ?thesis
    proof (cases conn)
      case (Inl e)
      then have res: "so = None"
          "en' = gate_open_failed k (en\<lparr>en_free := release fr, en_stats := mark_connect_failed (en_stats en), en_world := w'\<rparr>)"
        using op Cons acq conn True by (simp_all add: open_session_def)
      have "good c (en\<lparr>en_free := release fr, en_stats := mark_connect_failed (en_stats en), en_world := w'\<rparr>)"
        using g fr by (simp add: good_def engine_ok_def tally_def release_def life_stats)
      then show ?thesis using res by simp
    next
      case (Inr u)
      obtain gr en1 where gro: "session_gro k (en\<lparr>en_free := fr, en_world := w'\<rparr>) = (gr, en1)" by fastforce
      have f: "en_sessions en1 = en_sessions en" "en_next_id en1 = en_next_id en" "en_free en1 = fr" "en_stats en1 = en_stats en"
          "life en1 = life en"
        using session_gro_frame [of k "en\<lparr>en_free := fr, en_world := w'\<rparr>"]
          session_gro_stats [of k "en\<lparr>en_free := fr, en_world := w'\<rparr>"] by (simp_all add: gro)
      have "good c (en1\<lparr>en_free := Suc (en_free en1)\<rparr>)"
        using g fr excused_life [OF f(5)] by (simp add: good_def engine_ok_def tally_def f)
      note add = add_session_good [OF this, of client k remote t gr]
      have "so = Some (fst (add_session k client remote t gr en1))" "en' = snd (add_session k client remote t gr en1)"
        using op Cons acq conn True Inr by (auto simp: open_session_def gro split: prod.splits)
      then show ?thesis using add free by (simp add: f)
    qed
  qed
qed

lemma find_session_Some:
  "find_session client en = Some s \<Longrightarrow> s \<in> set (en_sessions en) \<and> se_listed s \<and> se_client s = client"
  by (auto simp: find_session_def find_Some_iff)

lemma find_session_None:
  "find_session client en = None \<Longrightarrow> s \<in> set (en_sessions en) \<Longrightarrow> se_listed s \<Longrightarrow> se_client s \<noteq> client"
  by (auto simp: find_session_def find_None_iff)

lemma listed_unique:
  assumes "good c en" "s \<in> set (en_sessions en)" "t \<in> set (en_sessions en)" "se_listed s" "se_listed t"
    and "se_client s = se_client t"
  shows "s = t"
proof -
  have "inj_on se_client (set (filter se_listed (en_sessions en)))"
    using assms(1) by (simp add: good_def engine_ok_def sessions_ok_def distinct_map)
  from inj_onD [OF this assms(6)] assms show ?thesis by simp
qed

lemma unlist_found:
  assumes "good c en" and "find_session client en = Some s"
    and "t \<in> set (en_sessions (unlist_where (\<lambda>t. se_id t = se_id s) en))" and "se_listed t"
  shows "se_client t \<noteq> client"
proof
  assume c: "se_client t = client"
  have t: "t \<in> set (en_sessions en)" "se_id t \<noteq> se_id s"
    using assms(3,4) by (auto simp: unlist_where_def reap_def Let_def split: if_splits)
  have "t = s" using listed_unique [OF assms(1) t(1)] find_session_Some [OF assms(2)] assms(4) c by blast
  with t(2) show False by simp
qed

lemma on_client_good:
  assumes g: "good c en" and key: "\<And>sd. sending_key (forward data sd) = sending_key sd"
    and on: "on_client k forward n client data t (en, ba) = (en', ba')"
  shows "good c en'"
proof -
  have send: "good c (fst (absorb e (forward data (sending_of e b s))))" if "good c e" "s \<in> set (en_sessions e)" for e b s
    using that by (intro absorb_good) (simp_all add: key, simp add: sending_key_def sending_of_def)
  have fresh: "good c en2"
    if "good c e" and free: "\<And>s. s \<in> set (en_sessions e) \<Longrightarrow> se_listed s \<Longrightarrow> se_client s \<noteq> client"
      and res: "(case open_session k client t n (e, ba) of
        (None, en', ba') \<Rightarrow> (en', ba')
      | (Some s, en', ba') \<Rightarrow> absorb en' (forward data (sending_of en' ba' s))) = (en2, ba2)" for e en2 ba2
  proof -
    obtain so en1 ba1 where op: "open_session k client t n (e, ba) = (so, en1, ba1)" by (metis prod.exhaust)
    note o = open_session_good [OF that(1) free op]
    show ?thesis
    proof (cases so)
      case None
      with res o show ?thesis by (simp add: op)
    next
      case (Some s)
      with res have "absorb en1 (forward data (sending_of en1 ba1 s)) = (en2, ba2)" by (simp add: op)
      then show ?thesis using send [of en1 s ba1] o Some by simp
    qed
  qed
  show ?thesis
  proof (cases "find_session client en")
    case None
    with on show ?thesis
      by (intro fresh [OF g, of en' ba']) (auto simp: on_client_def Let_def dest: find_session_None)
  next
    case (Some s)
    show ?thesis
    proof (cases "se_dead s")
      case True
      let ?e = "unlist_where (\<lambda>t. se_id t = se_id s) en"
      have "good c ?e" using g unlist_keeps [of en] by (simp add: good_def)
      then show ?thesis
        by (rule fresh) (use Some True on unlist_found [OF g Some] in \<open>auto simp: on_client_def Let_def\<close>)
    next
      case False
      with Some on have "absorb en (forward data (sending_of en ba s)) = (en', ba')"
        by (simp add: on_client_def Let_def)
      then show ?thesis using send [OF g, of s ba] find_session_Some [OF Some] by simp
    qed
  qed
qed

section \<open>Invariants of the listener's loop\<close>

text \<open>
  What a property of the engine has to survive so that a whole drain of the listener keeps
  it: the system calls, the log gates, the counters and the handling of one buffer.
\<close>

locale engine_invariant =
  fixes P :: "'w engine \<Rightarrow> bool" and k :: "'w udp_kernel"
  assumes world: "P en \<Longrightarrow> P (en\<lparr>en_world := w\<rparr>)"
    and recv_failed: "P en \<Longrightarrow> P (gate_recv_failed k en)"
    and gro_trunc: "P en \<Longrightarrow> P (gate_gro_trunc k en)"
    and counters: "P en \<Longrightarrow> P (en\<lparr>en_stats := flush_sent ba (en_stats en)\<rparr>)"
    and client: "P en \<Longrightarrow> (\<And>sd. sending_key (forward data sd) = sending_key sd)
      \<Longrightarrow> on_client k forward n addr data t (en, ba) = (en', ba') \<Longrightarrow> P en'"
begin

lemma datagram: "P en \<Longrightarrow> on_client_datagram k addr data t (en, ba) = (en', ba') \<Longrightarrow> P en'"
  unfolding on_client_datagram_def by (rule client) simp_all

lemma buffer:
  assumes "P en" and "on_client_buffer k addr data segment t (en, ba) = (en', ba')"
  shows "P en'"
proof (cases "is_coalesced (length data) segment")
  case True
  with assms(2) have "on_client k (\<lambda>data. forward_upstream_coalesced k t data segment)
      (segments (length data) segment) addr data t (en, ba) = (en', ba')"
    by (simp add: on_client_buffer_def)
  from client [OF assms(1) _ this] show ?thesis by simp
next
  case False
  with assms show ?thesis by (auto simp: on_client_buffer_def elim: datagram)
qed

lemma drain_loop: "P en \<Longrightarrow> drain_loop m k t (en, ba) got = (r, (en', ba'), got') \<Longrightarrow> P en'"
proof (induction m arbitrary: en ba got)
  case (Suc n)
  obtain ans w' where recv: "uk_recv_from k (en_world en) = (ans, w')" by fastforce
  have g: "P (en\<lparr>en_world := w'\<rparr>)" using Suc.prems(1) by (rule world)
  show ?case
  proof (cases ans)
    case (Inr dc)
    obtain data addr where dc: "dc = (data, addr)" by fastforce
    obtain en1 ba1 where on: "on_client_datagram k addr data t (en\<lparr>en_world := w'\<rparr>, ba) = (en1, ba1)" by fastforce
    show ?thesis
      by (rule Suc.IH [OF datagram [OF g on]]) (use Suc.prems in \<open>simp add: recv Inr dc on\<close>)
  next
    case (Inl e)
    then show ?thesis
      using Suc.prems(2) Suc.IH [OF g] g recv_failed [OF g] by (cases "classify_udp_err e") (auto simp: recv)
  qed
qed simp

lemma drain_gro_loop: "P en \<Longrightarrow> drain_gro_loop m k t (en, ba) got = (r, (en', ba'), got') \<Longrightarrow> P en'"
proof (induction m arbitrary: en ba got)
  case (Suc n)
  obtain ans w' where recv: "uk_recv_gro k (en_world en) = (ans, w')" by fastforce
  let ?en = "en\<lparr>en_world := w'\<rparr>"
  have g: "P ?en" using Suc.prems(1) by (rule world)
  show ?case
  proof (cases ans)
    case (Inr m)
    consider (nobody) "gr_from m = None" | (trunc) addr where "gr_from m = Some addr" "gr_truncated m"
      | (whole) addr where "gr_from m = Some addr" "\<not> gr_truncated m" by fastforce
    then show ?thesis
    proof cases
      case nobody
      then show ?thesis using Suc.IH [OF g] Suc.prems(2) by (simp add: recv Inr)
    next
      case trunc
      show ?thesis
        by (rule Suc.IH [OF gro_trunc [OF g]]) (use Suc.prems(2) trunc in \<open>simp add: recv Inr Let_def\<close>)
    next
      case whole
      obtain en1 ba1 where on: "on_client_buffer k addr (gr_data m) (gr_segment m) t (?en, ba) = (en1, ba1)" by fastforce
      show ?thesis
        by (rule Suc.IH [OF buffer [OF g on]]) (use Suc.prems whole in \<open>simp add: recv Inr on\<close>)
    qed
  next
    case (Inl e)
    then show ?thesis
      using Suc.prems(2) Suc.IH [OF g] g recv_failed [OF g] by (cases "classify_udp_err e") (auto simp: recv)
  qed
qed simp

lemma readable:
  assumes "P en"
  shows "P (snd (on_readable k en))"
proof -
  let ?t = "elapsed_ms (uk_now k (en_world en)) (en_stats en)"
  obtain r en1 ba got where d: "drain_loop LISTENER_BATCH k ?t (en, batch_default) 0 = (r, (en1, ba), got)"
    by (metis prod.exhaust)
  obtain r' en1' ba' got' where d': "drain_gro_loop LISTENER_BATCH k ?t (en, batch_default) 0 = (r', (en1', ba'), got')"
    by (metis prod.exhaust)
  show ?thesis
    using counters [OF drain_loop [OF assms d]] counters [OF drain_gro_loop [OF assms d']]
    by (simp add: on_readable_def drain_listener_def drain_listener_gro_def d d' Let_def)
qed

end

interpretation table: engine_invariant "good c" k for c k
proof
  show "good c en'" if "good c en" "\<And>sd. sending_key (forward data sd) = sending_key sd"
      "on_client k forward n addr data t (en, ba) = (en', ba')" for en forward data n addr t ba en' ba'
    using that by (rule on_client_good)
qed (simp_all add: good_stats)

section \<open>Replies\<close>

lemma replace_ok:
  assumes ok: "sessions_ok n X ss" and s: "s \<in> set ss" and id: "se_id s' = se_id s" and client: "se_client s' = se_client s"
    and life: "se_listed s' = se_listed s" "se_task s' = se_task s" "se_dead s \<longrightarrow> se_dead s'"
  shows "sessions_ok n X (replace_session s' ss)" "list_all session_alive ss \<Longrightarrow> list_all session_alive (replace_session s' ss)"
proof -
  have only: "t = s" if "t \<in> set ss" "se_id t = se_id s" for t
    using ok s that by (auto simp: sessions_ok_def distinct_map inj_on_def)
  show "sessions_ok n X (replace_session s' ss)"
    unfolding replace_session_def
  proof (rule sessions_ok_map [OF ok])
    let ?f = "\<lambda>t. if se_id t = se_id s' then s' else t"
    show "se_id (?f t) = se_id t \<and> se_client (?f t) = se_client t \<and> (se_listed (?f t) \<longrightarrow> se_listed t)" if "t \<in> set ss" for t
      using only [OF that] id client life by auto
    show "se_dead (?f t) \<or> se_id t \<in> X" if "t \<in> set ss" "se_listed (?f t)" "\<not> se_task (?f t)" for t
      using that ok s life id unfolding sessions_ok_def by (cases "se_id t = se_id s'") auto
  qed
  show "list_all session_alive (replace_session s' ss)" if "list_all session_alive ss"
    using that s life by (auto simp: list_all_iff replace_session_def session_alive_def)
qed

definition replying_key :: "'w replying \<Rightarrow> (nat \<times> socket_addr \<times> bool \<times> bool) \<times> u64 \<times> bool" where
  "replying_key rp =
     ((se_id (rp_session rp), se_client (rp_session rp), se_listed (rp_session rp), se_task (rp_session rp)),
      sx_active_connections (rp_stats rp), sx_listening (rp_stats rp))"

abbreviation rp_dead :: "'w replying \<Rightarrow> bool" where
  "rp_dead rp \<equiv> se_dead (rp_session rp)"

lemma replying_simps [simp]:
  "replying_key (count_reply n b rp) = replying_key rp" "rp_dead (count_reply n b rp) = rp_dead rp"
  "replying_key (count_reply_dropped n rp) = replying_key rp" "rp_dead (count_reply_dropped n rp) = rp_dead rp"
  "replying_key (rp\<lparr>rp_world := w\<rparr>) = replying_key rp" "replying_key (rp\<lparr>rp_gso_ok := d\<rparr>) = replying_key rp"
  "replying_key (rp\<lparr>rp_stats := mark_udp_icmp_error t kind (rp_stats rp)\<rparr>) = replying_key rp"
  "replying_key (rp\<lparr>rp_session := (rp_session rp)\<lparr>se_dead := d\<rparr>\<rparr>) = replying_key rp"
  by (simp_all add: replying_key_def count_reply_def count_reply_dropped_def)

lemma reply_one_key:
  "replying_key (snd (reply_one k data rp)) = replying_key rp \<and> rp_dead (snd (reply_one k data rp)) = rp_dead rp"
  by (simp add: reply_one_def split: prod.split sum.split)

lemma reply_pieces_key:
  "replying_key (snd (reply_pieces k pieces rp)) = replying_key rp \<and> rp_dead (snd (reply_pieces k pieces rp)) = rp_dead rp"
proof (induction k pieces rp rule: reply_pieces.induct)
  case (2 k piece pieces rp)
  then show ?case
    using reply_one_key [of k piece rp] by (cases "reply_one k piece rp") (auto split: bool.split)
qed simp

lemma reply_coalesced_key:
  "replying_key (snd (reply_coalesced k data segment rp)) = replying_key rp
   \<and> rp_dead (snd (reply_coalesced k data segment rp)) = rp_dead rp"
proof -
  have one: "replying_key (snd (case reply_pieces k ps q of ([], rp') \<Rightarrow> (None, rp') | (x # xs, rp') \<Rightarrow> (Some (concat (x # xs), segment), rp'))) = replying_key q
      \<and> rp_dead (snd (case reply_pieces k ps q of ([], rp') \<Rightarrow> (None, rp') | (x # xs, rp') \<Rightarrow> (Some (concat (x # xs), segment), rp'))) = rp_dead q"
    for ps and q :: "'a replying"
    using reply_pieces_key [of k ps q] by (auto split: prod.split list.split)
  show ?thesis
    unfolding reply_coalesced_def Let_def by (auto simp: one split: prod.split gso_send.split)
qed

lemma drain_up_loop_key:
  "drain_up_loop n k t rp replied got = (r, rp', replied', got')
   \<Longrightarrow> replying_key rp' = replying_key rp \<and> rp_dead rp' = (rp_dead rp \<or> r = SdDead)"
proof (induction n arbitrary: rp replied got)
  case (Suc n)
  obtain ans w' where recv: "recv_upstream (uk_recv_up k (se_id (rp_session rp))) (rp_world rp) = (ans, w')" by fastforce
  show ?case
  proof (cases ans)
    case (Inr data)
    obtain b rp1 where one: "reply_one k data (rp\<lparr>rp_world := w'\<rparr>) = (b, rp1)" by fastforce
    show ?thesis
      using Suc.prems Suc.IH [of rp1 True "got + 1"] reply_one_key [of k data "rp\<lparr>rp_world := w'\<rparr>"]
      by (cases b) (auto simp: recv Inr one)
  next
    case (Inl e)
    then show ?thesis
      using Suc.prems Suc.IH [of "rp\<lparr>rp_world := w'\<rparr>" replied got]
        Suc.IH [of "rp\<lparr>rp_world := w', rp_stats := mark_udp_icmp_error t kind (rp_stats rp)\<rparr>" replied got for kind]
      by (cases "classify_udp_err e") (auto simp: recv Let_def replying_key_def)
  qed
qed auto

lemma drain_up_gro_loop_key:
  "drain_up_gro_loop n k t rp replied got = (r, rp', replied', got')
   \<Longrightarrow> replying_key rp' = replying_key rp \<and> rp_dead rp' = (rp_dead rp \<or> r = SdDead)"
proof (induction n arbitrary: rp replied got)
  case (Suc n)
  obtain ans w' where recv: "recv_upstream (uk_recv_up_gro k (se_id (rp_session rp))) (rp_world rp) = (ans, w')" by fastforce
  let ?rp = "rp\<lparr>rp_world := w'\<rparr>"
  show ?case
  proof (cases ans)
    case (Inr m)
    let ?data = "gr_data m" and ?seg = "gr_segment m"
    let ?segs = "segments (length ?data) ?seg"
    note unfold = recv Inr Let_def
    consider (trunc) "gr_truncated m" | (single) "\<not> gr_truncated m" "\<not> is_coalesced (length ?data) ?seg"
      | (burst) "\<not> gr_truncated m" "is_coalesced (length ?data) ?seg" by blast
    then show ?thesis
    proof cases
      case trunc
      then show ?thesis using Suc.prems Suc.IH [of "count_reply_dropped ?segs ?rp" True "got + ?segs"] by (simp add: unfold)
    next
      case single
      obtain b rp1 where one: "reply_one k ?data ?rp = (b, rp1)" by fastforce
      show ?thesis
        using Suc.prems single Suc.IH [of rp1 True "got + ?segs"] reply_one_key [of k ?data ?rp]
        by (cases b) (auto simp: unfold one)
    next
      case burst
      obtain pend rp1 where c: "reply_coalesced k ?data ?seg ?rp = (pend, rp1)" by fastforce
      show ?thesis
        using Suc.prems burst Suc.IH [of rp1 True "got + ?segs"] reply_coalesced_key [of k ?data ?seg ?rp]
        by (cases pend) (auto simp: unfold c)
    qed
  next
    case (Inl e)
    then show ?thesis
      using Suc.prems Suc.IH [of ?rp replied got]
        Suc.IH [of "rp\<lparr>rp_world := w', rp_stats := mark_udp_icmp_error t kind (rp_stats rp)\<rparr>" replied got for kind]
      by (cases "classify_udp_err e") (auto simp: recv Let_def replying_key_def)
  qed
qed auto

lemma flush_replies_key:
  "replying_key (flush_replies t replied rp) = replying_key rp \<and> rp_dead (flush_replies t replied rp) = rp_dead rp"
  by (simp add: flush_replies_def Let_def replying_key_def touch_def)

lemma drain_upstream_key:
  assumes "drain_upstream k en s = (r, rp, got)"
  shows "replying_key rp = ((se_id s, se_client s, se_listed s, se_task s), sx_active_connections (en_stats en), sx_listening (en_stats en))
    \<and> rp_dead rp = (se_dead s \<or> r = SdDead)"
proof -
  let ?t = "elapsed_ms (uk_now k (en_world en)) (en_stats en)" and ?rp = "replying_of en s"
  obtain r1 rp1 replied got1 where d: "(if se_gro s then drain_up_gro_loop SESSION_BATCH k ?t ?rp False 0
      else drain_up_loop SESSION_BATCH k ?t ?rp False 0) = (r1, rp1, replied, got1)" by (metis prod.exhaust)
  have "replying_key rp1 = replying_key ?rp \<and> rp_dead rp1 = (rp_dead ?rp \<or> r1 = SdDead)"
    using drain_up_loop_key [of SESSION_BATCH k ?t ?rp False 0] drain_up_gro_loop_key [of SESSION_BATCH k ?t ?rp False 0] d
    by (auto split: if_splits)
  moreover have "r = r1" "rp = flush_replies ?t replied rp1"
    using assms d by (simp_all add: drain_upstream_def Let_def)
  ultimately show ?thesis
    using flush_replies_key [of ?t replied rp1] by (simp add: replying_key_def replying_of_def)
qed

lemma send_blocked_key:
  "replying_key (fold (send_blocked_piece k) pieces rp) = replying_key rp
   \<and> rp_dead (fold (send_blocked_piece k) pieces rp) = rp_dead rp"
proof (induction pieces arbitrary: rp)
  case (Cons p ps)
  have "replying_key (send_blocked_piece k p rp) = replying_key rp \<and> rp_dead (send_blocked_piece k p rp) = rp_dead rp"
    by (simp add: send_blocked_piece_def replying_key_def split: prod.split sum.split)
  with Cons show ?case by simp
qed simp

lemma absorb_reply_good:
  assumes g: "good c en" and s: "s \<in> set (en_sessions en)"
    and key: "replying_key rp = ((se_id s, se_client s, se_listed s, se_task s), sx_active_connections (en_stats en), sx_listening (en_stats en))"
    and dead: "se_dead s \<longrightarrow> rp_dead rp"
  shows "good c (absorb_reply en rp)"
    and "t \<in> set (en_sessions (absorb_reply en rp)) \<Longrightarrow> se_id t = se_id s \<Longrightarrow> t = rp_session rp"
proof -
  have ok: "sessions_ok (en_next_id en) (excused en) (en_sessions en)" "list_all session_alive (en_sessions en)"
    using g by (simp_all add: good_def engine_ok_def)
  note r = replace_ok [OF ok(1) s, of "rp_session rp"]
  have "engine_ok (absorb_reply en rp)"
    using r ok(2) key dead by (simp add: engine_ok_def absorb_reply_def replying_key_def)
  moreover have "tally (absorb_reply en rp) = tally en"
    using key by (simp add: tally_def absorb_reply_def replying_key_def replace_session_def life_def)
  ultimately show "good c (absorb_reply en rp)" using g by (simp add: good_def)
  show "t \<in> set (en_sessions (absorb_reply en rp)) \<Longrightarrow> se_id t = se_id s \<Longrightarrow> t = rp_session rp"
    using key by (auto simp: absorb_reply_def replace_session_def replying_key_def split: if_splits)
qed

lemma end_task_good:
  assumes "good c en"
    and "\<And>t. t \<in> set (en_sessions en) \<Longrightarrow> se_id t = se_id s \<Longrightarrow> se_dead t \<or> \<not> se_listed t \<or> se_id s \<in> excused en"
  shows "good c (end_task s en)"
  using end_task_keeps [of en s] assms by (simp add: good_def engine_ok_def)

lemma session_turn_good:
  assumes g: "good c en" and s: "s \<in> set (en_sessions en)" and cut: "sends = None \<or> session_cancelled en s"
  shows "good c (session_turn k ready sends s en)"
proof (cases ready)
  case False
  let ?en = "en\<lparr>en_sessions := replace_session (s\<lparr>se_dead := True\<rparr>) (en_sessions en)\<rparr>"
  have "good c ?en"
    using g replace_ok [of "en_next_id en" "excused en" "en_sessions en" s "s\<lparr>se_dead := True\<rparr>"] s
    by (simp add: good_def engine_ok_def tally_def) (simp add: replace_session_def)
  moreover have "se_dead t \<or> \<not> se_listed t \<or> se_id s \<in> excused ?en" if "t \<in> set (en_sessions ?en)" "se_id t = se_id s" for t
    using that by (auto simp: replace_session_def split: if_splits)
  ultimately have "good c (end_task s ?en)" by (rule end_task_good)
  with False show ?thesis by (simp add: session_turn_def)
next
  case True
  obtain r rp got where d: "drain_upstream k en s = (r, rp, got)" by (metis prod.exhaust)
  note key = drain_upstream_key [OF d]
  have absorb: "good c (absorb_reply en q)" if "replying_key q = replying_key rp" "rp_dead q = rp_dead rp" for q
    using that key by (intro absorb_reply_good(1) [OF g s]) auto
  have finish: "good c (end_task s (absorb_reply en q))"
    if "replying_key q = replying_key rp" "rp_dead q = rp_dead rp" "r = SdDead \<or> session_cancelled en s" for q
  proof (rule end_task_good [OF absorb [OF that(1,2)]])
    fix t assume "t \<in> set (en_sessions (absorb_reply en q))" "se_id t = se_id s"
    then have "t = rp_session q"
      using absorb_reply_good(2) [OF g s, of q t] that(1,2) key by auto
    then show "se_dead t \<or> \<not> se_listed t \<or> se_id s \<in> excused (absorb_reply en q)"
      using that key by (auto simp: replying_key_def session_cancelled_def excused_def absorb_reply_def)
  qed
  note pieces = send_blocked_key [of k _ rp]
  show ?thesis
    using True cut absorb [of rp] finish [of rp] absorb [OF pieces [THEN conjunct1] pieces [THEN conjunct2]]
      finish [OF pieces [THEN conjunct1] pieces [THEN conjunct2]]
    by (cases r; cases sends) (auto simp: session_turn_def d Let_def)
qed

section \<open>Every step\<close>

lemma same_off [simp]: "good c (en\<lparr>en_off := off\<rparr>) = good c en"
  by (simp add: good_def engine_ok_def tally_def)

lemma apply_gro_knob_good [simp]: "good c en \<Longrightarrow> good c (apply_gro_knob k en)"
  by (simp add: apply_gro_knob_def Let_def good_def engine_ok_def tally_def split: prod.split sum.split)

lemma unlist_good: "good c en \<Longrightarrow> good c (unlist_where P en)"
  using unlist_keeps [of en P] by (simp add: good_def)

lemma dns_refresh_good:
  assumes "good c en"
  shows "good c (snd (snd (dns_refresh cfg resolver now (g, en))))"
proof (cases "resolve_targets (fc_remote_host cfg) (fc_remote_port cfg) None resolver")
  case (Inl e)
  with assms show ?thesis by (simp add: dns_refresh_def good_stats)
next
  case (Inr addrs)
  obtain old st where o: "observe_addrs (map sa_ip addrs) (en_stats en) = (old, st)" by fastforce
  then have "sx_active_connections st = sx_active_connections (en_stats en)" "sx_listening st = sx_listening (en_stats en)"
    using active_observe [of "map sa_ip addrs" "en_stats en"] listening_observe [of "map sa_ip addrs" "en_stats en"] by simp_all
  with assms Inr show ?thesis by (simp add: dns_refresh_def o Let_def good_def engine_ok_def tally_def life_stats)
qed

lemma sessions_ok_mono: "sessions_ok n X ss \<Longrightarrow> X \<subseteq> Y \<Longrightarrow> sessions_ok n Y ss"
  by (auto simp: sessions_ok_def)

text \<open>A change of the forwarder's own life keeps the table in order when it excuses at least as many sessions.\<close>

lemma good_life:
  assumes "good (n, g, l) en" and "en_sessions en' = en_sessions en" "en_next_id en' = en_next_id en" "en_free en' = en_free en"
    and "sx_active_connections (en_stats en') = sx_active_connections (en_stats en)" and "excused en \<subseteq> excused en'"
  shows "good (n, g, life en') en'"
  using assms sessions_ok_mono [of "en_next_id en" "excused en" "en_sessions en" "excused en'"]
  by (simp add: good_def engine_ok_def tally_def)

text \<open>How the life of a forwarder goes on: a step leaves it where it is, except for the panics it records, or takes the next phase.\<close>

definition life_step :: "engine_life \<Rightarrow> engine_life \<Rightarrow> bool" where
  "life_step l l' \<longleftrightarrow>
     (case (l, l') of ((lst, ph, _), (lst', ph', _)) \<Rightarrow>
        (lst', ph') = (lst, ph) \<or> (ph, lst', ph') = (LoopRuns, lst, LoopCancelled) \<or> (ph, lst', ph') = (LoopCancelled, lst, Closing)
        \<or> (ph, lst', ph') = (Closing, False, Returned))"

lemma life_step_refl [simp]: "life_step l l"
  by (simp add: life_step_def split: prod.split)

lemma good_life_eq: "good (n, g, l) en \<Longrightarrow> life en = l"
  by (simp add: good_def tally_def)

lemma panic_good:
  assumes g: "good (n, c, l) en" and s: "s \<in> set (en_sessions en)"
  shows "good (n, c, life (en\<lparr>en_panicked := se_id s # en_panicked en\<rparr>)) (end_task s (en\<lparr>en_panicked := se_id s # en_panicked en\<rparr>))"
proof -
  let ?en = "en\<lparr>en_panicked := se_id s # en_panicked en\<rparr>"
  have "good (n, c, life ?en) ?en" by (rule good_life [OF g]) (auto simp: excused_def)
  then show ?thesis by (rule end_task_good) (auto simp: excused_def)
qed

lemma engine_step_good:
  assumes "engine_step k en en'" and g: "good (n, c, l) en"
  shows "\<exists>l'. good (n, c, l') en' \<and> life_step l l'"
proof -
  have keep: ?thesis if "good (n, c, l) en'" using that life_step_refl by blast
  have l: "l = life en" using good_life_eq [OF g] by simp
  from assms(1) show ?thesis
  proof cases
    case tick
    then show ?thesis using g by (intro keep) (simp add: on_tick_def sweep_def unlist_good)
  next
    case targets
    then show ?thesis using g by (intro keep) (simp add: on_targets_changed_def unlist_good)
  next
    case (cancelled s)
    have "t = s" if "t \<in> set (en_sessions en)" "se_id t = se_id s" for t
      using cancelled that good_distinct [OF g] by (auto simp: distinct_map inj_on_def)
    with cancelled g show ?thesis by (intro keep) (auto intro!: end_task_good simp: session_cancelled_def excused_def)
  next
    case (panicked s)
    then show ?thesis using panic_good [OF g panicked(2)] l by (auto simp: life_def life_step_def)
  next
    case stop
    have "good (n, c, life en') en'" by (rule good_life [OF g]) (auto simp: stop excused_def)
    with stop l show ?thesis by (auto simp: life_def life_step_def)
  next
    case close
    have "good (n, c, l) (close_all en)" using g by (simp add: close_all_def unlist_good)
    then have "good (n, c, life en') en'" "life (close_all en) = l"
      by (auto simp: close excused_def dest: good_life_eq intro!: good_life)
    with close l show ?thesis by (auto simp: life_def life_step_def)
  next
    case joined
    have "good (n, c, life en') en'" by (rule good_life [OF g]) (auto simp: joined return_forwarder_def excused_def set_listening_def)
    with joined l show ?thesis by (auto simp: life_def life_step_def return_forwarder_def set_listening_def)
  next
    case grace_over
    have "good (n, c, life en') en'" by (rule good_life [OF g]) (auto simp: grace_over return_forwarder_def excused_def set_listening_def)
    with grace_over l show ?thesis by (auto simp: life_def life_step_def return_forwarder_def set_listening_def)
  next
    case (environment st w kn al)
    then show ?thesis using g by (intro keep) (simp add: good_def engine_ok_def tally_def life_stats)
  next
    case readable
    then show ?thesis using g by (intro keep) (simp add: table.readable)
  next
    case readiness_failed
    then show ?thesis using g by (intro keep) simp
  next
    case (refresh cfg resolver now fail_gate)
    then show ?thesis using g by (intro keep) (simp add: dns_refresh_good)
  next
    case (reply s sends ready)
    then show ?thesis using g by (intro keep) (simp add: session_turn_good)
  qed
qed

section \<open>The plane\<close>

definition udp_held :: "nat \<times> 'w engine list \<Rightarrow> nat" where
  "udp_held pl = sum_list (map (\<lambda>en. length (en_sessions en)) (snd pl))"

text \<open>Each table is in order and each gauge counts the sessions of its engine.\<close>

definition udp_plane_ok :: "nat \<times> 'w engine list \<Rightarrow> bool" where
  "udp_plane_ok pl \<longleftrightarrow>
     (\<forall>en \<in> set (snd pl). engine_ok en \<and> sx_active_connections (en_stats en) = of_nat (length (en_sessions en)))"

lemma engine_step_counts:
  assumes "engine_step k (en\<lparr>en_free := free\<rparr>) en'" and "engine_ok en"
    and "sx_active_connections (en_stats en) = of_nat (length (en_sessions en))"
  shows "engine_ok en'" "sx_active_connections (en_stats en') = of_nat (length (en_sessions en'))"
    "en_free en' + length (en_sessions en') = free + length (en_sessions en)"
proof -
  have "good (free + length (en_sessions en), 0, life en) (en\<lparr>en_free := free\<rparr>)"
    using assms(2,3) by (simp add: good_def engine_ok_def tally_def)
  from engine_step_good [OF assms(1) this]
  show "engine_ok en'" "sx_active_connections (en_stats en') = of_nat (length (en_sessions en'))"
    "en_free en' + length (en_sessions en') = free + length (en_sessions en)"
    by (auto simp: good_def tally_def)
qed

interpretation udp_permits: permit_pool udp_plane_ok "udp_plane_step k" fst udp_held for k
proof
  fix pl pl' :: "nat \<times> 'a engine list"
  assume ok: "udp_plane_ok pl" and step: "udp_plane_step k pl pl'"
  have "udp_plane_ok pl' \<and> fst pl' + udp_held pl' = fst pl + udp_held pl"
    using step
  proof cases
    case (start stats free es cfg literal knobs al w)
    then show ?thesis using ok by (auto simp: udp_plane_ok_def udp_held_def engine_new_def engine_ok_def sessions_ok_def)
  next
    case (engine i es free en')
    have "engine_ok (es ! i)" "sx_active_connections (en_stats (es ! i)) = of_nat (length (en_sessions (es ! i)))"
      using ok engine by (auto simp: udp_plane_ok_def)
    note c = engine_step_counts [OF engine(4) this]
    have "udp_plane_ok pl'"
      using ok c engine by (auto simp: udp_plane_ok_def dest!: subsetD [OF set_update_subset_insert])
    moreover have "sum_list (map (\<lambda>en. length (en_sessions en)) (es[i := en'])) + length (en_sessions (es ! i))
        = sum_list (map (\<lambda>en. length (en_sessions en)) es) + length (en_sessions en')"
      using engine(3) elem_le_sum_list [of i "map (\<lambda>en. length (en_sessions en)) es"] by (simp add: map_update sum_list_update)
    ultimately show ?thesis using c(3) engine by (simp add: udp_held_def)
  qed
  then show "udp_plane_ok pl'" "fst pl' + udp_held pl' = fst pl + udp_held pl" by simp_all
qed

text \<open>
  C1. The limit on UDP sessions holds over all forwarders at once and at all times. However
  forwarders are started and stopped and their loops, session tasks, resolver answers,
  cancellations and panics of session tasks interleave, the sessions whose upstream socket
  exists, those already evicted from their table included, never exceed \<open>udp_max_sessions\<close>: every
  slot is either free or held by one of them, and each forwarder's gauge is exactly the number
  of its own. A client has at most one listed session, and a listed session that has lost its
  reply task is marked dead, so that the client's next datagram replaces it, unless the task
  has panicked or the forwarder is being stopped.\<close>
theorem udp_session_limit:
  assumes "(udp_plane_step k)\<^sup>*\<^sup>* (limit, es) (free, es')"
    and "\<forall>en \<in> set es. en_sessions en = [] \<and> sx_active_connections (en_stats en) = 0"
  shows "sum_list (map (\<lambda>en. length (en_sessions en)) es') + free = limit
     \<and> (\<forall>en \<in> set es'. sx_active_connections (en_stats en) = of_nat (length (en_sessions en))
          \<and> distinct (map se_client (filter se_listed (en_sessions en)))
          \<and> (\<forall>s \<in> set (en_sessions en). se_listed s \<and> \<not> se_task s
               \<longrightarrow> se_dead s \<or> se_id s \<in> set (en_panicked en) \<or> en_phase en \<noteq> LoopRuns))"
proof -
  have "udp_plane_ok (limit, es)"
    using assms(2) by (simp add: udp_plane_ok_def engine_ok_def sessions_ok_def)
  moreover have "udp_held (limit, es) = 0" using assms(2) by (simp add: udp_held_def)
  ultimately have "udp_plane_ok (free, es')" "free + udp_held (free, es') = limit"
    using udp_permits.reachable [OF assms(1)] by simp_all
  then show ?thesis
    by (auto simp: udp_plane_ok_def engine_ok_def sessions_ok_def udp_held_def add.commute excused_def split: if_splits)
qed

definition sample_kernel :: "nat udp_kernel" where
  "sample_kernel =
     \<lparr>uk_now = (\<lambda>w. w), uk_now_again = (\<lambda>w. w),
      uk_recv_from = (\<lambda>w. if w = 0 then (Inr ([1, 2, 3], SocketAddr (V4 1) 53), 1)
                        else (Inl \<lparr>ioe_kind = WouldBlock, ioe_os = Some 11\<rparr>, w)),
      uk_recv_gro = (\<lambda>w. (Inl \<lparr>ioe_kind = WouldBlock, ioe_os = Some 11\<rparr>, w)),
      uk_connect = (\<lambda>w a b. (Inr (), w)), uk_set_gro = (\<lambda>w. (Inr (), w)),
      uk_send_up = (\<lambda>i w d g. (Inr (length d), w)),
      uk_recv_up = (\<lambda>i b w. (Inl \<lparr>ioe_kind = WouldBlock, ioe_os = Some 11\<rparr>, w)),
      uk_recv_up_gro = (\<lambda>i b w. (Inl \<lparr>ioe_kind = WouldBlock, ioe_os = Some 11\<rparr>, w)),
      uk_reply = (\<lambda>a w d g. (Inr (length d), w))\<rparr>"

definition sample_engine :: "nat engine" where
  "sample_engine =
     \<lparr>en_label = lit ''dns'', en_stats = with_protocol (lit ''dns'') Udp 0,
      en_knobs = knobs_from_settings settings_default, en_free = 2, en_alerts = notifier_start,
      en_targets = [SocketAddr (V4 9) 53], en_sessions = [], en_next_id = 0, en_gates = log_gates_default,
      en_last_limit_alert = None, en_off = offload_init, en_phase = LoopRuns, en_panicked = [], en_world = 0\<rparr>"

lemma sample_step: "engine_step sample_kernel sample_engine (snd (on_readable sample_kernel sample_engine))"
  by (rule engine_step.readable) (simp add: in_loop_def sample_engine_def)

lemmas drain_loop_numeral = drain_loop.simps(2) [of "pred_numeral v" for v, folded numeral_eq_Suc]

lemma sample_opens: "length (en_sessions (snd (on_readable sample_kernel sample_engine))) = 1"
  by (simp add: on_readable_def drain_listener_def sample_engine_def sample_kernel_def offload_init_def Let_def
      LISTENER_BATCH_def drain_loop_numeral on_client_datagram_def on_client_def find_session_def open_session_def
      try_acquire_def session_gro_def add_session_def absorb_def replace_session_def forward_upstream_def sending_of_def
      touch_session_def count_sent_def touch_def classify_udp_err_def)

theorem udp_session_limit_witness:
  "length (en_sessions (snd (on_readable sample_kernel sample_engine))) = 1
   \<and> length (en_sessions (snd (on_readable sample_kernel sample_engine)))
       + en_free (snd (on_readable sample_kernel sample_engine)) = 2"
proof -
  have "udp_plane_step sample_kernel (2, [sample_engine])
      (en_free (snd (on_readable sample_kernel sample_engine)), [sample_engine][0 := snd (on_readable sample_kernel sample_engine)])"
    using sample_step by (intro udp_plane_step.engine) (simp_all add: sample_engine_def)
  then have "(udp_plane_step sample_kernel)\<^sup>*\<^sup>* (2, [sample_engine])
      (en_free (snd (on_readable sample_kernel sample_engine)), [snd (on_readable sample_kernel sample_engine)])"
    by (auto intro: r_into_rtranclp)
  from udp_session_limit [OF this] show ?thesis
    using sample_opens by (simp add: sample_engine_def with_protocol_def)
qed

section \<open>Upkeep of the table\<close>

lemma unlist_listed:
  "filter se_listed (en_sessions (unlist_where P en)) = filter (\<lambda>s. \<not> P s) (filter se_listed (en_sessions en))"
proof -
  have "filter se_listed (filter session_alive (map (\<lambda>s. if se_listed s \<and> P s then s\<lparr>se_listed := False\<rparr> else s) ss))
      = filter (\<lambda>s. \<not> P s) (filter se_listed ss)" for ss
    by (induction ss) (auto simp: session_alive_def)
  then show ?thesis by (simp add: unlist_where_def reap_def Let_def)
qed

lemma unlist_targets: "en_targets (unlist_where P en) = en_targets en"
  by (simp add: unlist_where_def reap_def Let_def)

text \<open>
  Upkeep removes exactly the right sessions. A sweep leaves in the table the sessions that
  are alive and were active within the timeout, a change of the published addresses leaves
  those whose target is still published, closing leaves none, and each removes nothing else
  and changes nothing of a session that stays.\<close>
lemma table_upkeep_exact:
  "filter se_listed (en_sessions (sweep k en)) =
     filter (\<lambda>s. \<not> se_dead s \<and> sat_sub (elapsed_ms (uk_now k (en_world en)) (en_stats en)) (se_last_activity_ms s)
                                < sweep_timeout_ms (en_knobs en))
       (filter se_listed (en_sessions en))
   \<and> filter se_listed (en_sessions (on_targets_changed en)) =
       filter (\<lambda>s. se_remote s \<in> set (en_targets en)) (filter se_listed (en_sessions en))
   \<and> filter se_listed (en_sessions (close_all en)) = []"
proof -
  have "filter se_listed (en_sessions (sweep k en)) =
     filter (\<lambda>s. \<not> session_expired (elapsed_ms (uk_now k (en_world en)) (en_stats en)) (sweep_timeout_ms (en_knobs en)) s)
       (filter se_listed (en_sessions en))"
    unfolding sweep_def by (simp only: unlist_listed split: if_splits) auto
  then show ?thesis
    by (simp add: session_expired_def not_le on_targets_changed_def close_all_def unlist_listed)
qed

section \<open>The resolver\<close>

text \<open>
  C33. The published addresses follow the resolver. A failed lookup or an empty answer keeps
  the last known addresses and asks the monitor to probe; a good answer leaves published
  exactly the set of addresses it names, and the listener is told only when that set, not
  merely the order of the answer, has changed. The set is never emptied.\<close>
theorem dns_refresh_publishes:
  "case dns_refresh cfg resolver now (g, en) of (changed, g', en') \<Rightarrow>
     (case resolver (fc_remote_host cfg) of
        LookupOk ips \<Rightarrow>
          if ips = [] then \<not> changed \<and> en_targets en' = en_targets en \<and> sx_probe_kick (en_stats en')
          else set (en_targets en') = (\<lambda>ip. SocketAddr ip (fc_remote_port cfg)) ` set ips
             \<and> (changed \<longleftrightarrow> set (en_targets en) \<noteq> set (en_targets en'))
             \<and> en_targets en' = (if changed then map (\<lambda>ip. SocketAddr ip (fc_remote_port cfg)) ips else en_targets en)
      | _ \<Rightarrow> \<not> changed \<and> en_targets en' = en_targets en \<and> sx_probe_kick (en_stats en'))"
proof (cases "resolver (fc_remote_host cfg)")
  case (LookupOk ips)
  let ?addrs = "map (\<lambda>ip. SocketAddr ip (fc_remote_port cfg)) ips"
  obtain old st where o: "observe_addrs ips (en_stats en) = (old, st)" by fastforce
  show ?thesis
  proof (cases "ips = []")
    case False
    then show ?thesis
      using LookupOk
      by (auto simp: dns_refresh_def resolve_targets_def Let_def same_addr_set_def sort_dedup_eq_iff comp_def o)
  qed (use LookupOk in \<open>simp add: dns_refresh_def resolve_targets_def Let_def mark_connect_failed_def\<close>)
qed (simp_all add: dns_refresh_def resolve_targets_def mark_connect_failed_def)

end
