(* ===== verification/Udp_Latches.thy ===== *)
theory Udp_Latches
  imports Udp_Sessions
begin

text \<open>
  The switches of segmentation offload. A receive must look for coalesced bursts from before
  \<open>UDP_GRO\<close> is set on the listener, the option is never cleared, and the two refusals of the
  kernel (no GRO, no GSO on the listener) are permanent: invariants of every run of the engine.
\<close>

definition offload_ok :: "offload \<Rightarrow> bool" where
  "offload_ok off \<longleftrightarrow> (of_gro_set off \<longrightarrow> of_gro_aware off) \<and> (of_enabled off \<longrightarrow> of_gro_set off)"

definition offload_later :: "offload \<Rightarrow> offload \<Rightarrow> bool" where
  "offload_later a b \<longleftrightarrow>
     (of_gro_set a \<longrightarrow> of_gro_set b) \<and> (of_gro_aware a \<longrightarrow> of_gro_aware b)
     \<and> (of_unsupported a \<longrightarrow> of_unsupported b) \<and> (of_gso_ok b \<longrightarrow> of_gso_ok a)
     \<and> (of_unsupported a \<and> \<not> of_enabled a \<longrightarrow> \<not> of_enabled b)"

definition latched :: "offload \<Rightarrow> 'w engine \<Rightarrow> bool" where
  "latched o0 en \<longleftrightarrow> offload_ok (en_off en) \<and> offload_later o0 (en_off en)"

lemma latched_cong: "en_off en' = en_off en \<Longrightarrow> latched o0 en \<Longrightarrow> latched o0 en'"
  by (simp add: latched_def)

lemma latched_unsupported: "latched o0 en \<Longrightarrow> latched o0 (mark_gro_unsupported en)"
  by (simp add: latched_def offload_ok_def offload_later_def mark_gro_unsupported_def)

section \<open>The listener\<close>

lemma off_frames [simp]:
  "en_off (reap en) = en_off en" "en_off (unlist_where P en) = en_off en" "en_off (fst (absorb en sd)) = en_off en"
  "en_off (gate_no_target k en) = en_off en" "en_off (gate_open_failed k en) = en_off en"
  "en_off (gate_recv_failed k en) = en_off en" "en_off (gate_gro_trunc k en) = en_off en"
  "en_off (reject_session k n en) = en_off en" "en_off (snd (add_session k c r t b en)) = en_off en"
  "en_off (end_task s en) = en_off en" "en_off (sweep k en) = en_off en"
  by (simp_all add: reap_def unlist_where_def absorb_def gate_no_target_def gate_open_failed_def gate_recv_failed_def
      gate_gro_trunc_def reject_session_def add_session_def end_task_def sweep_def Let_def)

lemma session_gro_latched: "latched o0 en \<Longrightarrow> latched o0 (snd (session_gro k en))"
  by (auto simp: session_gro_def latched_def offload_ok_def offload_later_def mark_gro_unsupported_def
      split: prod.split sum.split)

lemma open_session_latched:
  assumes l: "latched o0 en" and op: "open_session k client t n (en, ba) = (so, en', ba')"
  shows "latched o0 en'"
proof (cases "en_targets en")
  case Nil
  with op have "en_off en' = en_off en" by (auto simp: open_session_def)
  then show ?thesis using l by (rule latched_cong)
next
  case (Cons remote rest)
  obtain ok fr where acq: "try_acquire (en_free en) = (ok, fr)" by fastforce
  obtain conn w' where conn: "uk_connect k (en_world en) remote (knob_socket_buffer_bytes (en_knobs en)) = (conn, w')"
    by fastforce
  let ?en = "en\<lparr>en_free := fr, en_world := w'\<rparr>"
  obtain gr en1 where gro: "session_gro k ?en = (gr, en1)" by fastforce
  consider (full) "\<not> ok" | (failed) e where ok "conn = Inl e" | (opened) u where ok "conn = Inr u"
    by (cases conn) auto
  then show ?thesis
  proof cases
    case opened
    then have "en' = snd (add_session k client remote t gr en1)"
      using op Cons acq conn by (auto simp: open_session_def gro split: prod.splits)
    moreover have "latched o0 ?en" using l by (simp add: latched_def)
    ultimately show ?thesis
      using session_gro_latched [of o0 ?en k] gro by (simp add: latched_def)
  qed (use op Cons acq conn l in \<open>auto simp: open_session_def intro!: latched_cong [OF _ l]\<close>)
qed

lemma on_client_latched:
  assumes l: "latched o0 en" and on: "on_client k forward n client data t (en, ba) = (en', ba')"
  shows "latched o0 en'"
proof -
  have send: "latched o0 en2" if "absorb e sd = (en2, b2)" "latched o0 e" for e sd en2 b2
    using latched_cong [OF _ that(2), of en2] off_frames(3) [of e sd] that(1) by simp
  have fresh: "latched o0 en2"
    if le: "latched o0 e" and res: "(case open_session k client t n (e, ba) of
        (None, en', ba') \<Rightarrow> (en', ba')
      | (Some s, en', ba') \<Rightarrow> absorb en' (forward data (sending_of en' ba' s))) = (en2, ba2)" for e en2 ba2
  proof -
    obtain so en1 ba1 where op: "open_session k client t n (e, ba) = (so, en1, ba1)" by (metis prod.exhaust)
    have "latched o0 en1" using le op by (rule open_session_latched)
    with res op show ?thesis by (cases so) (auto elim: send)
  qed
  have l': "latched o0 (unlist_where P en)" for P using l by (simp add: latched_def)
  show ?thesis
  proof (cases "find_session client en")
    case None
    with on show ?thesis by (intro fresh [OF l, of en' ba']) (simp add: on_client_def Let_def)
  next
    case (Some s)
    show ?thesis
    proof (cases "se_dead s")
      case True
      with on Some show ?thesis
        by (intro fresh [OF l', of "\<lambda>t. se_id t = se_id s" en' ba']) (simp add: on_client_def Let_def)
    next
      case False
      with on Some show ?thesis by (intro send [OF _ l]) (simp add: on_client_def Let_def)
    qed
  qed
qed

interpretation latch: engine_invariant "latched o0" k for o0 k
proof
  show "latched o0 en'" if "latched o0 en" "on_client k forward n addr data t (en, ba) = (en', ba')"
    for en forward data n addr t ba en' ba'
    using that by (rule on_client_latched)
qed (simp_all add: latched_def)

section \<open>Replies\<close>

lemma reply_one_gso: "rp_gso_ok (snd (reply_one k data rp)) = rp_gso_ok rp"
  by (simp add: reply_one_def count_reply_def count_reply_dropped_def split: prod.split sum.split)

lemma reply_pieces_gso: "rp_gso_ok (snd (reply_pieces k pieces rp)) = rp_gso_ok rp"
proof (induction k pieces rp rule: reply_pieces.induct)
  case (2 k piece pieces rp)
  then show ?case
    using reply_one_gso [of k piece rp] by (cases "reply_one k piece rp") (auto split: bool.split)
qed simp

lemma reply_coalesced_gso: "rp_gso_ok (snd (reply_coalesced k data segment rp)) \<Longrightarrow> rp_gso_ok rp"
proof -
  have one: "rp_gso_ok (snd (case reply_pieces k ps q of ([], rp') \<Rightarrow> (None, rp') | (x # xs, rp') \<Rightarrow> (Some (concat (x # xs), segment), rp'))) = rp_gso_ok q"
    for ps and q :: "'a replying"
    using reply_pieces_gso [of k ps q] by (auto split: prod.split list.split)
  assume a: "rp_gso_ok (snd (reply_coalesced k data segment rp))"
  show "rp_gso_ok rp"
  proof (cases "rp_gso_ok rp")
    case False
    with a show ?thesis unfolding reply_coalesced_def Let_def by (simp only: one if_False)
  qed
qed

lemma drain_up_loop_gso: "drain_up_loop n k t rp replied got = (r, rp', replied', got') \<Longrightarrow> rp_gso_ok rp' \<Longrightarrow> rp_gso_ok rp"
proof (induction n arbitrary: rp replied got)
  case (Suc n)
  obtain ans w' where recv: "recv_upstream (uk_recv_up k (se_id (rp_session rp))) (rp_world rp) = (ans, w')" by fastforce
  show ?case
  proof (cases ans)
    case (Inr data)
    obtain b rp1 where one: "reply_one k data (rp\<lparr>rp_world := w'\<rparr>) = (b, rp1)" by fastforce
    show ?thesis
      using Suc.prems Suc.IH [of rp1 True "got + 1"] reply_one_gso [of k data "rp\<lparr>rp_world := w'\<rparr>"]
      by (cases b) (auto simp: recv Inr one)
  next
    case (Inl e)
    then show ?thesis
      using Suc.prems Suc.IH [of "rp\<lparr>rp_world := w'\<rparr>" replied got]
        Suc.IH [of "rp\<lparr>rp_world := w', rp_stats := mark_udp_icmp_error t kind (rp_stats rp)\<rparr>" replied got for kind]
      by (cases "classify_udp_err e") (auto simp: recv Let_def)
  qed
qed auto

lemma drain_up_gro_loop_gso:
  "drain_up_gro_loop n k t rp replied got = (r, rp', replied', got') \<Longrightarrow> rp_gso_ok rp' \<Longrightarrow> rp_gso_ok rp"
proof (induction n arbitrary: rp replied got)
  case (Suc n)
  obtain ans w' where recv: "recv_upstream (uk_recv_up_gro k (se_id (rp_session rp))) (rp_world rp) = (ans, w')" by fastforce
  let ?rp = "rp\<lparr>rp_world := w'\<rparr>"
  show ?case
  proof (cases ans)
    case (Inr m)
    let ?data = "gr_data m" and ?seg = "gr_segment m"
    let ?segs = "segments (length ?data) ?seg"
    note unfold = recv Inr Let_def
    obtain b rp1 where one: "reply_one k ?data ?rp = (b, rp1)" by fastforce
    obtain pend rp2 where c: "reply_coalesced k ?data ?seg ?rp = (pend, rp2)" by fastforce
    have g1: "rp_gso_ok rp1 \<Longrightarrow> rp_gso_ok rp" using reply_one_gso [of k ?data ?rp] one by simp
    have g2: "rp_gso_ok rp2 \<Longrightarrow> rp_gso_ok rp" using reply_coalesced_gso [of k ?data ?seg ?rp] c by simp
    consider (trunc) "gr_truncated m" | (single) "\<not> gr_truncated m" "\<not> is_coalesced (length ?data) ?seg"
      | (burst) "\<not> gr_truncated m" "is_coalesced (length ?data) ?seg" by blast
    then show ?thesis
    proof cases
      case trunc
      then show ?thesis
        using Suc.prems Suc.IH [of "count_reply_dropped ?segs ?rp" True "got + ?segs"]
        by (simp add: unfold) (simp add: count_reply_dropped_def)
    next
      case single
      then show ?thesis
        using Suc.prems Suc.IH [of rp1 True "got + ?segs"] g1 by (cases b) (auto simp: unfold one)
    next
      case burst
      then show ?thesis
        using Suc.prems Suc.IH [of rp2 True "got + ?segs"] g2 by (cases pend) (auto simp: unfold c)
    qed
  next
    case (Inl e)
    then show ?thesis
      using Suc.prems Suc.IH [of ?rp replied got]
        Suc.IH [of "rp\<lparr>rp_world := w', rp_stats := mark_udp_icmp_error t kind (rp_stats rp)\<rparr>" replied got for kind]
      by (cases "classify_udp_err e") (auto simp: recv Let_def)
  qed
qed auto

lemma drain_upstream_gso:
  assumes "drain_upstream k en s = (r, rp, got)" and "rp_gso_ok rp"
  shows "of_gso_ok (en_off en)"
proof -
  let ?t = "elapsed_ms (uk_now k (en_world en)) (en_stats en)" and ?rp = "replying_of en s"
  obtain r1 rp1 replied got1 where d: "(if se_gro s then drain_up_gro_loop SESSION_BATCH k ?t ?rp False 0
      else drain_up_loop SESSION_BATCH k ?t ?rp False 0) = (r1, rp1, replied, got1)" by (metis prod.exhaust)
  have "rp = flush_replies ?t replied rp1" using assms(1) d by (simp add: drain_upstream_def Let_def)
  then have "rp_gso_ok rp1" using assms(2) by (simp add: flush_replies_def Let_def split: if_splits)
  then have "rp_gso_ok ?rp"
    using drain_up_loop_gso [of SESSION_BATCH k ?t ?rp False 0] drain_up_gro_loop_gso [of SESSION_BATCH k ?t ?rp False 0] d
    by (auto split: if_splits)
  then show ?thesis by (simp add: replying_of_def)
qed

lemma send_blocked_gso: "rp_gso_ok (fold (send_blocked_piece k) pieces rp) = rp_gso_ok rp"
proof (induction pieces arbitrary: rp)
  case (Cons p ps)
  then show ?case by (simp add: send_blocked_piece_def split: prod.split sum.split)
qed simp

lemma session_turn_latched:
  assumes l: "latched o0 en"
  shows "latched o0 (session_turn k ready sends s en)"
proof (cases ready)
  case True
  obtain r rp got where d: "drain_upstream k en s = (r, rp, got)" by (metis prod.exhaust)
  have a: "latched o0 (absorb_reply en q)" if "rp_gso_ok q = rp_gso_ok rp" for q
    using l drain_upstream_gso [OF d] that by (auto simp: latched_def offload_ok_def offload_later_def absorb_reply_def)
  then have "latched o0 (end_task s (absorb_reply en q))" if "rp_gso_ok q = rp_gso_ok rp" for q
    using a [OF that] by (simp add: latched_def)
  with a True show ?thesis
    by (cases r; cases sends) (simp_all add: session_turn_def d Let_def send_blocked_gso)
qed (use l in \<open>simp add: session_turn_def latched_def\<close>)

section \<open>Every run\<close>

lemma apply_gro_knob_latched: "latched o0 en \<Longrightarrow> latched o0 (apply_gro_knob k en)"
  by (auto simp: apply_gro_knob_def Let_def latched_def offload_ok_def offload_later_def split: prod.split sum.split)

lemma dns_refresh_off: "en_off (snd (snd (dns_refresh cfg resolver now (g, en)))) = en_off en"
  by (simp add: dns_refresh_def Let_def split: sum.split prod.split)

lemma engine_step_latched: "engine_step k en en' \<Longrightarrow> latched o0 en \<Longrightarrow> latched o0 en'"
proof (induction rule: engine_step.induct)
  case (tick en)
  then show ?case by (simp add: on_tick_def apply_gro_knob_latched latched_cong [of "sweep k en" en])
next
  case (refresh en cfg resolver now g)
  then show ?case using latched_cong [OF dns_refresh_off] by blast
qed (simp_all add: latch.readable session_turn_latched,
    simp_all add: latched_def on_targets_changed_def close_all_def return_forwarder_def)

lemma reachable_latched: "(engine_step k)\<^sup>*\<^sup>* en en' \<Longrightarrow> latched o0 en \<Longrightarrow> latched o0 en'"
  by (induction rule: rtranclp_induct) (auto intro: engine_step_latched)

text \<open>
  C14. In every run of a UDP engine that starts as \<open>run_udp_forwarder\<close> builds it, once
  \<open>UDP_GRO\<close> is set on the listener every later receive is one that understands coalesced
  bursts: a burst is never read as a single datagram. The option is set whenever new sessions
  are given it, it is never taken back, and a refused GSO on the listener stays refused. That
  the kernel has no GRO is remembered for good and switches the offload off at the next tick of
  the sweep; from then on neither a new session nor a tick asks the kernel for it again.\<close>
theorem bursts_never_misread:
  assumes "(engine_step k)\<^sup>*\<^sup>* (engine_new cfg literal stats knobs free al w) en" and "(engine_step k)\<^sup>*\<^sup>* en en'"
  shows "(of_gro_set (en_off en) \<longrightarrow> of_gro_set (en_off en')
            \<and> on_readable k en' = (case drain_listener_gro k en' of (r, e, _) \<Rightarrow> (r, e)))
     \<and> (of_enabled (en_off en) \<longrightarrow> of_gro_set (en_off en))
     \<and> (of_unsupported (en_off en) \<longrightarrow> of_unsupported (en_off en') \<and> \<not> of_enabled (en_off (on_tick k en)))
     \<and> (of_unsupported (en_off en) \<and> \<not> of_enabled (en_off en) \<longrightarrow>
          session_gro k en' = (False, en') \<and> apply_gro_knob k en' = en')
     \<and> (of_gso_ok (en_off en') \<longrightarrow> of_gso_ok (en_off en))"
proof -
  have "latched offload_init (engine_new cfg literal stats knobs free al w)"
    by (simp add: latched_def engine_new_def offload_init_def offload_ok_def offload_later_def)
  then have "latched offload_init en" by (rule reachable_latched [OF assms(1)])
  then have ok: "offload_ok (en_off en)" by (simp add: latched_def)
  then have "latched (en_off en) en" by (simp add: latched_def offload_later_def)
  then have "latched (en_off en) en'" by (rule reachable_latched [OF assms(2)])
  moreover have "\<not> of_enabled (en_off (on_tick k en))" if "of_unsupported (en_off en)"
    using that by (simp add: on_tick_def apply_gro_knob_def Let_def)
  moreover have "session_gro k e = (False, e) \<and> apply_gro_knob k e = e" if "of_unsupported (en_off e)" "\<not> of_enabled (en_off e)" for e
    using that by (simp add: session_gro_def apply_gro_knob_def Let_def)
  ultimately show ?thesis using ok by (auto simp: latched_def offload_ok_def offload_later_def on_readable_def)
qed

theorem bursts_never_misread_witness:
  "of_gro_set (en_off (on_tick sample_kernel
     (engine_new \<lparr>fc_local_host = lit ''a'', fc_local_port = 53, fc_remote_host = lit ''b'', fc_remote_port = 53,
        fc_protocol = Udp\<rparr> None (with_protocol (lit ''a'') Udp 0)
        ((knobs_from_settings settings_default)\<lparr>kn_udp_gro_gso := True\<rparr>) 2 notifier_start 0)))"
proof -
  let ?en = "engine_new \<lparr>fc_local_host = lit ''a'', fc_local_port = 53, fc_remote_host = lit ''b'', fc_remote_port = 53,
        fc_protocol = Udp\<rparr> None (with_protocol (lit ''a'') Udp 0)
        ((knobs_from_settings settings_default)\<lparr>kn_udp_gro_gso := True\<rparr>) 2 notifier_start (0 :: nat)"
  have step: "(engine_step sample_kernel)\<^sup>*\<^sup>* ?en (on_tick sample_kernel ?en)"
    by (rule r_into_rtranclp) (rule engine_step.tick, simp add: in_loop_def engine_new_def)
  have "of_enabled (en_off (on_tick sample_kernel ?en))"
    by (simp add: on_tick_def sweep_def engine_new_def apply_gro_knob_def sample_kernel_def offload_init_def Let_def)
  then show ?thesis using bursts_never_misread [OF step rtranclp.rtrancl_refl] by blast
qed

end
