(* ===== verification/Splice.thy ===== *)
theory Splice
  imports Stats
begin

text \<open>
  The zero-copy data path of \<open>src/src/forwarder.rs\<close> (\<open>mod splice\<close>): the check on the pipes'
  capacity, the once-a-minute fallback notice, and the pump of one direction. The kernel is
  a sequence of answers to \<open>splice(2)\<close>; the bytes themselves are kept, so that what reaches
  the destination can be compared with what left the source.
\<close>

section \<open>Pipes\<close>

definition MIN_USEFUL_CAPACITY :: nat where "MIN_USEFUL_CAPACITY = 32 * 1024"

definition capacity_ok :: "nat \<Rightarrow> nat \<Rightarrow> bool" where
  "capacity_ok got want \<longleftrightarrow> got \<ge> min want MIN_USEFUL_CAPACITY"

datatype unavailable = PipeFailed io_error | Limited nat nat

text \<open>
  What the kernel does for \<open>Pipe::new(size)\<close>: the error of \<open>pipe2\<close>, or the answer of
  \<open>F_GETPIPE_SZ\<close> after the best-effort \<open>F_SETPIPE_SZ\<close> (requested only for a positive size).
\<close>

type_synonym pipe_answer = "io_error + int"

definition pipe_capacity :: "int \<Rightarrow> nat" where
  "pipe_capacity n = (if n > 0 then nat n else 0)"

text \<open>The chunk size of a usable pair of pipes, or why there is none.\<close>

definition pipes_new :: "nat \<Rightarrow> pipe_answer \<Rightarrow> pipe_answer \<Rightarrow> unavailable + nat" where
  "pipes_new sz c2r r2c =
     (let want = max sz 4096 in
      and_then (map_err PipeFailed c2r) (\<lambda>a.
      and_then (map_err PipeFailed r2c) (\<lambda>b.
        let got = min (pipe_capacity a) (pipe_capacity b)
        in if \<not> capacity_ok got want then Inl (Limited got want) else Inr (min got want))))"

text \<open>
  \<open>note_fallback\<close>: \<open>cur\<close> is the value another thread may have stored between the load and the
  compare-exchange. The result says whether the notice is logged.
\<close>

definition note_fallback :: "u64 \<Rightarrow> u64 \<Rightarrow> u64 \<Rightarrow> bool \<times> u64" where
  "note_fallback now loaded cur =
     (if sat_sub now loaded < 60 then (False, cur)
      else if cur \<noteq> loaded then (False, cur)
      else (True, now))"

section \<open>Pumping one direction\<close>

type_synonym byte = nat

datatype splice_phase =
    Reading
  | Writing nat
  | Finished
  | Failed io_error

record splice_state =
  ss_src :: "byte list"
  ss_pipe :: "byte list"
  ss_dst :: "byte list"
  ss_phase :: splice_phase
  ss_counted :: u64
  ss_shut :: bool

definition splice_init :: "byte list \<Rightarrow> splice_state" where
  "splice_init src =
     \<lparr>ss_src = src, ss_pipe = [], ss_dst = [], ss_phase = Reading, ss_counted = 0, ss_shut = False\<rparr>"

definition write_zero :: io_error where
  "write_zero = \<lparr>ioe_kind = WriteZero, ioe_os = None\<rparr>"

text \<open>
  One answer of the kernel. While reading it moves bytes from the source into the pipe, while
  writing from the pipe to the destination; \<open>Writing left\<close> carries the loop's \<open>left\<close>. The
  number of bytes is checked against nothing here: the subtraction is the code's own.
\<close>

definition splice_step :: "io_error + nat \<Rightarrow> splice_state \<Rightarrow> splice_state" where
  "splice_step ans s =
     (case ss_phase s of
        Reading \<Rightarrow>
          (case ans of
             Inr n \<Rightarrow>
               if n = 0 then s\<lparr>ss_phase := Finished, ss_shut := True\<rparr>
               else s\<lparr>ss_src := drop n (ss_src s), ss_pipe := ss_pipe s @ take n (ss_src s),
                      ss_phase := Writing n\<rparr>
           | Inl e \<Rightarrow> if ioe_kind e = WouldBlock then s else s\<lparr>ss_phase := Failed e\<rparr>)
      | Writing left \<Rightarrow>
          (case ans of
             Inr m \<Rightarrow>
               if m = 0 then s\<lparr>ss_phase := Failed write_zero\<rparr>
               else s\<lparr>ss_pipe := drop m (ss_pipe s), ss_dst := ss_dst s @ take m (ss_pipe s),
                      ss_phase := (if left - m = 0 then Reading else Writing (left - m)),
                      ss_counted := ss_counted s + of_nat m\<rparr>
           | Inl e \<Rightarrow> if ioe_kind e = WouldBlock then s else s\<lparr>ss_phase := Failed e\<rparr>)
      | Finished \<Rightarrow> s
      | Failed e \<Rightarrow> s)"

definition splice_dir :: "(io_error + nat) list \<Rightarrow> splice_state \<Rightarrow> splice_state" where
  "splice_dir answers s = fold splice_step answers s"

text \<open>
  Both directions of a connection under one \<open>try_join!\<close>: answers arrive for either in any
  order, each delivered chunk is counted on the forwarder, and the first error of either
  direction ends both.
\<close>

datatype direction = ClientToRemote | RemoteToClient

record splice_pair =
  sp_c2r :: splice_state
  sp_r2c :: splice_state
  sp_stats :: forwarder_stats

definition failed :: "splice_state \<Rightarrow> bool" where
  "failed s = (case ss_phase s of Failed e \<Rightarrow> True | _ \<Rightarrow> False)"

definition splice_pair_step :: "direction \<times> (io_error + nat) \<Rightarrow> splice_pair \<Rightarrow> splice_pair" where
  "splice_pair_step ev p =
     (if failed (sp_c2r p) \<or> failed (sp_r2c p) then p
      else case ev of
        (ClientToRemote, ans) \<Rightarrow>
          (let s' = splice_step ans (sp_c2r p)
           in p\<lparr>sp_c2r := s',
                sp_stats := add_sent (ss_counted s' - ss_counted (sp_c2r p)) (sp_stats p)\<rparr>)
      | (RemoteToClient, ans) \<Rightarrow>
          (let s' = splice_step ans (sp_r2c p)
           in p\<lparr>sp_r2c := s',
                sp_stats := add_received (ss_counted s' - ss_counted (sp_r2c p)) (sp_stats p)\<rparr>))"

text \<open>The result once it is decided; \<open>None\<close> while a direction still runs.\<close>

definition splice_pair_result :: "splice_pair \<Rightarrow> (io_error + unit) option" where
  "splice_pair_result p =
     (case (ss_phase (sp_c2r p), ss_phase (sp_r2c p)) of
        (Failed e, _) \<Rightarrow> Some (Inl e)
      | (_, Failed e) \<Rightarrow> Some (Inl e)
      | (Finished, Finished) \<Rightarrow> Some (Inr ())
      | _ \<Rightarrow> None)"

definition copy_bidirectional_splice ::
  "(direction \<times> (io_error + nat)) list \<Rightarrow> byte list \<Rightarrow> byte list \<Rightarrow> forwarder_stats \<Rightarrow> splice_pair" where
  "copy_bidirectional_splice evs client_bytes remote_bytes stats =
     fold splice_pair_step evs
       \<lparr>sp_c2r = splice_init client_bytes, sp_r2c = splice_init remote_bytes, sp_stats = stats\<rparr>"

text \<open>
  What \<open>splice(2)\<close> documents: it moves no more than asked for and no more than there is (the
  requests are \<open>chunk\<close> bytes from the source, \<open>left\<close> bytes out of the pipe), and a socket
  whose stream has ended, and only that one, answers 0.
\<close>

definition kernel_answer :: "nat \<Rightarrow> splice_state \<Rightarrow> io_error + nat \<Rightarrow> bool" where
  "kernel_answer chunk s ans =
     (case ans of
        Inl e \<Rightarrow> True
      | Inr n \<Rightarrow>
          (case ss_phase s of
             Reading \<Rightarrow> n \<le> chunk \<and> n \<le> length (ss_src s) \<and> (n = 0 \<longleftrightarrow> ss_src s = [])
           | Writing left \<Rightarrow> n \<le> left \<and> n \<le> length (ss_pipe s)
           | _ \<Rightarrow> True))"

fun kernel_answers :: "nat \<Rightarrow> splice_state \<Rightarrow> (io_error + nat) list \<Rightarrow> bool" where
  "kernel_answers chunk s [] = True"
| "kernel_answers chunk s (a # as) = (kernel_answer chunk s a \<and> kernel_answers chunk (splice_step a s) as)"

section \<open>Properties\<close>

text \<open>
  The pump's invariant over the stream \<open>src0\<close>: nothing is lost or reordered, the counter is
  what was delivered, the pipe holds exactly \<open>left\<close> bytes while writing and nothing before
  a read, and a finished pump has delivered everything and shut the destination.
\<close>

definition splice_inv :: "nat \<Rightarrow> byte list \<Rightarrow> splice_state \<Rightarrow> bool" where
  "splice_inv chunk src0 s \<longleftrightarrow>
     ss_dst s @ ss_pipe s @ ss_src s = src0
     \<and> ss_counted s = of_nat (length (ss_dst s))
     \<and> (case ss_phase s of
          Reading \<Rightarrow> ss_pipe s = [] \<and> \<not> ss_shut s
        | Writing left \<Rightarrow> 0 < left \<and> length (ss_pipe s) = left \<and> left \<le> chunk \<and> \<not> ss_shut s
        | Finished \<Rightarrow> ss_pipe s = [] \<and> ss_src s = [] \<and> ss_shut s
        | Failed e \<Rightarrow> \<not> ss_shut s)"

lemma splice_inv_init: "splice_inv chunk src (splice_init src)"
  by (simp add: splice_inv_def splice_init_def)

lemma splice_inv_step:
  assumes "splice_inv chunk src0 s" and "kernel_answer chunk s a"
  shows "splice_inv chunk src0 (splice_step a s)"
proof (cases "ss_phase s")
  case Reading
  then show ?thesis
    using assms by (cases a) (auto simp: splice_inv_def kernel_answer_def splice_step_def)
next
  case (Writing left)
  show ?thesis
  proof (cases a)
    case (Inl e)
    with Writing assms show ?thesis
      by (auto simp: splice_inv_def kernel_answer_def splice_step_def)
  next
    case (Inr m)
    have "take m (ss_pipe s) @ drop m (ss_pipe s) @ ss_src s = ss_pipe s @ ss_src s" by simp
    with Inr Writing assms show ?thesis
      by (auto simp: splice_inv_def kernel_answer_def splice_step_def)
  qed
next
  case Finished
  with assms show ?thesis by (simp add: splice_step_def)
next
  case (Failed e)
  with assms show ?thesis by (simp add: splice_step_def)
qed

lemma splice_inv_run:
  "splice_inv chunk src0 s \<Longrightarrow> kernel_answers chunk s answers \<Longrightarrow> splice_inv chunk src0 (splice_dir answers s)"
  by (induction answers arbitrary: s) (auto simp: splice_dir_def splice_inv_step)

text \<open>
  C7. Zero-copy forwarding is faithful at every moment of a transfer, for any kernel that
  keeps to the documentation of \<open>splice\<close>: what has reached the destination is a prefix of
  the source's stream and the byte counter is its length (modulo \<open>2^64\<close>), every read starts
  with an empty pipe, and the destination's write side is shut exactly when the pump has
  finished, with the whole stream delivered.\<close>
theorem splice_faithful:
  assumes "kernel_answers chunk (splice_init src) answers"
    and "splice_dir answers (splice_init src) = s"
  shows "ss_dst s = take (length (ss_dst s)) src
     \<and> ss_counted s = of_nat (length (ss_dst s))
     \<and> (ss_phase s = Reading \<longrightarrow> ss_pipe s = [])
     \<and> ss_shut s = (ss_phase s = Finished)
     \<and> (ss_phase s = Finished \<longrightarrow> ss_dst s = src)"
proof -
  have inv: "splice_inv chunk src s"
    using splice_inv_run [OF splice_inv_init assms(1)] assms(2) by simp
  then have "src = ss_dst s @ ss_pipe s @ ss_src s" by (simp add: splice_inv_def)
  then have "ss_dst s = take (length (ss_dst s)) src" by simp
  with inv show ?thesis by (cases "ss_phase s") (auto simp: splice_inv_def)
qed

definition sample_answers :: "(io_error + nat) list" where
  "sample_answers = [Inr 2, Inr 1, Inl \<lparr>ioe_kind = WouldBlock, ioe_os = None\<rparr>, Inr 1, Inr 1, Inr 1, Inr 0]"

theorem splice_faithful_witness:
  "kernel_answers 2 (splice_init [7, 8, 9]) sample_answers
   \<and> ss_phase (splice_dir sample_answers (splice_init [7, 8, 9])) = Finished
   \<and> ss_dst (splice_dir sample_answers (splice_init [7, 8, 9])) = [7, 8, 9]"
proof -
  have k: "kernel_answers 2 (splice_init [7, 8, 9]) sample_answers"
    by (simp add: sample_answers_def splice_init_def kernel_answer_def splice_step_def)
  have f: "ss_phase (splice_dir sample_answers (splice_init [7, 8, 9])) = Finished"
    by (simp add: sample_answers_def splice_dir_def splice_init_def splice_step_def)
  with splice_faithful [OF k refl] k show ?thesis by blast
qed

text \<open>The chunk never exceeds what either pipe holds, so one read always fits.\<close>

lemma pipes_new_chunk:
  assumes "pipes_new sz (Inr a) (Inr b) = Inr chunk"
  shows "chunk \<le> pipe_capacity a \<and> chunk \<le> pipe_capacity b \<and> chunk \<le> max sz 4096 \<and> 4096 \<le> chunk"
  using assms
  by (auto simp: pipes_new_def Let_def capacity_ok_def MIN_USEFUL_CAPACITY_def min.coboundedI1 min.coboundedI2
      split: if_splits)

text \<open>
  Splice is only used with pipes that are worth it: a pair of pipes is accepted exactly
  when both were created and the smaller one holds what was asked for or at least 32 KiB, and
  then the chunk is at least a page and fits in both.\<close>

lemma pipes_accepted:
  "(\<exists>chunk. pipes_new sz c2r r2c = Inr chunk) =
     (\<exists>a b. c2r = Inr a \<and> r2c = Inr b
        \<and> min (max sz 4096) 32768 \<le> min (pipe_capacity a) (pipe_capacity b))
   \<and> (pipes_new sz (Inr a) (Inr b) = Inr chunk \<longrightarrow>
        4096 \<le> chunk \<and> chunk \<le> pipe_capacity a \<and> chunk \<le> pipe_capacity b)"
proof
  show "(\<exists>chunk. pipes_new sz c2r r2c = Inr chunk) =
     (\<exists>a b. c2r = Inr a \<and> r2c = Inr b \<and> min (max sz 4096) 32768 \<le> min (pipe_capacity a) (pipe_capacity b))"
    by (cases c2r; cases r2c) (auto simp: pipes_new_def Let_def capacity_ok_def MIN_USEFUL_CAPACITY_def)
  show "pipes_new sz (Inr a) (Inr b) = Inr chunk \<longrightarrow>
      4096 \<le> chunk \<and> chunk \<le> pipe_capacity a \<and> chunk \<le> pipe_capacity b"
    using pipes_new_chunk by blast
qed

lemma pipes_accepted_example:
  "pipes_new 65536 (Inr 65536) (Inr 65536) = Inr 65536 \<and> (4096::nat) \<le> 65536"
  using pipes_accepted [of 65536 "Inr 65536" "Inr 65536" 65536 65536 65536]
  by (simp add: pipes_new_def Let_def capacity_ok_def pipe_capacity_def MIN_USEFUL_CAPACITY_def)

section \<open>Both directions\<close>

fun pair_answers :: "nat \<Rightarrow> splice_pair \<Rightarrow> (direction \<times> (io_error + nat)) list \<Rightarrow> bool" where
  "pair_answers chunk p [] = True"
| "pair_answers chunk p (ev # evs) =
     (kernel_answer chunk (case fst ev of ClientToRemote \<Rightarrow> sp_c2r p | RemoteToClient \<Rightarrow> sp_r2c p) (snd ev)
      \<and> pair_answers chunk (splice_pair_step ev p) evs)"

definition pair_inv :: "nat \<Rightarrow> byte list \<Rightarrow> byte list \<Rightarrow> forwarder_stats \<Rightarrow> splice_pair \<Rightarrow> bool" where
  "pair_inv chunk cs rs stats p \<longleftrightarrow>
     splice_inv chunk cs (sp_c2r p) \<and> splice_inv chunk rs (sp_r2c p)
     \<and> sx_bytes_sent (sp_stats p) = sx_bytes_sent stats + ss_counted (sp_c2r p)
     \<and> sx_bytes_received (sp_stats p) = sx_bytes_received stats + ss_counted (sp_r2c p)"

lemma pair_inv_step:
  assumes "pair_inv chunk cs rs stats p"
    and "kernel_answer chunk (case fst ev of ClientToRemote \<Rightarrow> sp_c2r p | RemoteToClient \<Rightarrow> sp_r2c p) (snd ev)"
  shows "pair_inv chunk cs rs stats (splice_pair_step ev p)"
proof (cases ev)
  case (Pair d ans)
  with assms show ?thesis
    by (cases d) (auto simp: pair_inv_def splice_pair_step_def Let_def add_sent_def add_received_def
        splice_inv_step)
qed

lemma pair_inv_run:
  "pair_inv chunk cs rs stats p \<Longrightarrow> pair_answers chunk p evs \<Longrightarrow> pair_inv chunk cs rs stats (fold splice_pair_step evs p)"
  by (induction evs arbitrary: p) (auto simp: pair_inv_step)

text \<open>
  C25. A spliced connection that ends without an error has carried both streams completely
  and counted them exactly: for any interleaving of the two directions, a result of \<open>Ok\<close>
  means that each side received all the other sent, that both write sides were shut, and that
  the forwarder's byte counters grew by the two lengths (modulo \<open>2^64\<close>).\<close>
theorem splice_connection_complete:
  assumes "pair_answers chunk \<lparr>sp_c2r = splice_init cs, sp_r2c = splice_init rs, sp_stats = stats\<rparr> evs"
    and "copy_bidirectional_splice evs cs rs stats = p"
    and "splice_pair_result p = Some (Inr ())"
  shows "ss_dst (sp_c2r p) = cs \<and> ss_dst (sp_r2c p) = rs \<and> ss_shut (sp_c2r p) \<and> ss_shut (sp_r2c p)
     \<and> sx_bytes_sent (sp_stats p) = sx_bytes_sent stats + of_nat (length cs)
     \<and> sx_bytes_received (sp_stats p) = sx_bytes_received stats + of_nat (length rs)"
proof -
  have "pair_inv chunk cs rs stats \<lparr>sp_c2r = splice_init cs, sp_r2c = splice_init rs, sp_stats = stats\<rparr>"
    by (simp add: pair_inv_def splice_inv_init) (simp add: splice_init_def)
  then have inv: "pair_inv chunk cs rs stats p"
    using pair_inv_run [OF _ assms(1)] assms(2) by (simp add: copy_bidirectional_splice_def)
  have "ss_phase (sp_c2r p) = Finished" "ss_phase (sp_r2c p) = Finished"
    using assms(3) by (auto simp: splice_pair_result_def split: splice_phase.splits)
  with inv show ?thesis by (auto simp: pair_inv_def splice_inv_def)
qed

definition pair_events :: "(direction \<times> (io_error + nat)) list" where
  "pair_events = [(ClientToRemote, Inr 1), (RemoteToClient, Inr 0), (ClientToRemote, Inr 1), (ClientToRemote, Inr 0)]"

theorem splice_connection_complete_witness:
  "ss_dst (sp_c2r (copy_bidirectional_splice pair_events [5] [] sample_stats)) = [5]"
proof -
  have "pair_answers 4 \<lparr>sp_c2r = splice_init [5], sp_r2c = splice_init [], sp_stats = sample_stats\<rparr> pair_events"
    by (simp add: pair_events_def splice_init_def kernel_answer_def splice_pair_step_def splice_step_def
        failed_def Let_def)
  moreover have "splice_pair_result (copy_bidirectional_splice pair_events [5] [] sample_stats) = Some (Inr ())"
    by (simp add: pair_events_def copy_bidirectional_splice_def splice_init_def splice_pair_step_def
        splice_step_def failed_def Let_def splice_pair_result_def)
  ultimately show ?thesis using splice_connection_complete by blast
qed

end
