(* ===== verification/Forwarder.thy ===== *)
theory Forwarder
  imports Connect Splice Notify Permits
begin

text \<open>
  The TCP forwarder of \<open>src/src/forwarder.rs\<close>: the bind loop, the accept loop with its
  connection limit, one proxied connection, the guards that keep the counters right, the rate
  sampler and the traffic report. Connections are tasks of a state machine; every forwarder
  of the process shares the connection limit. Network, kernel and clock are arguments.
\<close>

section \<open>Guards and admission\<close>

definition listening_guard_new :: "forwarder_stats \<Rightarrow> forwarder_stats" where
  "listening_guard_new s = set_listening True s"

definition listening_guard_drop :: "forwarder_stats \<Rightarrow> forwarder_stats" where
  "listening_guard_drop s = set_listening False s"

definition conn_guard_new :: "forwarder_stats \<Rightarrow> forwarder_stats" where
  "conn_guard_new s = inc_connections s"

definition conn_guard_drop :: "forwarder_stats \<Rightarrow> forwarder_stats" where
  "conn_guard_drop s = dec_connections s"

text \<open>\<open>Admitted b\<close>: whether the admitted connection carries a permit.\<close>

datatype admission = Admitted bool | Rejected

definition acquire_permit ::
  "nat option \<Rightarrow> forwarder_stats \<Rightarrow> admission \<times> nat option \<times> forwarder_stats" where
  "acquire_permit limit s =
     (case limit of
        None \<Rightarrow> (Admitted False, None, s)
      | Some sem \<Rightarrow>
          (case try_acquire sem of
             (True, sem') \<Rightarrow> (Admitted True, Some sem', s)
           | (False, sem') \<Rightarrow> (Rejected, Some sem', inc_rejected s)))"

section \<open>Binding\<close>

text \<open>What one turn of the bind loop meets; a failure says whether the backoff was cancelled.\<close>

datatype bind_answer = BindCancelled | BindOk | BindErr rstr bool

datatype bind_end = BindWaiting | BindStopped | Bound

fun bind_loop :: "rstr \<Rightarrow> rstr \<Rightarrow> u32 \<Rightarrow> bind_answer list \<Rightarrow> bind_end \<times> event list" where
  "bind_loop label local_addr failures [] = (BindWaiting, [])"
| "bind_loop label local_addr failures (BindCancelled # _) = (BindStopped, [])"
| "bind_loop label local_addr failures (BindOk # _) =
     (Bound, if failures > 0 then [BindRecovered label local_addr failures] else [])"
| "bind_loop label local_addr failures (BindErr e cancelled # answers) =
     (let failures' = sat_add failures 1;
          ev = BindFailed label local_addr e failures'
      in if cancelled then (BindStopped, [ev])
         else case bind_loop label local_addr failures' answers of
                (r, evs) \<Rightarrow> (r, ev # evs))"

section \<open>One connection\<close>

datatype copy_poll = CopyRead nat | CopyWrite nat

text \<open>
  What the environment does to one connection: the network, the two pipes, the answers of the
  splice pump with the bytes each side sends, the successful polls of the copy loop on the
  client's stream, and the clock.
\<close>

record 's conn_env =
  ce_net :: "'s net_env"
  ce_c2r :: pipe_answer
  ce_r2c :: pipe_answer
  ce_splice :: "(direction \<times> (io_error + nat)) list"
  ce_client_bytes :: "byte list"
  ce_remote_bytes :: "byte list"
  ce_copy :: "copy_poll list"
  ce_now :: instant

datatype conn_end = ConnRunning | ConnOk | ConnErr rstr | ConnIo io_error

fun copy_poll_step :: "copy_poll \<Rightarrow> forwarder_stats \<Rightarrow> forwarder_stats" where
  "copy_poll_step (CopyRead n) s = snd (counting_poll_read 0 (Ready (Inr ()), n) s)"
| "copy_poll_step (CopyWrite n) s = snd (counting_poll_write (Ready (Inr n)) s)"

text \<open>The report of a changed DNS answer on the data path.\<close>

definition observe_targets :: "rstr \<Rightarrow> rstr \<Rightarrow> socket_addr list \<Rightarrow> forwarder_stats
    \<Rightarrow> forwarder_stats \<times> event list" where
  "observe_targets label host targets s =
     (let ips = map sa_ip targets in
      case observe_addrs ips s of
        (Some old, s') \<Rightarrow> (s', [DnsChanged label host old (sort_dedup ips)])
      | (None, s') \<Rightarrow> (s', []))"

text \<open>The transfer after the connect: splice when asked for and possible, else the copy loop.\<close>

definition transfer :: "'s conn_env \<Rightarrow> knob_snapshot \<Rightarrow> forwarder_stats \<Rightarrow> conn_end \<times> forwarder_stats" where
  "transfer ce knobs s =
     (case (if ks_use_splice knobs
            then Some (pipes_new (ks_buffer_bytes knobs) (ce_c2r ce) (ce_r2c ce)) else None) of
        Some (Inr chunk) \<Rightarrow>
          (let p = copy_bidirectional_splice (ce_splice ce) (ce_client_bytes ce) (ce_remote_bytes ce) s
           in (case splice_pair_result p of
                 None \<Rightarrow> ConnRunning
               | Some (Inr ()) \<Rightarrow> ConnOk
               | Some (Inl e) \<Rightarrow> ConnIo e, sp_stats p))
      | _ \<Rightarrow> (ConnOk, fold copy_poll_step (ce_copy ce) s))"

definition proxy_connection :: "'s conn_env \<Rightarrow> forwarder_config \<Rightarrow> rstr \<Rightarrow> ip_addr option \<Rightarrow> knob_snapshot
    \<Rightarrow> forwarder_stats \<Rightarrow> conn_end \<times> forwarder_stats \<times> event list" where
  "proxy_connection ce cfg label remote_literal knobs s =
     (case resolve_targets (fc_remote_host cfg) (fc_remote_port cfg) remote_literal
             (ne_resolver (ce_net ce)) of
        Inl e \<Rightarrow> (ConnErr e, mark_connect_failed s, [])
      | Inr targets \<Rightarrow>
          (let (s1, evs) = (if remote_literal = None
                            then observe_targets label (fc_remote_host cfg) targets s else (s, []))
           in case connect_racing (ne_attempt (ce_net ce)) (ks_connect_timeout knobs) targets of
                Inl e \<Rightarrow> (ConnErr e, mark_connect_failed s1, evs)
              | Inr (outbound, remote_addr) \<Rightarrow>
                  (case transfer ce knobs (mark_connect_ok (ce_now ce) s1) of
                     (r, s2) \<Rightarrow> (r, s2, evs))))"

section \<open>Accepting\<close>

text \<open>A spawned connection task: its forwarder, whether it holds a permit, whether it runs.\<close>

record conn_task =
  tk_label :: rstr
  tk_permit :: bool
  tk_started :: bool

record plane =
  pl_stats :: "rstr \<Rightarrow> forwarder_stats"
  pl_limit :: "nat option"
  pl_tasks :: "conn_task list"
  pl_last_limit_alert :: "rstr \<Rightarrow> instant option"
  pl_alerts :: alerting

definition limit_alert_due :: "instant option \<Rightarrow> instant \<Rightarrow> bool" where
  "limit_alert_due last_alert now =
     (case last_alert of None \<Rightarrow> True | Some t \<Rightarrow> now - t \<ge> LIMIT_ALERT_SPACING)"

text \<open>
  One accepted socket. The task is only spawned here; it counts itself when it first runs. The
  clock is read for the age of the last alert, and again for the new one.
\<close>

definition accept_connection :: "rstr \<Rightarrow> instant \<Rightarrow> instant \<Rightarrow> plane \<Rightarrow> plane" where
  "accept_connection label now now2 pl =
     (case acquire_permit (pl_limit pl) (pl_stats pl label) of
        (Admitted permit, limit, s) \<Rightarrow>
          pl\<lparr>pl_limit := limit,
             pl_tasks := pl_tasks pl @ [\<lparr>tk_label = label, tk_permit = permit, tk_started = False\<rparr>]\<rparr>
      | (Rejected, limit, s) \<Rightarrow>
          (let pl' = pl\<lparr>pl_limit := limit, pl_stats := (pl_stats pl)(label := s)\<rparr>
           in if limit_alert_due (pl_last_limit_alert pl label) now
              then pl'\<lparr>pl_last_limit_alert := (pl_last_limit_alert pl)(label := Some now2),
                       pl_alerts := notify (ConnectionLimitReached label (sx_rejected_connections s))
                                      (pl_alerts pl)\<rparr>
              else pl'))"

text \<open>How long the loop pauses after an accept error.\<close>

definition accept_error_pause :: "io_error \<Rightarrow> duration" where
  "accept_error_pause e = (if is_transient_accept_error e then 0 else from_secs 1)"

definition start_task :: "nat \<Rightarrow> plane \<Rightarrow> plane" where
  "start_task i pl =
     (let t = pl_tasks pl ! i
      in pl\<lparr>pl_tasks := (pl_tasks pl)[i := t\<lparr>tk_started := True\<rparr>],
            pl_stats := (pl_stats pl)(tk_label t := conn_guard_new (pl_stats pl (tk_label t)))\<rparr>)"

definition drop_task :: "nat \<Rightarrow> plane \<Rightarrow> plane" where
  "drop_task i pl =
     (let t = pl_tasks pl ! i
      in pl\<lparr>pl_tasks := take i (pl_tasks pl) @ drop (Suc i) (pl_tasks pl),
            pl_stats := (if tk_started t
                         then (pl_stats pl)(tk_label t := conn_guard_drop (pl_stats pl (tk_label t)))
                         else pl_stats pl),
            pl_limit := (if tk_permit t then map_option release (pl_limit pl) else pl_limit pl)\<rparr>)"

text \<open>
  The interleavings: accepts, tasks that start, run their connection (on any environment) and
  end - normally, with an error, by a panic or aborted, also before they ever ran.
\<close>

inductive plane_step :: "plane \<Rightarrow> plane \<Rightarrow> bool" where
  accept: "plane_step pl (accept_connection label now now2 pl)"
| start: "i < length (pl_tasks pl) \<Longrightarrow> \<not> tk_started (pl_tasks pl ! i) \<Longrightarrow> plane_step pl (start_task i pl)"
| run: "i < length (pl_tasks pl) \<Longrightarrow> tk_started (pl_tasks pl ! i)
    \<Longrightarrow> label = tk_label (pl_tasks pl ! i)
    \<Longrightarrow> proxy_connection (ce :: nat conn_env) cfg label (parse_ip_addr (fc_remote_host cfg)) knobs (pl_stats pl label) = (r, s, evs)
    \<Longrightarrow> plane_step pl (pl\<lparr>pl_stats := (pl_stats pl)(label := s), pl_alerts := fold notify evs (pl_alerts pl)\<rparr>)"
| finish: "i < length (pl_tasks pl) \<Longrightarrow> plane_step pl (drop_task i pl)"

inductive_cases plane_stepE: "plane_step pl pl'"

definition plane_init :: "nat option \<Rightarrow> alerting \<Rightarrow> instant \<Rightarrow> plane" where
  "plane_init limit al now =
     \<lparr>pl_stats = (\<lambda>label. with_protocol label Tcp now), pl_limit = limit, pl_tasks = [],
      pl_last_limit_alert = (\<lambda>label. None), pl_alerts = al\<rparr>"

section \<open>Sampler and report\<close>

text \<open>\<open>Duration::as_secs_f64\<close>.\<close>

definition as_secs_f64 :: "duration \<Rightarrow> rat" where
  "as_secs_f64 d = rnd64 (rnd64 (of_nat (d div 1000000000)) + rnd64 (of_nat (d mod 1000000000) / 1000000000))"

definition report_period :: "duration \<Rightarrow> duration" where
  "report_period interval = max interval (from_secs 1)"

definition rate_sampler_tick :: "instant \<Rightarrow> instant \<times> registry \<Rightarrow> instant \<times> registry" where
  "rate_sampler_tick now st =
     (case st of (last_tick, reg) \<Rightarrow> (now, sample_rates (as_secs_f64 (now - last_tick)) reg))"

definition pad_right :: "nat \<Rightarrow> rstr \<Rightarrow> rstr" where
  "pad_right w s = s @ replicate (w - length s) 32"

definition pad_left :: "nat \<Rightarrow> rstr \<Rightarrow> rstr" where
  "pad_left w s = replicate (w - length s) 32 @ s"

definition traffic_row :: "stats_snapshot \<Rightarrow> rstr option" where
  "traffic_row s =
     (if sn_bytes_sent s = 0 \<and> sn_bytes_received s = 0 \<and> sn_active_connections s = 0
         \<and> sn_datagrams_dropped s = 0
      then None
      else let cell = (\<lambda>n. pad_left 10 (format_bytes n));
               num = (\<lambda>n. show_nat (unat n));
               row = lit ''  '' @ pad_right 45 (sn_label s) @ lit '' sent='' @ cell (sn_bytes_sent s)
                     @ lit ''  recv='' @ cell (sn_bytes_received s) @ lit ''  tx='' @ cell (sn_rate_sent_bps s)
                     @ lit ''/s  rx='' @ cell (sn_rate_recv_bps s) @ lit ''/s  ''
           in Some (case sn_protocol s of
                Tcp \<Rightarrow> row @ lit ''active='' @ num (sn_active_connections s)
              | Udp \<Rightarrow> row @ lit ''sessions='' @ num (sn_active_connections s)
                        @ lit ''  dgrams tx='' @ num (sn_datagrams_sent s) @ lit '' rx=''
                        @ num (sn_datagrams_received s) @ lit '' drop='' @ num (sn_datagrams_dropped s)))"

definition stats_report :: "registry \<Rightarrow> rstr list" where
  "stats_report reg =
     (let snapshots = collect reg;
          total_sent = sum_list (map sn_bytes_sent snapshots);
          total_recv = sum_list (map sn_bytes_received snapshots)
      in [replicate 3 0x2500 @ lit '' Traffic Report '' @ replicate 34 0x2500]
         @ List.map_filter traffic_row snapshots
         @ [lit ''  TOTAL (all forwarders, lifetime)    sent='' @ pad_left 10 (format_bytes total_sent)
              @ lit ''  recv='' @ pad_left 10 (format_bytes total_recv)]
         @ [replicate 54 0x2500])"

section \<open>The connection limit\<close>

text \<open>What of the counters a connection's traffic leaves alone.\<close>

lemma copy_polls_active [simp]: "sx_active_connections (fold copy_poll_step polls s) = sx_active_connections s"
proof (induction polls arbitrary: s)
  case (Cons p polls)
  have "sx_active_connections (copy_poll_step p s) = sx_active_connections s"
    by (cases p) (simp_all add: counting_poll_read_def counting_poll_write_def add_sent_def add_received_def Let_def)
  with Cons show ?case by simp
qed simp

lemma splice_pair_active [simp]:
  "sx_active_connections (sp_stats (fold splice_pair_step evs p)) = sx_active_connections (sp_stats p)"
proof (induction evs arbitrary: p)
  case (Cons ev evs)
  have "sx_active_connections (sp_stats (splice_pair_step ev p)) = sx_active_connections (sp_stats p)"
    by (auto simp: splice_pair_step_def add_sent_def add_received_def Let_def split: prod.split direction.split)
  with Cons show ?case by simp
qed simp

lemma observe_addrs_active: "sx_active_connections (snd (observe_addrs ips s)) = sx_active_connections s"
  by (cases "sx_last_addrs s") (simp_all add: observe_addrs_def Let_def)

lemma observe_targets_active:
  "observe_targets label host targets s = (s', evs) \<Longrightarrow> sx_active_connections s' = sx_active_connections s"
  using observe_addrs_active [of "map sa_ip targets" s]
  by (auto simp: observe_targets_def Let_def split: prod.splits option.splits)

lemma transfer_active: "transfer ce knobs s = (r, s') \<Longrightarrow> sx_active_connections s' = sx_active_connections s"
  by (auto simp: transfer_def copy_bidirectional_splice_def Let_def split: option.splits sum.splits if_splits)

lemma proxy_connection_active:
  "proxy_connection ce cfg label literal knobs s = (r, s', evs) \<Longrightarrow> sx_active_connections s' = sx_active_connections s"
  by (auto simp: proxy_connection_def mark_connect_failed_def mark_connect_ok_def Let_def
      dest!: observe_targets_active transfer_active split: sum.splits prod.splits if_splits)

definition plane_free :: "plane \<Rightarrow> nat" where
  "plane_free pl = (case pl_limit pl of None \<Rightarrow> 0 | Some n \<Rightarrow> n)"

definition plane_held :: "plane \<Rightarrow> nat" where
  "plane_held pl = (case pl_limit pl of None \<Rightarrow> 0 | Some n \<Rightarrow> length (filter tk_permit (pl_tasks pl)))"

lemma accept_conserves:
  "plane_free (accept_connection label now now2 pl) + plane_held (accept_connection label now now2 pl) = plane_free pl + plane_held pl"
  by (cases "pl_limit pl")
    (auto simp: accept_connection_def acquire_permit_def try_acquire_def plane_free_def plane_held_def Let_def)

lemma start_conserves:
  "i < length (pl_tasks pl) \<Longrightarrow> plane_free (start_task i pl) + plane_held (start_task i pl) = plane_free pl + plane_held pl"
  using length_filter_update_nth [of i "pl_tasks pl" tk_permit "(pl_tasks pl ! i)\<lparr>tk_started := True\<rparr>"]
  by (auto simp: start_task_def plane_free_def plane_held_def Let_def split: option.splits if_splits)

lemma drop_conserves:
  "i < length (pl_tasks pl) \<Longrightarrow> plane_free (drop_task i pl) + plane_held (drop_task i pl) = plane_free pl + plane_held pl"
  using length_filter_remove_nth [of i "pl_tasks pl" tk_permit]
  by (auto simp: drop_task_def plane_free_def plane_held_def release_def Let_def split: option.splits if_splits)

text \<open>With a limit every task carries a permit; the gauge of a forwarder counts its running tasks.\<close>

definition running_tasks :: "rstr \<Rightarrow> conn_task list \<Rightarrow> nat" where
  "running_tasks label tasks = length (filter (\<lambda>t. tk_started t \<and> tk_label t = label) tasks)"

definition plane_inv :: "plane \<Rightarrow> bool" where
  "plane_inv pl \<longleftrightarrow>
     (pl_limit pl \<noteq> None \<longrightarrow> list_all tk_permit (pl_tasks pl))
     \<and> (\<forall>label. sx_active_connections (pl_stats pl label) = of_nat (running_tasks label (pl_tasks pl)))"

lemma plane_inv_init: "plane_inv (plane_init limit al now)"
  by (simp add: plane_inv_def plane_init_def running_tasks_def with_protocol_def)

lemma plane_inv_accept: "plane_inv pl \<Longrightarrow> plane_inv (accept_connection label now now2 pl)"
  by (cases "pl_limit pl")
    (auto simp: plane_inv_def accept_connection_def acquire_permit_def try_acquire_def running_tasks_def
      inc_rejected_def Let_def)

lemma plane_inv_start:
  assumes "plane_inv pl" and i: "i < length (pl_tasks pl)" and "\<not> tk_started (pl_tasks pl ! i)"
  shows "plane_inv (start_task i pl)"
proof -
  let ?t = "pl_tasks pl ! i"
  let ?ts = "(pl_tasks pl)[i := ?t\<lparr>tk_started := True\<rparr>]"
  have count: "running_tasks l ?ts = running_tasks l (pl_tasks pl) + (if l = tk_label ?t then 1 else 0)" for l
    using length_filter_update_nth [OF i, of "\<lambda>t. tk_started t \<and> tk_label t = l" "?t\<lparr>tk_started := True\<rparr>"] assms(3)
    by (auto simp: running_tasks_def)
  have "list_all tk_permit (pl_tasks pl) \<Longrightarrow> list_all tk_permit ?ts"
    using i by (auto simp: list_all_iff dest!: subsetD [OF set_update_subset_insert])
  then show ?thesis
    using assms(1) count by (auto simp: plane_inv_def start_task_def conn_guard_new_def inc_connections_def Let_def)
qed

lemma plane_inv_drop:
  assumes "plane_inv pl" and i: "i < length (pl_tasks pl)"
  shows "plane_inv (drop_task i pl)"
proof -
  let ?t = "pl_tasks pl ! i"
  let ?ts = "take i (pl_tasks pl) @ drop (Suc i) (pl_tasks pl)"
  have count: "running_tasks l (pl_tasks pl) = running_tasks l ?ts + (if tk_started ?t \<and> tk_label ?t = l then 1 else 0)" for l
    using length_filter_remove_nth [OF i, of "\<lambda>t. tk_started t \<and> tk_label t = l"]
    by (simp add: running_tasks_def)
  have "list_all tk_permit (pl_tasks pl) \<Longrightarrow> list_all tk_permit ?ts"
    by (auto simp: list_all_iff dest: in_set_takeD in_set_dropD)
  then show ?thesis
    using assms(1) count
    by (auto simp: plane_inv_def drop_task_def conn_guard_drop_def dec_connections_def Let_def)
qed

lemma plane_inv_step: "plane_step pl pl' \<Longrightarrow> plane_inv pl \<Longrightarrow> plane_inv pl'"
proof (induction rule: plane_step.induct)
  case (run i pl label ce cfg knobs r s evs)
  then show ?case using proxy_connection_active [OF run(4)] by (simp add: plane_inv_def)
qed (auto intro: plane_inv_accept plane_inv_start plane_inv_drop)

interpretation tcp_permits: permit_pool plane_inv plane_step plane_free plane_held
proof
  show "plane_inv pl'" if "plane_inv pl" "plane_step pl pl'" for pl pl'
    using that(2,1) by (rule plane_inv_step)
  fix pl pl' assume "plane_step pl pl'"
  then show "plane_free pl' + plane_held pl' = plane_free pl + plane_held pl"
  proof cases
    case (run i label ce cfg knobs r s evs)
    then show ?thesis by (cases "pl_limit pl") (simp_all add: plane_free_def plane_held_def)
  qed (auto simp: accept_conserves start_conserves drop_conserves)
qed

lemma accept_limit: "pl_limit (accept_connection label now now2 pl) = None \<longleftrightarrow> pl_limit pl = None"
  by (cases "pl_limit pl")
    (auto simp: accept_connection_def acquire_permit_def try_acquire_def Let_def)

lemma plane_limit_kept: "plane_step\<^sup>*\<^sup>* pl pl' \<Longrightarrow> pl_limit pl = Some n \<Longrightarrow> \<exists>m. pl_limit pl' = Some m"
proof (induction rule: rtranclp_induct)
  case (step pl' pl'')
  from step(2) obtain m where "pl_limit pl' = Some m" using step(3,4) by blast
  with step(2) have "pl_limit pl'' \<noteq> None"
    by cases (auto simp: accept_limit start_task_def drop_task_def Let_def)
  then show ?case by blast
qed auto

text \<open>
  C3. The global connection limit holds at all times: whatever connections are accepted, run,
  fail, panic or are aborted and in whatever order, the process never has more than
  \<open>max_connections\<close> connection tasks, every forwarder's gauge of active connections is the
  number of its tasks that are running, and when no task is left all permits are back.\<close>
theorem connection_limit:
  assumes "plane_step\<^sup>*\<^sup>* (plane_init (Some n) al now) pl"
  shows "length (pl_tasks pl) \<le> n
     \<and> sx_active_connections (pl_stats pl label) = of_nat (running_tasks label (pl_tasks pl))
     \<and> running_tasks label (pl_tasks pl) \<le> n
     \<and> (pl_tasks pl = [] \<longrightarrow> pl_limit pl = Some n)"
proof -
  let ?init = "plane_init (Some n) al now"
  have init: "plane_held ?init = 0" "plane_free ?init = n" "pl_limit ?init = Some n"
    by (simp_all add: plane_held_def plane_free_def plane_init_def)
  obtain m where m: "pl_limit pl = Some m" using plane_limit_kept [OF assms init(3)] ..
  have inv: "plane_inv pl" using tcp_permits.reachable [OF assms plane_inv_init] ..
  then have "filter tk_permit (pl_tasks pl) = pl_tasks pl"
    using m by (auto simp: plane_inv_def list_all_iff intro: filter_True)
  then have held: "plane_held pl = length (pl_tasks pl)" using m by (simp add: plane_held_def)
  have "length (pl_tasks pl) \<le> n"
    using tcp_permits.held_bounded [OF assms plane_inv_init init(1)] init(2) held by simp
  moreover have "running_tasks label (pl_tasks pl) \<le> length (pl_tasks pl)"
    by (simp add: running_tasks_def)
  moreover have "pl_tasks pl = [] \<Longrightarrow> pl_limit pl = Some n"
    using tcp_permits.all_released [OF assms plane_inv_init init(1)] held init(2) m by (simp add: plane_free_def)
  ultimately show ?thesis using inv by (auto simp: plane_inv_def)
qed

theorem connection_limit_witness:
  "length (pl_tasks (accept_connection (lit ''a'') 0 0 (plane_init (Some 1) notifier_start 0))) \<le> 1"
proof -
  have "plane_step\<^sup>*\<^sup>* (plane_init (Some 1) notifier_start 0)
      (accept_connection (lit ''a'') 0 0 (plane_init (Some 1) notifier_start 0))"
    by (rule r_into_rtranclp) (rule plane_step.accept)
  from connection_limit [OF this, of "lit ''a''"] show ?thesis by blast
qed

section \<open>Binding is reported\<close>

fun bind_failures :: "rstr \<Rightarrow> rstr \<Rightarrow> nat \<Rightarrow> rstr list \<Rightarrow> event list" where
  "bind_failures label local_addr k [] = []"
| "bind_failures label local_addr k (e # es) =
     BindFailed label local_addr e (of_nat (Suc k)) # bind_failures label local_addr (Suc k) es"

lemma sat_add_one: "Suc k < 2 ^ 32 \<Longrightarrow> sat_add (of_nat k :: u32) 1 = of_nat (Suc k)"
  by (simp add: sat_add_def unat_of_nat)

lemma bind_loop_from:
  assumes "k + length es < 2 ^ 32"
  shows "bind_loop label local_addr (of_nat k) (map (\<lambda>e. BindErr e False) es @ BindOk # rest) =
     (Bound, bind_failures label local_addr k es
        @ (if k + length es > 0 then [BindRecovered label local_addr (of_nat (k + length es))] else []))"
  using assms
proof (induction es arbitrary: k)
  case Nil
  have "0 < k \<longleftrightarrow> (0 :: u32) < of_nat k"
    using Nil by (simp add: word_less_nat_alt unat_of_nat)
  then show ?case by simp
next
  case (Cons e es)
  have "bind_loop label local_addr (sat_add (of_nat k) 1) (map (\<lambda>e. BindErr e False) es @ BindOk # rest) =
     (Bound, bind_failures label local_addr (Suc k) es @ [BindRecovered label local_addr (of_nat (Suc k + length es))])"
    using Cons.IH [of "Suc k"] Cons.prems sat_add_one [of k] by simp
  then show ?case using Cons.prems sat_add_one [of k] by simp
qed

text \<open>
  A listener that cannot bind is retried until it binds, with one numbered report per
  failure: after failures \<open>e1 ... en\<close> (fewer than \<open>2^32\<close>) and then a success the loop ends
  bound, having raised attempts \<open>1 ... n\<close> in order and one recovery that names \<open>n\<close> - and no
  recovery when the first attempt succeeded.\<close>

lemma bind_retries_reported:
  assumes "length es < 2 ^ 32"
  shows "bind_loop label local_addr 0 (map (\<lambda>e. BindErr e False) es @ BindOk # rest) =
     (Bound, bind_failures label local_addr 0 es
        @ (if es = [] then [] else [BindRecovered label local_addr (of_nat (length es))]))"
  using bind_loop_from [of 0 es label local_addr rest] assms by simp

section \<open>Outcome of a connection\<close>

lemma transfer_not_err: "fst (transfer ce knobs s) \<noteq> ConnErr e"
  by (simp add: transfer_def Let_def split: option.split sum.split unit.split)

text \<open>The fields a failed connect must leave alone, and that observing addresses does.\<close>

definition traffic_fields :: "forwarder_stats \<Rightarrow> u64 \<times> u64 \<times> u64" where
  "traffic_fields s = (sx_bytes_sent s, sx_bytes_received s, sx_last_connect_ok_ms s)"

lemma observe_addrs_traffic: "traffic_fields (snd (observe_addrs ips s)) = traffic_fields s"
  by (cases "sx_last_addrs s") (simp_all add: observe_addrs_def Let_def traffic_fields_def)

lemma observe_targets_traffic:
  "observe_targets label host targets s = (s', evs) \<Longrightarrow> traffic_fields s' = traffic_fields s"
  using observe_addrs_traffic [of "map sa_ip targets" s]
  by (auto simp: observe_targets_def Let_def split: prod.splits option.splits)

lemma mark_connect_failed_traffic:
  "traffic_fields (mark_connect_failed s) = traffic_fields s" "sx_probe_kick (mark_connect_failed s)"
  by (simp_all add: traffic_fields_def mark_connect_failed_def)

text \<open>
  Every failure to reach the target wakes the monitor and no byte is counted: a
  connection that ends before its transfer (the lookup failed, or no address answered) sets
  the monitor's kick and leaves the byte counters and the time of the last success as they
  were.\<close>
lemma failed_connect_kicks_monitor:
  assumes "proxy_connection ce cfg label literal knobs s = (ConnErr e, s', evs)"
  shows "sx_probe_kick s' \<and> sx_bytes_sent s' = sx_bytes_sent s \<and> sx_bytes_received s' = sx_bytes_received s
     \<and> sx_last_connect_ok_ms s' = sx_last_connect_ok_ms s"
proof -
  have "traffic_fields s' = traffic_fields s \<and> sx_probe_kick s'"
  proof (cases "resolve_targets (fc_remote_host cfg) (fc_remote_port cfg) literal (ne_resolver (ce_net ce))")
    case (Inl m)
    with assms show ?thesis by (auto simp: proxy_connection_def mark_connect_failed_traffic)
  next
    case (Inr targets)
    obtain s1 evs1 where o: "(if literal = None then observe_targets label (fc_remote_host cfg) targets s
        else (s, [])) = (s1, evs1)" by fastforce
    then have s1: "traffic_fields s1 = traffic_fields s"
      by (auto split: if_splits dest: observe_targets_traffic)
    have "s' = mark_connect_failed s1"
    proof (cases "connect_racing (ne_attempt (ce_net ce)) (ks_connect_timeout knobs) targets")
      case (Inl m)
      with assms Inr o show ?thesis by (simp add: proxy_connection_def)
    next
      case (Inr c)
      with assms \<open>_ = Inr targets\<close> o have "fst (transfer ce knobs (mark_connect_ok (ce_now ce) s1)) = ConnErr e"
        by (simp add: proxy_connection_def split: prod.splits)
      then show ?thesis using transfer_not_err by blast
    qed
    with s1 show ?thesis by (simp add: mark_connect_failed_traffic)
  qed
  then show ?thesis by (simp add: traffic_fields_def)
qed

end
