(* ===== verification/Udp_Forwarder.thy ===== *)
theory Udp_Forwarder
  imports Udp_Latches Forwarder
begin

text \<open>
  The life of one UDP forwarder (\<open>run_udp_forwarder\<close> in \<open>src/src/udp.rs\<close>) around its engine:
  the bind loop it shares with TCP, the tuning of the listener, the opening of an upstream
  socket, and what its stop guarantees. The steps of the stop itself are rules of \<open>engine_step\<close>.
\<close>

section \<open>Sockets\<close>

text \<open>The answers of the system for one upstream socket.\<close>

record upstream_calls =
  uc_socket :: "io_error + unit"
  uc_nonblocking :: "io_error + unit"
  uc_connect :: "io_error + unit"
  uc_register :: "io_error + unit"

text \<open>The options are best effort: their failures are ignored. The result lists those asked for.\<close>

definition connect_upstream :: "upstream_calls \<Rightarrow> nat option \<Rightarrow> (io_error + unit) \<times> sock_opt list" where
  "connect_upstream uc sockbuf =
     (case uc_socket uc of
        Inl e \<Rightarrow> (Inl e, [])
      | Inr _ \<Rightarrow>
          (case uc_nonblocking uc of
             Inl e \<Rightarrow> (Inl e, [])
           | Inr _ \<Rightarrow>
               (let opts = (case sockbuf of Some sz \<Rightarrow> [RecvBuffer sz, SendBuffer sz] | None \<Rightarrow> [])
                in (and_then (uc_connect uc) (\<lambda>_. uc_register uc), opts))))"

text \<open>\<open>got\<close> is the receive buffer the kernel reports; the flag is the warning about a cap.\<close>

definition tune_listener :: "(io_error + nat) \<Rightarrow> nat option \<Rightarrow> sock_opt list \<times> bool" where
  "tune_listener got sockbuf =
     (case sockbuf of
        None \<Rightarrow> ([], False)
      | Some want \<Rightarrow>
          ([RecvBuffer want, SendBuffer want], case got of Inr n \<Rightarrow> n < want | Inl _ \<Rightarrow> False))"

section \<open>Start\<close>

text \<open>
  The bind loop and, once bound, the fresh engine with the gauge of the listener set. The
  alerts of the bind loop are queued first.
\<close>

definition udp_start :: "forwarder_config \<Rightarrow> bind_answer list \<Rightarrow> forwarder_stats \<Rightarrow> runtime_knobs \<Rightarrow> nat
    \<Rightarrow> alerting \<Rightarrow> 'w \<Rightarrow> bind_end \<times> 'w engine option \<times> alerting" where
  "udp_start cfg answers stats knobs free al w =
     (case bind_loop (fc_label cfg) (fc_local_addr cfg) 0 answers of
        (r, evs) \<Rightarrow>
          (let al' = fold notify evs al
           in (r, if r = Bound
                  then Some (engine_new cfg (parse_ip_addr (fc_remote_host cfg)) (listening_guard_new stats) knobs free al' w) else None, al')))"

section \<open>After the table is closed\<close>

definition table_closed :: "'w engine \<Rightarrow> bool" where
  "table_closed en \<longleftrightarrow> (en_phase en = Closing \<or> en_phase en = Returned) \<and> (\<forall>s \<in> set (en_sessions en). \<not> se_listed s)"

lemma phase_simps [simp]:
  "en_phase (reap en) = en_phase en" "en_phase (absorb_reply en rp) = en_phase en" "en_phase (end_task s en) = en_phase en"
  "en_phase (unlist_where P en) = en_phase en"
  by (simp_all add: reap_def absorb_reply_def end_task_def unlist_where_def Let_def)

lemma session_turn_phase [simp]: "en_phase (session_turn k ready sends s en) = en_phase en"
  by (simp add: session_turn_def Let_def split: prod.split session_drain.split option.split)

lemma dns_refresh_frame [simp]:
  "en_phase (snd (snd (dns_refresh cfg resolver now (g, en)))) = en_phase en"
  "en_sessions (snd (snd (dns_refresh cfg resolver now (g, en)))) = en_sessions en"
  by (simp_all add: dns_refresh_def Let_def split: sum.split prod.split)

text \<open>The sessions of a later state are some of the earlier ones, and none of them newly listed.\<close>

definition only_fewer :: "session list \<Rightarrow> session list \<Rightarrow> bool" where
  "only_fewer ss ss' \<longleftrightarrow> (\<forall>t \<in> set ss'. \<exists>u \<in> set ss. se_id u = se_id t \<and> (se_listed t \<longrightarrow> se_listed u))"

lemma only_fewer_trans: "only_fewer a b \<Longrightarrow> only_fewer b c \<Longrightarrow> only_fewer a c"
  unfolding only_fewer_def by metis

lemma only_fewer_ids: "only_fewer ss ss' \<Longrightarrow> se_id ` set ss' \<subseteq> se_id ` set ss"
proof
  fix i assume f: "only_fewer ss ss'" and "i \<in> se_id ` set ss'"
  then obtain t where t: "t \<in> set ss'" "i = se_id t" by blast
  then obtain u where "u \<in> set ss" "se_id u = i" using f by (auto simp: only_fewer_def)
  then show "i \<in> se_id ` set ss" by blast
qed

lemma end_task_sessions:
  "en_sessions (end_task s en) =
     filter session_alive (map (\<lambda>t. if se_id t = se_id s then t\<lparr>se_task := False\<rparr> else t) (en_sessions en))"
  by (simp add: end_task_def reap_def Let_def)

lemma end_task_fewer: "only_fewer (en_sessions en) (en_sessions (end_task s en))"
  by (auto simp: only_fewer_def end_task_sessions)

lemma replace_fewer:
  "s \<in> set ss \<Longrightarrow> se_id s' = se_id s \<Longrightarrow> se_listed s' = se_listed s \<Longrightarrow> only_fewer ss (replace_session s' ss)"
  unfolding only_fewer_def replace_session_def by auto

text \<open>The table is closed by \<open>close_all\<close> only.\<close>

lemma enters_closing:
  assumes "engine_step k en en'" and "good c en" and "en_phase en \<noteq> Closing" and "en_phase en' = Closing"
  shows "en' = (close_all en)\<lparr>en_phase := Closing\<rparr>"
proof -
  have same: "en_phase e = en_phase en" if "good c e" for e
    using that assms(2) by (cases c) (auto simp: good_def tally_def life_def)
  from assms(1) show ?thesis
  proof cases
    case tick
    then have "good c en'" using assms(2) by (simp add: on_tick_def sweep_def unlist_good)
    from same [OF this] assms(3,4) show ?thesis by simp
  next
    case readable
    then have "good c en'" using assms(2) by (simp add: table.readable)
    from same [OF this] assms(3,4) show ?thesis by simp
  qed (use assms(3,4) in \<open>simp_all add: gate_recv_failed_def on_targets_changed_def return_forwarder_def\<close>)
qed

lemma session_turn_fewer:
  assumes s: "s \<in> set (en_sessions en)"
  shows "only_fewer (en_sessions en) (en_sessions (session_turn k ready sends s en))"
proof (cases ready)
  case False
  have "only_fewer (en_sessions en) (replace_session (s\<lparr>se_dead := True\<rparr>) (en_sessions en))" by (rule replace_fewer [OF s]) simp_all
  then show ?thesis
    using False only_fewer_trans [OF _ end_task_fewer, of _ "en\<lparr>en_sessions := replace_session (s\<lparr>se_dead := True\<rparr>) (en_sessions en)\<rparr>"]
    by (simp add: session_turn_def)
next
  case True
  obtain r rp got where d: "drain_upstream k en s = (r, rp, got)" by (metis prod.exhaust)
  have one: "only_fewer (en_sessions en) (en_sessions (absorb_reply en q))" if "replying_key q = replying_key rp" for q
    using that drain_upstream_key [OF d] s by (auto simp: absorb_reply_def replying_key_def intro!: replace_fewer)
  have two: "only_fewer (en_sessions en) (en_sessions (end_task s (absorb_reply en q)))" if "replying_key q = replying_key rp" for q
    by (rule only_fewer_trans [OF one [OF that] end_task_fewer])
  note key = send_blocked_key [of k _ rp, THEN conjunct1]
  show ?thesis using True one two key by (cases r; cases sends) (auto simp: session_turn_def d Let_def)
qed

lemma closed_step:
  assumes "engine_step k en en'" and "table_closed en"
  shows "table_closed en' \<and> only_fewer (en_sessions en) (en_sessions en')"
proof -
  have fewer: ?thesis if "only_fewer (en_sessions en) (en_sessions en')" "en_phase en' = en_phase en \<or> en_phase en' = Returned"
    using that assms(2) by (auto simp: table_closed_def only_fewer_def)
  have same: "only_fewer ss ss" for ss by (auto simp: only_fewer_def)
  from assms(1) show ?thesis
  proof cases
    case (reply s sends ready)
    then show ?thesis using session_turn_fewer [of s en] by (intro fewer) simp_all
  next
    case (cancelled s)
    then show ?thesis using end_task_fewer [of en s] by (intro fewer) simp_all
  next
    case (panicked s)
    then show ?thesis using end_task_fewer [of "en\<lparr>en_panicked := se_id s # en_panicked en\<rparr>" s] by (intro fewer) simp_all
  next
    case refresh
    then show ?thesis by (intro fewer) (simp_all add: same)
  next
    case environment
    then show ?thesis by (intro fewer) (simp_all add: same)
  next
    case joined
    then show ?thesis by (intro fewer) (simp_all add: same return_forwarder_def)
  next
    case grace_over
    then show ?thesis by (intro fewer) (simp_all add: same return_forwarder_def)
  qed (use assms(2) in \<open>auto simp: table_closed_def in_loop_def\<close>)
qed

lemma closed_run: "(engine_step k)\<^sup>*\<^sup>* en en' \<Longrightarrow> table_closed en \<Longrightarrow> table_closed en' \<and> only_fewer (en_sessions en) (en_sessions en')"
proof (induction rule: rtranclp_induct)
  case base
  then show ?case by (auto simp: only_fewer_def)
next
  case (step e e')
  then show ?case using closed_step [OF step(2)] only_fewer_trans by blast
qed

lemma close_closes: "table_closed ((close_all en)\<lparr>en_phase := Closing\<rparr>)"
  using unlist_listed [of "\<lambda>_. True" en] by (auto simp: table_closed_def close_all_def filter_empty_conv)

section \<open>Nothing is left behind\<close>

text \<open>What every reachable state keeps: the counts, the listening flag, and the closed table.\<close>

definition forwarder_ok :: "nat \<Rightarrow> 'w engine \<Rightarrow> bool" where
  "forwarder_ok n en \<longleftrightarrow>
     good (n, 0, life en) en \<and> (sx_listening (en_stats en) \<longleftrightarrow> en_phase en \<noteq> Returned) \<and> (in_loop en \<or> table_closed en)"

lemma forwarder_ok_step:
  assumes "engine_step k en en'" and ok: "forwarder_ok n en"
  shows "forwarder_ok n en'"
proof -
  obtain l' where l': "good (n, 0, l') en'" "life_step (life en) l'"
    using engine_step_good [OF assms(1)] ok unfolding forwarder_ok_def by blast
  then have eq: "l' = life en'" using good_life_eq by blast
  have "in_loop en' \<or> table_closed en'"
  proof (cases "in_loop en")
    case False
    then show ?thesis using ok closed_step [OF assms(1)] by (simp add: forwarder_ok_def)
  next
    case True
    have "table_closed en'" if "en_phase en' = Closing"
      using enters_closing [OF assms(1) _ _ that, of "(n, 0, life en)"] ok True close_closes [of en]
      by (auto simp: forwarder_ok_def in_loop_def)
    then show ?thesis using l'(2) True unfolding eq by (auto simp: life_step_def life_def in_loop_def)
  qed
  moreover have "sx_listening (en_stats en') \<longleftrightarrow> en_phase en' \<noteq> Returned"
    using l'(2) ok unfolding eq by (auto simp: life_step_def life_def forwarder_ok_def)
  ultimately show ?thesis using l'(1) eq by (simp add: forwarder_ok_def)
qed

lemma forwarder_ok_run: "(engine_step k)\<^sup>*\<^sup>* en en' \<Longrightarrow> forwarder_ok n en \<Longrightarrow> forwarder_ok n en'"
  by (induction rule: rtranclp_induct) (auto intro: forwarder_ok_step)

lemma forwarder_ok_start:
  "udp_start cfg answers stats knobs free al w = (Bound, Some en, al') \<Longrightarrow> sx_active_connections stats = 0 \<Longrightarrow> forwarder_ok free en"
  by (auto simp: udp_start_def engine_new_def forwarder_ok_def good_def engine_ok_def sessions_ok_def tally_def life_def in_loop_def
      listening_guard_new_def set_listening_def Let_def split: prod.splits if_splits)

lemma closed_tasks: "forwarder_ok n en \<Longrightarrow> table_closed en \<Longrightarrow> s \<in> set (en_sessions en) \<Longrightarrow> \<not> se_listed s \<and> se_task s"
  by (auto simp: forwarder_ok_def good_def engine_ok_def table_closed_def list_all_iff session_alive_def)

text \<open>The tasks that are left can all end.\<close>

lemma tasks_end:
  "forwarder_ok n en \<Longrightarrow> table_closed en \<Longrightarrow>
   \<exists>en'. (engine_step k)\<^sup>*\<^sup>* en en' \<and> en_sessions en' = [] \<and> table_closed en' \<and> en_phase en' = en_phase en"
proof (induction "length (en_sessions en)" arbitrary: en rule: less_induct)
  case less
  show ?case
  proof (cases "en_sessions en")
    case Nil
    then show ?thesis using less.prems by blast
  next
    case (Cons s ss)
    then have s: "s \<in> set (en_sessions en)" "\<not> se_listed s" "se_task s" using closed_tasks [OF less.prems] by simp_all
    have step: "engine_step k en (end_task s en)" by (rule engine_step.cancelled) (use s in \<open>simp_all add: session_cancelled_def\<close>)
    let ?f = "\<lambda>t. if se_id t = se_id s then t\<lparr>se_task := False\<rparr> else t"
    have "?f s \<in> set (map ?f (en_sessions en))" "\<not> session_alive (?f s)" using s by (auto simp: session_alive_def)
    from length_filter_less [of _ "map ?f (en_sessions en)" session_alive, OF this]
    have "length (en_sessions (end_task s en)) < length (en_sessions en)" by (simp add: end_task_sessions)
    from less.hyps [OF this forwarder_ok_step [OF step less.prems(1)]] closed_step [OF step less.prems(2)]
    obtain e where "(engine_step k)\<^sup>*\<^sup>* (end_task s en) e" "en_sessions e = []" "table_closed e" "en_phase e = en_phase en" by auto
    with step show ?thesis by (meson converse_rtranclp_into_rtranclp)
  qed
qed

lemma stop_completes:
  assumes ok: "forwarder_ok n en"
  shows "\<exists>en'. (engine_step k)\<^sup>*\<^sup>* en en' \<and> en_sessions en' = [] \<and> en_phase en' = Returned"
proof -
  have after: "\<exists>en'. (engine_step k)\<^sup>*\<^sup>* e en' \<and> en_sessions en' = [] \<and> en_phase en' = Returned" if ok': "forwarder_ok n e" and cl: "table_closed e" for e
  proof -
    obtain e' where e': "(engine_step k)\<^sup>*\<^sup>* e e'" "en_sessions e' = []" "table_closed e'" "en_phase e' = en_phase e"
      using tasks_end [OF ok' cl] by blast
    show ?thesis
    proof (cases "en_phase e' = Returned")
      case False
      then have "engine_step k e' (return_forwarder e')" using e' by (intro engine_step.joined) (auto simp: table_closed_def)
      with e' show ?thesis by (intro exI [of _ "return_forwarder e'"]) (auto simp: return_forwarder_def)
    qed (use e' in blast)
  qed
  have cancelled: "\<exists>en'. (engine_step k)\<^sup>*\<^sup>* e en' \<and> en_sessions en' = [] \<and> en_phase en' = Returned"
    if "forwarder_ok n e" "en_phase e = LoopCancelled" for e
  proof -
    have st: "engine_step k e ((close_all e)\<lparr>en_phase := Closing\<rparr>)" using that(2) by (rule engine_step.close)
    then show ?thesis using after [OF forwarder_ok_step [OF st that(1)] close_closes] by (meson converse_rtranclp_into_rtranclp)
  qed
  consider "table_closed en" | "en_phase en = LoopCancelled" | "en_phase en = LoopRuns" using ok by (auto simp: forwarder_ok_def in_loop_def)
  then show ?thesis
  proof cases
    case 3
    then have st: "engine_step k en (en\<lparr>en_phase := LoopCancelled\<rparr>)" by (rule engine_step.stop)
    then show ?thesis using cancelled [OF forwarder_ok_step [OF st ok]] by (auto intro: converse_rtranclp_into_rtranclp)
  qed (use after cancelled ok in blast)+
qed

text \<open>
  C15. A UDP forwarder gives everything back. At every moment between its bind and its end, whatever
  it went through (datagrams, replies, resolver answers, sweeps, reloads of the knobs, failing
  system calls, tasks that ended or panicked), the permits it holds and its gauge of active
  connections are exactly its sessions, and it reports itself as listening until it returns.
  Once its table is closed no session is listed and none is ever opened again: those left
  have a running task whose token is cancelled, their number only falls, also when the wait of
  two seconds is over and the forwarder has returned before them. And from every moment on it
  can be stopped so that no session is left, all its permits are free, the gauge is zero and
  the listener is no longer reported as bound.\<close>
theorem udp_stop_gives_everything_back:
  assumes "udp_start cfg answers stats knobs free al w = (Bound, Some en, al')"
    and "(engine_step k)\<^sup>*\<^sup>* en en'" and "sx_active_connections stats = 0"
  shows "en_free en' + length (en_sessions en') = free \<and> sx_active_connections (en_stats en') = of_nat (length (en_sessions en'))
    \<and> (sx_listening (en_stats en') \<longleftrightarrow> en_phase en' \<noteq> Returned)
    \<and> (en_phase en' = Closing \<or> en_phase en' = Returned \<longrightarrow>
         (\<forall>s \<in> set (en_sessions en'). \<not> se_listed s \<and> se_task s)
         \<and> (\<forall>en''. (engine_step k)\<^sup>*\<^sup>* en' en'' \<longrightarrow> se_id ` set (en_sessions en'') \<subseteq> se_id ` set (en_sessions en')))
    \<and> (\<exists>en''. (engine_step k)\<^sup>*\<^sup>* en' en'' \<and> en_phase en'' = Returned \<and> en_sessions en'' = [] \<and> en_free en'' = free
         \<and> sx_active_connections (en_stats en'') = 0 \<and> \<not> sx_listening (en_stats en''))"
proof -
  have counts: "en_free e + length (en_sessions e) = free \<and> sx_active_connections (en_stats e) = of_nat (length (en_sessions e))
      \<and> (sx_listening (en_stats e) \<longleftrightarrow> en_phase e \<noteq> Returned)" if "forwarder_ok free e" for e
    using that by (simp add: forwarder_ok_def good_def tally_def)
  have ok: "forwarder_ok free en'" by (rule forwarder_ok_run [OF assms(2) forwarder_ok_start [OF assms(1,3)]])
  have cl: "table_closed en'" if "en_phase en' = Closing \<or> en_phase en' = Returned"
    using that ok by (auto simp: forwarder_ok_def in_loop_def)
  have "se_id ` set (en_sessions en'') \<subseteq> se_id ` set (en_sessions en')" if "table_closed en'" "(engine_step k)\<^sup>*\<^sup>* en' en''" for en''
    using closed_run [OF that(2,1)] only_fewer_ids by blast
  moreover obtain e where e: "(engine_step k)\<^sup>*\<^sup>* en' e" "en_sessions e = []" "en_phase e = Returned"
    using stop_completes [OF ok] by blast
  ultimately show ?thesis
    using counts [OF ok] cl closed_tasks [OF ok] counts [OF forwarder_ok_run [OF e(1) ok]] e by (auto intro!: exI [of _ e])
qed

definition sample_udp_cfg :: forwarder_config where
  "sample_udp_cfg = \<lparr>fc_local_host = lit ''a'', fc_local_port = 53, fc_remote_host = show_ip (V4 9), fc_remote_port = 53,
     fc_protocol = Udp\<rparr>"

definition sample_started :: "nat engine" where
  "sample_started = engine_new sample_udp_cfg (Some (V4 9)) (listening_guard_new (with_protocol (lit ''dns'') Udp 0))
     (knobs_from_settings settings_default) 2 notifier_start 0"

lemma sample_started_opens: "length (en_sessions (snd (on_readable sample_kernel sample_started))) = 1"
  by (simp add: on_readable_def drain_listener_def sample_started_def sample_kernel_def offload_init_def Let_def
      LISTENER_BATCH_def drain_loop_numeral on_client_datagram_def on_client_def find_session_def open_session_def
      try_acquire_def session_gro_def add_session_def absorb_def replace_session_def forward_upstream_def sending_of_def
      touch_session_def count_sent_def touch_def classify_udp_err_def engine_new_def sample_udp_cfg_def)

text \<open>Bound at once and one session opened: one permit is held, and a stop gives it back.\<close>

theorem udp_stop_gives_everything_back_witness:
  "length (en_sessions (snd (on_readable sample_kernel sample_started))) = 1
   \<and> en_free (snd (on_readable sample_kernel sample_started)) = 1
   \<and> (\<exists>en''. (engine_step sample_kernel)\<^sup>*\<^sup>* (snd (on_readable sample_kernel sample_started)) en''
        \<and> en_phase en'' = Returned \<and> en_sessions en'' = [] \<and> en_free en'' = 2)"
proof -
  have "udp_start sample_udp_cfg [BindOk] (with_protocol (lit ''dns'') Udp 0)
      (knobs_from_settings settings_default) 2 notifier_start 0 = (Bound, Some sample_started, notifier_start)"
    by (simp add: udp_start_def sample_started_def sample_udp_cfg_def parse_ip_addr_show del: show_ip.simps)
  moreover have "in_loop sample_started" by (simp add: in_loop_def sample_started_def engine_new_def)
  then have "(engine_step sample_kernel)\<^sup>*\<^sup>* sample_started (snd (on_readable sample_kernel sample_started))"
    by (intro r_into_rtranclp engine_step.readable)
  moreover have "sx_active_connections (with_protocol (lit ''dns'') Udp 0) = 0" by (simp add: with_protocol_def)
  ultimately show ?thesis
    using udp_stop_gives_everything_back [of sample_udp_cfg "[BindOk]"] sample_started_opens by fastforce
qed

end
