(* ===== verification/Metrics_Json.thy ===== *)
theory Metrics_Json
  imports Metrics
begin

text \<open>
  What a client of \<open>/stats\<close> gets (\<open>render_json\<close> in \<open>src/src/metrics.rs\<close>): JSON values, their
  compact text, a reader for it, and the proof that the endpoint prints exactly one object per
  forwarder with the fields of its snapshot.
\<close>

section \<open>Values, printing and reading\<close>

datatype json = JNull | JBool bool | JNum nat | JStr rstr | JArr "json list" | JObj "(rstr \<times> json) list"

definition print_string :: "rstr \<Rightarrow> rstr" where
  "print_string s = 34 # escape s @ [34]"

fun print_json :: "json \<Rightarrow> rstr" where
  "print_json JNull = lit ''null''"
| "print_json (JBool b) = show_bool b"
| "print_json (JNum n) = show_nat n"
| "print_json (JStr s) = print_string s"
| "print_json (JArr vs) = 91 # join_str [44] (map print_json vs) @ [93]"
| "print_json (JObj ms) = 123 # join_str [44] (map (\<lambda>(k, v). print_string k @ 58 # print_json v) ms) @ [125]"

text \<open>The inside of a string literal up to its closing quote.\<close>

fun read_string :: "rstr \<Rightarrow> (rstr \<times> rstr) option" where
  "read_string [] = None"
| "read_string (c # cs) =
     (if c = 34 then Some ([], cs)
      else if c < 32 then None
      else if c \<noteq> 92 then map_option (apfst ((#) c)) (read_string cs)
      else case cs of
             [] \<Rightarrow> None
           | d # ds \<Rightarrow>
               if d = 92 then map_option (apfst ((#) 92)) (read_string ds)
               else if d = 34 then map_option (apfst ((#) 34)) (read_string ds)
               else if d = 110 then map_option (apfst ((#) 10)) (read_string ds)
               else if d = 114 then map_option (apfst ((#) 13)) (read_string ds)
               else if d = 116 then map_option (apfst ((#) 9)) (read_string ds)
               else if d = 117
               then (case ds of
                       h1 # h2 # h3 # h4 # es \<Rightarrow>
                         (case (hex_value h1, hex_value h2, hex_value h3, hex_value h4) of
                            (Some a, Some b, Some e, Some f) \<Rightarrow>
                              map_option (apfst ((#) (a * 4096 + b * 256 + e * 16 + f))) (read_string es)
                          | _ \<Rightarrow> None)
                     | _ \<Rightarrow> None)
               else None)"

definition read_nat :: "rstr \<Rightarrow> (nat \<times> rstr) option" where
  "read_nat s =
     (let ds = takeWhile is_ascii_digit s
      in if ds = [] \<or> (hd ds = 48 \<and> length ds > 1) then None else Some (digits_value 10 0 ds, drop (length ds) s))"

definition read_word :: "rstr \<Rightarrow> json \<Rightarrow> rstr \<Rightarrow> (json \<times> rstr) option" where
  "read_word w v s = map_option (\<lambda>r. (v, r)) (strip_prefix w s)"

fun json_value :: "nat \<Rightarrow> rstr \<Rightarrow> (json \<times> rstr) option"
  and json_items :: "nat \<Rightarrow> rstr \<Rightarrow> (json list \<times> rstr) option"
  and json_members :: "nat \<Rightarrow> rstr \<Rightarrow> ((rstr \<times> json) list \<times> rstr) option" where
  "json_value 0 s = None"
| "json_value (Suc n) s =
     (case s of
        [] \<Rightarrow> None
      | c # cs \<Rightarrow>
          if c = 34 then map_option (apfst JStr) (read_string cs)
          else if c = 91
          then (if cs \<noteq> [] \<and> hd cs = 93 then Some (JArr [], tl cs) else map_option (apfst JArr) (json_items n cs))
          else if c = 123
          then (if cs \<noteq> [] \<and> hd cs = 125 then Some (JObj [], tl cs) else map_option (apfst JObj) (json_members n cs))
          else if c = 116 then read_word (lit ''true'') (JBool True) s
          else if c = 102 then read_word (lit ''false'') (JBool False) s
          else if c = 110 then read_word (lit ''null'') JNull s
          else map_option (apfst JNum) (read_nat s))"
| "json_items 0 s = None"
| "json_items (Suc n) s =
     (case json_value n s of
        Some (v, c # r) \<Rightarrow>
          if c = 44 then map_option (apfst ((#) v)) (json_items n r) else if c = 93 then Some ([v], r) else None
      | _ \<Rightarrow> None)"
| "json_members 0 s = None"
| "json_members (Suc n) s =
     (if s \<noteq> [] \<and> hd s = 34
      then case read_string (tl s) of
             Some (k, d # r0) \<Rightarrow>
               if d = 58
               then (case json_value n r0 of
                       Some (v, c # r) \<Rightarrow>
                         if c = 44 then map_option (apfst ((#) (k, v))) (json_members n r)
                         else if c = 125 then Some ([(k, v)], r) else None
                     | _ \<Rightarrow> None)
               else None
           | _ \<Rightarrow> None
      else None)"

text \<open>Every call of the reader uses up a character, so the length of the text is enough.\<close>

definition parse_json :: "rstr \<Rightarrow> json option" where
  "parse_json s = (case json_value (length s) s of Some (v, []) \<Rightarrow> Some v | _ \<Rightarrow> None)"

section \<open>Reading what was printed\<close>

lemma read_escaped_char: "read_string (escape_char c @ s) = map_option (apfst ((#) c)) (read_string s)"
proof (cases "c \<in> {92, 34, 10, 13, 9} \<or> \<not> is_control c")
  case True
  then show ?thesis by (auto simp: escape_char_def is_control_def)
next
  case False
  then have "c < 160" by (auto simp: is_control_def)
  from hex4_parts [OF this] obtain h1 h2 h3 h4 where h: "hex4 c = [h1, h2, h3, h4]" "hex_value h1 = Some 0"
      "hex_value h2 = Some 0" "hex_value h3 = Some (c div 16)" "hex_value h4 = Some (c mod 16)" by blast
  have "c div 16 * 16 + c mod 16 = c" by simp
  with False h show ?thesis by (simp add: escape_char_def)
qed

lemma read_escaped: "read_string (escape s @ 34 # r) = Some (s, r)"
  by (induction s) (simp_all add: escape_def read_escaped_char)

lemma read_show_nat: "stops_number 10 r \<Longrightarrow> read_nat (show_nat n @ r) = Some (n, r)"
proof -
  assume r: "stops_number 10 r"
  have "takeWhile is_ascii_digit (show_nat n @ r) = show_nat n"
    using show_nat_digits [of n] r by (cases r) (simp_all add: to_digit_10 split: if_splits)
  moreover have "hd (show_nat n) = 48 \<Longrightarrow> length (show_nat n) \<le> 1"
    using show_nat_hd [of n] by (cases "n = 0") (simp_all add: show_nat_zero)
  ultimately show ?thesis by (auto simp: read_nat_def Let_def show_nat_value)
qed

lemma strip_prefix_append [simp]: "strip_prefix p (p @ s) = Some s"
  by (induction p) simp_all

lemma show_nat_first: "\<exists>c cs. show_nat n = c # cs \<and> is_ascii_digit c"
  using show_nat_digits [of n] by (cases "show_nat n") (simp_all add: list.set_intros)

lemma print_first: "\<exists>c cs. print_json j = c # cs \<and> c \<noteq> 93 \<and> c \<noteq> 125"
proof (cases j)
  case (JNum n)
  then show ?thesis using show_nat_first [of n] by (auto simp: is_ascii_digit_def)
qed (auto simp: print_string_def show_bool_def)

text \<open>A value that reads back is what the lists need of their elements.\<close>

definition reads_back :: "json \<Rightarrow> bool" where
  "reads_back j \<longleftrightarrow> (\<forall>n r. stops_number 10 r \<longrightarrow> length (print_json j) \<le> n \<longrightarrow> json_value n (print_json j @ r) = Some (j, r))"

lemma reads_backD: "reads_back j \<Longrightarrow> stops_number 10 r \<Longrightarrow> length (print_json j) \<le> n \<Longrightarrow> json_value n (print_json j @ r) = Some (j, r)"
  by (simp add: reads_back_def)

lemma closers_stop [simp]: "to_digit 10 44 = None" "to_digit 10 93 = None" "to_digit 10 125 = None"
  by (simp_all add: to_digit_def)

lemma read_items:
  assumes "vs \<noteq> []" and "\<forall>v \<in> set vs. reads_back v" and "length (join_str [44] (map print_json vs)) < n"
  shows "json_items n (join_str [44] (map print_json vs) @ 93 # r) = Some (vs, r)"
  using assms
proof (induction vs arbitrary: n)
  case (Cons v vs)
  then obtain k where n: "n = Suc k" by (cases n) simp_all
  show ?case
  proof (cases vs)
    case Nil
    then have "json_value k (print_json v @ 93 # r) = Some (v, 93 # r)"
      using Cons.prems n by (intro reads_backD) simp_all
    with Nil n show ?thesis by simp
  next
    case (Cons w ws)
    let ?rest = "join_str [44] (map print_json vs) @ 93 # r"
    have "json_value k (print_json v @ 44 # ?rest) = Some (v, 44 # ?rest)"
      using Cons.prems Cons n by (intro reads_backD) simp_all
    moreover have "json_items k ?rest = Some (vs, r)"
      using Cons.prems Cons n by (intro Cons.IH) simp_all
    ultimately show ?thesis using Cons n by simp
  qed
qed simp

lemma read_members:
  assumes "ms \<noteq> []" and "\<forall>(k, v) \<in> set ms. reads_back v"
    and "length (join_str [44] (map (\<lambda>(k, v). print_string k @ 58 # print_json v) ms)) < n"
  shows "json_members n (join_str [44] (map (\<lambda>(k, v). print_string k @ 58 # print_json v) ms) @ 125 # r) = Some (ms, r)"
  using assms
proof (induction ms arbitrary: n)
  case (Cons m ms)
  let ?text = "\<lambda>(k, v). print_string k @ 58 # print_json v"
  obtain key v where m: "m = (key, v)" by fastforce
  obtain k where n: "n = Suc k" using Cons.prems by (cases n) simp_all
  show ?case
  proof (cases ms)
    case Nil
    then have "json_value k (print_json v @ 125 # r) = Some (v, 125 # r)"
      using Cons.prems n m by (intro reads_backD) simp_all
    with Nil n m show ?thesis by (simp add: print_string_def read_escaped)
  next
    case (Cons w ws)
    let ?rest = "join_str [44] (map ?text ms) @ 125 # r"
    have "json_value k (print_json v @ 44 # ?rest) = Some (v, 44 # ?rest)"
      using Cons.prems Cons n m by (intro reads_backD) simp_all
    moreover have "json_members k ?rest = Some (ms, r)"
      using Cons.prems Cons n m by (intro Cons.IH) simp_all
    ultimately show ?thesis using Cons n m by (simp add: print_string_def read_escaped)
  qed
qed simp

lemma join_first: "xs \<noteq> [] \<Longrightarrow> \<exists>rest. join_str sep xs = hd xs @ rest"
  by (induction sep xs rule: join_str.induct) auto

lemma print_reads_back: "reads_back j"
proof (induction j)
  case (JNum x)
  show ?case
    unfolding reads_back_def
  proof (intro allI impI)
    fix n r assume "stops_number 10 r" "length (print_json (JNum x)) \<le> n"
    moreover obtain c cs where "show_nat x = c # cs" "is_ascii_digit c" using show_nat_first by blast
    ultimately show "json_value n (print_json (JNum x) @ r) = Some (JNum x, r)"
      using read_show_nat [of r x] by (cases n) (auto simp: is_ascii_digit_def)
  qed
next
  case (JArr vs)
  show ?case
    unfolding reads_back_def
  proof (intro allI impI)
    fix n r assume n: "length (print_json (JArr vs)) \<le> n"
    then obtain k where k: "n = Suc k" by (cases n) simp_all
    show "json_value n (print_json (JArr vs) @ r) = Some (JArr vs, r)"
    proof (cases "vs = []")
      case False
      then obtain rest where rest: "join_str [44] (map print_json vs) = print_json (hd vs) @ rest"
        using join_first [of "map print_json vs" "[44]"] by (auto simp: list.map_sel)
      have "json_items k (join_str [44] (map print_json vs) @ 93 # r) = Some (vs, r)"
        using False JArr n k by (intro read_items) simp_all
      with False k print_first [of "hd vs"] rest show ?thesis by auto
    qed (simp add: k)
  qed
next
  case (JObj ms)
  show ?case
    unfolding reads_back_def
  proof (intro allI impI)
    fix n r assume n: "length (print_json (JObj ms)) \<le> n"
    then obtain k where k: "n = Suc k" by (cases n) simp_all
    show "json_value n (print_json (JObj ms) @ r) = Some (JObj ms, r)"
    proof (cases ms)
      case (Cons m ms')
      let ?text = "\<lambda>(k, v). print_string k @ 58 # print_json v"
      obtain rest where rest: "join_str [44] (map ?text ms) = ?text m @ rest"
        using join_first [of "map ?text ms" "[44]"] Cons by auto
      have "json_members k (join_str [44] (map ?text ms) @ 125 # r) = Some (ms, r)"
        using Cons JObj n k by (intro read_members) fastforce+
      with Cons k rest show ?thesis by (cases m) (simp add: print_string_def)
    qed (simp add: k)
  qed
qed (auto simp: reads_back_def print_string_def read_escaped show_bool_def read_word_def elim!: le_SucE
    dest!: Suc_le_D split: if_splits)

section \<open>The statistics\<close>

text \<open>What the endpoint means to say about one forwarder.\<close>

definition json_of :: "stats_snapshot \<Rightarrow> json" where
  "json_of s =
     JObj ([(lit ''label'', JStr (sn_label s)),
            (lit ''protocol'', JStr (as_str (sn_protocol s))),
            (lit ''bytes_sent'', JNum (unat (sn_bytes_sent s))),
            (lit ''bytes_received'', JNum (unat (sn_bytes_received s))),
            (lit ''active_connections'', JNum (unat (sn_active_connections s))),
            (lit ''rejected_connections'', JNum (unat (sn_rejected_connections s))),
            (lit ''rate_sent_bps'', JNum (unat (sn_rate_sent_bps s))),
            (lit ''rate_recv_bps'', JNum (unat (sn_rate_recv_bps s))),
            (lit ''listening'', JBool (sn_listening s)),
            (lit ''target_reachable'', case sn_target_reachable s of Some b \<Rightarrow> JBool b | None \<Rightarrow> JNull)]
          @ (case sn_protocol s of
               Udp \<Rightarrow> [(lit ''datagrams_sent'', JNum (unat (sn_datagrams_sent s))),
                       (lit ''datagrams_received'', JNum (unat (sn_datagrams_received s))),
                       (lit ''datagrams_dropped'', JNum (unat (sn_datagrams_dropped s)))]
             | Tcp \<Rightarrow> []))"

lemma escape_plain_chars: "\<forall>c \<in> set s. 32 \<le> c \<and> c < 127 \<and> c \<noteq> 34 \<and> c \<noteq> 92 \<Longrightarrow> escape s = s"
  by (induction s) (auto simp: escape_def escape_char_def is_control_def)

lemma json_key_print: "\<forall>c \<in> set (lit k). 32 \<le> c \<and> c < 127 \<and> c \<noteq> 34 \<and> c \<noteq> 92 \<Longrightarrow> json_key k = print_string (lit k) @ [58]"
  by (simp add: json_key_def print_string_def escape_plain_chars)

lemma json_entry_print: "json_entry s = print_json (json_of s)"
proof -
  have reach: "(case sn_target_reachable s of Some True \<Rightarrow> lit ''true'' | Some False \<Rightarrow> lit ''false'' | None \<Rightarrow> lit ''null'')
      = print_json (case sn_target_reachable s of Some b \<Rightarrow> JBool b | None \<Rightarrow> JNull)"
    by (cases "sn_target_reachable s") (auto simp: show_bool_def split: bool.split)
  have proto: "34 # as_str p @ 34 # r = print_string (as_str p) @ r" for p r
    by (cases p) (simp_all add: print_string_def escape_plain_chars)
  have label: "34 # escape l @ 34 # r = print_string l @ r" for l r by (simp add: print_string_def)
  have keys: "json_key ''label'' = print_string (lit ''label'') @ [58]" "json_key ''protocol'' = print_string (lit ''protocol'') @ [58]"
      "json_key ''bytes_sent'' = print_string (lit ''bytes_sent'') @ [58]" "json_key ''bytes_received'' = print_string (lit ''bytes_received'') @ [58]"
      "json_key ''active_connections'' = print_string (lit ''active_connections'') @ [58]" "json_key ''rejected_connections'' = print_string (lit ''rejected_connections'') @ [58]"
      "json_key ''rate_sent_bps'' = print_string (lit ''rate_sent_bps'') @ [58]" "json_key ''rate_recv_bps'' = print_string (lit ''rate_recv_bps'') @ [58]"
      "json_key ''listening'' = print_string (lit ''listening'') @ [58]" "json_key ''target_reachable'' = print_string (lit ''target_reachable'') @ [58]"
      "json_key ''datagrams_sent'' = print_string (lit ''datagrams_sent'') @ [58]" "json_key ''datagrams_received'' = print_string (lit ''datagrams_received'') @ [58]"
      "json_key ''datagrams_dropped'' = print_string (lit ''datagrams_dropped'') @ [58]"
    by (rule json_key_print, simp)+
  have marks: "lit '','' = [44]" "lit ''{'' = [123]" "lit ''}'' = [125]" by simp_all
  show ?thesis
    unfolding json_entry_def json_udp_def reach keys marks json_of_def
    by (cases "sn_protocol s") (simp_all only: protocol.case print_json.simps list.map prod.case join_str.simps append_Nil
        append_Cons append_assoc append_Nil2 proto label)
qed

text \<open>
  C22. The statistics are well-formed JSON and say what they mean. For every list of snapshots,
  with any labels, a JSON reader accepts the whole body of \<open>/stats\<close> and gets an array with one
  object per forwarder, in order, whose fields carry the label, the protocol, every counter at
  its full 64-bit value, the listener state and the reachability, \<open>null\<close> before the first probe,
  and the datagram counters for UDP forwarders only.\<close>
theorem stats_are_json: "parse_json (render_json snaps) = Some (JArr (map json_of snaps))"
proof -
  have "map json_entry snaps = map print_json (map json_of snaps)" by (simp add: json_entry_print)
  then have "render_json snaps = print_json (JArr (map json_of snaps))" 
    by (simp only: render_json_def print_json.simps) simp
  with reads_backD [OF print_reads_back, of "[]" "JArr (map json_of snaps)"] show ?thesis
    by (simp add: parse_json_def del: print_json.simps)
qed

end
