(* ===== verification/Bench_Hist.thy ===== *)
theory Bench_Hist
  imports Prelude F64
begin

text \<open>
  The latency histogram of the load generator (\<open>src/bench/rfwbench/src/hist.rs\<close>), which the
  published measurements rest on: log-linear buckets, 128 per power of two. The argument of
  the quantile is a rational number that a binary64 holds.
\<close>

definition SUB :: nat where "SUB = 128"
definition MAX_IDX :: nat where "MAX_IDX = 58 * SUB"

text \<open>\<open>63 - v.leading_zeros()\<close>: the position of the highest set bit.\<close>

fun top_bit :: "nat \<Rightarrow> nat" where
  "top_bit v = (if v < 2 then 0 else Suc (top_bit (v div 2)))"

declare top_bit.simps [simp del]

definition bucket :: "nat \<Rightarrow> nat" where
  "bucket v =
     (if v < SUB then v
      else let e = top_bit v; sub = v div 2 ^ (e - 7) mod SUB
           in min ((e - 6) * SUB + sub) (MAX_IDX - 1))"

definition lower :: "nat \<Rightarrow> nat" where
  "lower idx =
     (if idx < SUB then idx
      else let e = idx div SUB + 6; sub = idx mod SUB in (SUB + sub) * 2 ^ (e - 7))"

record hist =
  hs_counts :: "nat list"
  hs_n :: nat
  hs_sum :: nat
  hs_max :: nat

definition hist_new :: hist where
  "hist_new = \<lparr>hs_counts = replicate MAX_IDX 0, hs_n = 0, hs_sum = 0, hs_max = 0\<rparr>"

definition record_ns :: "nat \<Rightarrow> hist \<Rightarrow> hist" where
  "record_ns ns h =
     h\<lparr>hs_counts := (hs_counts h)[bucket ns := hs_counts h ! bucket ns + 1], hs_n := hs_n h + 1,
       hs_sum := hs_sum h + ns, hs_max := (if ns > hs_max h then ns else hs_max h)\<rparr>"

definition merge_hist :: "hist \<Rightarrow> hist \<Rightarrow> hist" where
  "merge_hist o' h =
     h\<lparr>hs_counts := map2 (+) (hs_counts h) (hs_counts o'), hs_n := hs_n h + hs_n o',
       hs_sum := hs_sum h + hs_sum o', hs_max := max (hs_max h) (hs_max o')\<rparr>"

text \<open>The scan of \<open>pct\<close> from bucket \<open>i\<close> on.\<close>

fun pct_scan :: "nat \<Rightarrow> nat \<Rightarrow> nat \<Rightarrow> nat list \<Rightarrow> nat option" where
  "pct_scan target acc i [] = None"
| "pct_scan target acc i (c # cs) =
     (if acc + c \<ge> target then Some (lower i) else pct_scan target (acc + c) (i + 1) cs)"

definition pct_rank :: "nat \<Rightarrow> hist \<Rightarrow> nat" where
  "pct_rank target h = (case pct_scan target 0 0 (hs_counts h) of Some v \<Rightarrow> v | None \<Rightarrow> hs_max h)"

definition pct_target :: "rat \<Rightarrow> nat \<Rightarrow> nat" where
  "pct_target q n = nat (max 1 \<lceil>rnd64 (rnd64 (of_nat n) * q)\<rceil>)"

definition pct :: "rat \<Rightarrow> hist \<Rightarrow> nat" where
  "pct q h = (if hs_n h = 0 then 0 else pct_rank (pct_target q (hs_n h)) h)"

text \<open>The mean and the JSON object, in microseconds with one decimal.\<close>

definition hist_mean :: "hist \<Rightarrow> rat" where
  "hist_mean h = (if hs_n h = 0 then 0 else rnd64 (rnd64 (of_nat (hs_sum h)) / rnd64 (of_nat (hs_n h))))"

definition fmt1 :: "rat \<Rightarrow> rstr" where
  "fmt1 q = (let m = nat (round_half_even (q * 10)) in show_nat (m div 10) @ lit ''.'' @ show_nat (m mod 10))"

definition us_of :: "nat \<Rightarrow> rat" where
  "us_of ns = rnd64 (rnd64 (of_nat ns) / 1000)"

definition json_us :: "hist \<Rightarrow> rstr" where
  "json_us h =
     lit ''{\"n\":'' @ show_nat (hs_n h)
     @ lit '',\"mean\":'' @ fmt1 (rnd64 (hist_mean h / 1000))
     @ lit '',\"p50\":'' @ fmt1 (us_of (pct (rnd64 (50 / 100)) h))
     @ lit '',\"p90\":'' @ fmt1 (us_of (pct (rnd64 (90 / 100)) h))
     @ lit '',\"p99\":'' @ fmt1 (us_of (pct (rnd64 (99 / 100)) h))
     @ lit '',\"p999\":'' @ fmt1 (us_of (pct (rnd64 (999 / 1000)) h))
     @ lit '',\"max\":'' @ fmt1 (us_of (hs_max h)) @ lit ''}''"

section \<open>Buckets\<close>

lemma top_bit_bounds: "0 < v \<Longrightarrow> 2 ^ top_bit v \<le> v \<and> v < 2 ^ Suc (top_bit v)"
proof (induction v rule: top_bit.induct)
  case (1 v)
  show ?case
  proof (cases "v < 2")
    case True
    with 1(2) show ?thesis by (subst (1 2) top_bit.simps) simp
  next
    case False
    with 1 have "2 ^ top_bit (v div 2) \<le> v div 2" "v div 2 < 2 ^ Suc (top_bit (v div 2))" by simp_all
    then have "2 * 2 ^ top_bit (v div 2) \<le> v" "v < 2 * 2 ^ Suc (top_bit (v div 2))" by linarith+
    with False show ?thesis by (subst (1 2) top_bit.simps) simp
  qed
qed

text \<open>A value from 128 on is its leading eight bits, scaled, plus a rest below the scale.\<close>

lemma bucket_parts:
  assumes "128 \<le> v" and "v < 2 ^ 64"
  obtains s m where "bucket v = (s + 1) * 128 + m" "m < 128" "s \<le> 56"
    "(128 + m) * 2 ^ s \<le> v" "v < (128 + m + 1) * 2 ^ s"
proof -
  define e where "e = top_bit v"
  define s where "s = e - 7"
  have e: "2 ^ e \<le> v" "v < 2 ^ Suc e" using top_bit_bounds [of v] assms(1) by (simp_all add: e_def)
  have "(2::nat) ^ 7 < 2 ^ Suc e" using e(2) assms(1) by simp
  then have "7 < Suc e" by (rule power_less_imp_less_exp [rotated]) simp
  then have es: "e = s + 7" by (simp add: s_def)
  have "(2::nat) ^ e < 2 ^ 64" using e(1) assms(2) by linarith
  then have "e < 64" by (rule power_less_imp_less_exp [rotated]) simp
  define d where "d = v div 2 ^ s"
  have "128 * 2 ^ s \<le> v" "v < 256 * 2 ^ s" using e by (simp_all add: es power_add)
  then have d: "128 \<le> d" "d < 256"
    unfolding d_def by (simp_all add: less_eq_div_iff_mult_less_eq div_less_iff_less_mult)
  define m where "m = d mod 128"
  have dm: "d = 128 + m" "m < 128" using d le_mod_geq [of 128 d] by (simp_all add: m_def)
  have "bucket v = min ((s + 1) * 128 + m) 7423"
    using assms(1) es by (simp add: bucket_def SUB_def MAX_IDX_def Let_def e_def [symmetric] m_def d_def)
  moreover have "(s + 1) * 128 + m \<le> 7423" using dm(2) \<open>e < 64\<close> es by auto
  ultimately have "bucket v = (s + 1) * 128 + m" by simp
  moreover have "(128 + m) * 2 ^ s \<le> v" using dm(1) by (metis d_def div_times_less_eq_dividend)
  moreover have "v < (128 + m + 1) * 2 ^ s"
  proof -
    have "v div 2 ^ s < 128 + m + 1" using dm(1) by (simp add: d_def)
    then show ?thesis by (simp only: div_less_iff_less_mult zero_less_power pos2)
  qed
  ultimately show thesis using that dm(2) \<open>e < 64\<close> es by auto
qed

lemma lower_bucket_parts: "m < 128 \<Longrightarrow> lower ((s + 1) * 128 + m) = (128 + m) * 2 ^ s"
proof -
  assume m: "m < 128"
  have "((s + 1) * 128 + m) div 128 = s + 1" "((s + 1) * 128 + m) mod 128 = m"
    using m div_mult_self3 [of 128 "s + 1" m] mod_mult_self3 [of "s + 1" 128 m] by simp_all
  moreover have "\<not> (s + 1) * 128 + m < 128" by simp
  ultimately show ?thesis by (simp only: lower_def SUB_def Let_def if_False) simp
qed

text \<open>The relative error the module promises, and that no value falls outside the table.\<close>

lemma bucket_error:
  assumes "v < 2 ^ 64"
  shows "bucket v < MAX_IDX \<and> lower (bucket v) \<le> v \<and> 128 * (v - lower (bucket v)) \<le> v"
proof (cases "v < 128")
  case True
  then show ?thesis by (simp add: bucket_def lower_def SUB_def MAX_IDX_def)
next
  case False
  then have "128 \<le> v" by simp
  then obtain s m where b: "bucket v = (s + 1) * 128 + m" "m < 128" "s \<le> 56"
      "(128 + m) * 2 ^ s \<le> v" "v < (128 + m + 1) * 2 ^ s"
    using assms by (rule bucket_parts)
  have l: "lower (bucket v) = (128 + m) * 2 ^ s" using b(1,2) by (simp only: lower_bucket_parts)
  have "v - lower (bucket v) \<le> 2 ^ s" using b(5) l by (simp add: algebra_simps)
  moreover have "128 * 2 ^ s \<le> v" using b(4) by (simp add: algebra_simps)
  ultimately show ?thesis using b l by (simp add: MAX_IDX_def SUB_def)
qed

text \<open>Larger values never fall into smaller buckets.\<close>

lemma bucket_mono:
  assumes "v \<le> w" and "w < 2 ^ 64"
  shows "bucket v \<le> bucket w"
proof (cases "v < 128")
  case True
  show ?thesis
  proof (cases "w < 128")
    case True
    with assms(1) show ?thesis by (simp add: bucket_def SUB_def)
  next
    case False
    then obtain s m where "bucket w = (s + 1) * 128 + m" using bucket_parts [of w] assms(2) by (metis not_less)
    with \<open>v < 128\<close> show ?thesis by (simp add: bucket_def SUB_def)
  qed
next
  case False
  then have "128 \<le> v" "128 \<le> w" "v < 2 ^ 64" using assms by simp_all
  then obtain s m s' m' where v: "bucket v = (s + 1) * 128 + m" "m < 128" "(128 + m) * 2 ^ s \<le> v"
      and w: "bucket w = (s' + 1) * 128 + m'" "m' < 128" "w < (128 + m' + 1) * 2 ^ s'"
    using bucket_parts [of v] bucket_parts [of w] assms(2) by metis
  have less: "(128 + m) * 2 ^ s < (128 + m' + 1) * 2 ^ s'" using v(3) w(3) assms(1) by linarith
  consider "s < s'" | "s = s'" | "s' < s" by linarith
  then show ?thesis
  proof cases
    case 1
    then have "(s + 1) * 128 + 128 \<le> (s' + 1) * 128" by simp
    with v(1,2) w(1) show ?thesis by linarith
  next
    case 2
    with less have "128 + m < 128 + m' + 1" by (simp only: mult_less_cancel2)
    with 2 v(1) w(1) show ?thesis by simp
  next
    case 3
    have "128 * 2 ^ Suc s' \<le> (128 + m) * (2::nat) ^ s"
      using 3 by (intro mult_le_mono power_increasing) simp_all
    moreover have "(128 + m' + 1) * 2 ^ s' \<le> 128 * (2::nat) ^ Suc s'"
      using w(2) by simp
    ultimately show ?thesis using less by linarith
  qed
qed

section \<open>Counting\<close>

text \<open>The histogram of a run: every sample recorded in turn.\<close>

definition hist_of :: "nat list \<Rightarrow> hist" where
  "hist_of = foldl (\<lambda>h v. record_ns v h) hist_new"

definition counts_of :: "nat list \<Rightarrow> nat list" where
  "counts_of xs = map (\<lambda>b. length (filter (\<lambda>v. bucket v = b) xs)) [0..<MAX_IDX]"

lemma counts_of_snoc:
  "bucket v < MAX_IDX \<Longrightarrow> (counts_of xs)[bucket v := counts_of xs ! bucket v + 1] = counts_of (xs @ [v])"
  by (rule nth_equalityI) (auto simp: counts_of_def nth_list_update)

lemma hist_of_snoc: "hist_of (xs @ [v]) = record_ns v (hist_of xs)"
  by (simp add: hist_of_def)

text \<open>The buckets refine the recorded samples.\<close>

lemma hist_of_fields:
  assumes "\<forall>v \<in> set xs. v < 2 ^ 64"
  shows "hs_counts (hist_of xs) = counts_of xs \<and> hs_n (hist_of xs) = length xs
    \<and> hs_sum (hist_of xs) = sum_list xs \<and> hs_max (hist_of xs) = foldr max xs 0"
  using assms
proof (induction xs rule: rev_induct)
  case Nil
  show ?case by (simp add: hist_of_def hist_new_def counts_of_def map_replicate_const)
next
  case (snoc v xs)
  have "foldr max xs v = max v (foldr max xs 0)" for xs :: "nat list"
    by (induction xs) (simp_all add: max.left_commute)
  moreover have "(if v > n then v else n) = max v n" for n by simp
  moreover have "bucket v < MAX_IDX" using snoc.prems bucket_error by simp
  ultimately show ?case using snoc counts_of_snoc [of v xs] by (simp add: hist_of_snoc record_ns_def)
qed

text \<open>Merging the histograms of two connections is recording both runs.\<close>

lemma merge_hist_of:
  assumes "\<forall>v \<in> set xs. v < 2 ^ 64" and "\<forall>v \<in> set ys. v < 2 ^ 64"
  shows "merge_hist (hist_of ys) (hist_of xs) = hist_of (xs @ ys)"
proof -
  have "map2 (+) (counts_of xs) (counts_of ys) = counts_of (xs @ ys)"
    by (rule nth_equalityI) (simp_all add: counts_of_def)
  moreover have "foldr max (xs @ ys) 0 = max (foldr max xs 0) (foldr max ys 0)"
    by (induction xs) (simp_all add: max.assoc)
  moreover have "\<forall>v \<in> set (xs @ ys). v < 2 ^ 64" using assms by auto
  ultimately show ?thesis
    using hist_of_fields [OF assms(1)] hist_of_fields [OF assms(2)] hist_of_fields [of "xs @ ys"]
    by (simp add: merge_hist_def)
qed

section \<open>Quantiles\<close>

lemma pct_scan_first:
  assumes "k < length cs" and "target \<le> acc + sum_list (take (Suc k) cs)"
    and "\<And>j. j < k \<Longrightarrow> acc + sum_list (take (Suc j) cs) < target"
  shows "pct_scan target acc i cs = Some (lower (i + k))"
  using assms
proof (induction cs arbitrary: acc i k)
  case (Cons c cs)
  show ?case
  proof (cases k)
    case 0
    with Cons.prems show ?thesis by simp
  next
    case (Suc k')
    have "acc + c < target" using Cons.prems(3) [of 0] Suc by simp
    moreover have "pct_scan target (acc + c) (i + 1) cs = Some (lower (i + 1 + k'))"
    proof (rule Cons.IH)
      show "k' < length cs" "target \<le> acc + c + sum_list (take (Suc k') cs)"
        using Cons.prems(1,2) Suc by (simp_all add: add.assoc)
      show "acc + c + sum_list (take (Suc j) cs) < target" if "j < k'" for j
        using Cons.prems(3) [of "Suc j"] Suc that by (simp add: add.assoc)
    qed
    ultimately show ?thesis using Suc by simp
  qed
qed simp

lemma counts_of_take:
  "k < MAX_IDX \<Longrightarrow> sum_list (take (Suc k) (counts_of xs)) = length (filter (\<lambda>v. bucket v \<le> k) xs)"
proof (induction k)
  case 0
  then show ?case by (simp add: counts_of_def take_map upt_conv_Cons)
next
  case (Suc k)
  have "length (filter (\<lambda>v. bucket v \<le> Suc k) xs)
      = length (filter (\<lambda>v. bucket v \<le> k) xs) + length (filter (\<lambda>v. bucket v = Suc k) xs)"
    by (induction xs) auto
  moreover have "length (counts_of xs) = MAX_IDX" by (simp add: counts_of_def)
  moreover have "counts_of xs ! Suc k = length (filter (\<lambda>v. bucket v = Suc k) xs)"
    using Suc.prems by (simp add: counts_of_def)
  ultimately show ?case using Suc by (subst take_Suc_conv_app_nth) simp_all
qed

lemma sorted_filter_prefix:
  "sorted (map f ys) \<Longrightarrow> j < length ys \<Longrightarrow> j < length (filter (\<lambda>v. f v \<le> k) ys) \<longleftrightarrow> f (ys ! j) \<le> k"
  for k :: nat
proof (induction ys arbitrary: j)
  case (Cons y ys)
  show ?case
  proof (cases "f y \<le> k")
    case True
    with Cons show ?thesis by (cases j) auto
  next
    case False
    then have "filter (\<lambda>v. f v \<le> k) ys = []" using Cons.prems(1) by (auto simp: filter_empty_conv)
    moreover have "f y \<le> f ((y # ys) ! j)" using Cons.prems by (cases j) simp_all
    ultimately show ?thesis using False by simp
  qed
qed simp

lemma sorted_map_bucket:
  assumes "\<forall>v \<in> set xs. v < 2 ^ 64"
  shows "sorted (map bucket (sort xs))"
  unfolding sorted_map
  by (rule sorted_wrt_mono_rel [OF _ sorted_sort]) (use assms bucket_mono in auto)

lemma pct_rank_hist_of:
  assumes "\<forall>v \<in> set xs. v < 2 ^ 64" and "0 < r" and "r \<le> length xs"
  shows "pct_rank r (hist_of xs) = lower (bucket (sort xs ! (r - 1)))
    \<and> pct_rank r (hist_of xs) \<le> sort xs ! (r - 1)
    \<and> 128 * (sort xs ! (r - 1) - pct_rank r (hist_of xs)) \<le> sort xs ! (r - 1)"
proof -
  let ?x = "sort xs ! (r - 1)" and ?cs = "counts_of xs"
  have "?x \<in> set (sort xs)" using assms(2,3) by (intro nth_mem) simp
  then have x: "?x < 2 ^ 64" using assms(1) by simp
  note err = bucket_error [OF x]
  have upto: "r \<le> sum_list (take (Suc k) ?cs) \<longleftrightarrow> bucket ?x \<le> k" if "k < MAX_IDX" for k
  proof -
    have "length (filter (\<lambda>v. bucket v \<le> k) xs) = length (filter (\<lambda>v. bucket v \<le> k) (sort xs))"
      by (simp add: filter_sort)
    then have "r - 1 < sum_list (take (Suc k) ?cs) \<longleftrightarrow> bucket ?x \<le> k"
      using sorted_filter_prefix [OF sorted_map_bucket [OF assms(1)], of "r - 1" k] assms(2,3)
      by (simp add: counts_of_take [OF that])
    with assms(2) show ?thesis by linarith
  qed
  have "pct_scan r 0 0 ?cs = Some (lower (0 + bucket ?x))"
  proof (rule pct_scan_first)
    show "bucket ?x < length ?cs" using err by (simp add: counts_of_def)
    show "r \<le> 0 + sum_list (take (Suc (bucket ?x)) ?cs)" using upto err by simp
    show "0 + sum_list (take (Suc j) ?cs) < r" if "j < bucket ?x" for j
      using upto [of j] err that by (simp add: not_le [symmetric])
  qed
  with err show ?thesis by (simp add: pct_rank_def hist_of_fields [OF assms(1)])
qed

text \<open>Two roundings never carry a quantile of at most 0.999 past the last sample.\<close>

lemma pct_target_range:
  assumes "0 \<le> q" and "q \<le> 999 / 1000" and "0 < n"
  shows "0 < pct_target q n \<and> pct_target q n \<le> n"
proof -
  let ?e = "1 + 1 / 2 ^ 53 :: rat"
  have "rnd64 (rnd64 (of_nat n) * q) \<le> rnd64 (of_nat n) * q * ?e"
    using assms(1) by (intro rnd64_upper) simp
  also have "\<dots> \<le> (of_nat n * ?e) * (999 / 1000) * ?e"
    using assms(1,2) rnd64_upper [of "of_nat n"] by (intro mult_right_mono mult_mono) simp_all
  also have "\<dots> = of_nat n * (?e * (999 / 1000) * ?e)" by (simp only: ac_simps)
  also have "\<dots> \<le> of_nat n * 1" by (rule mult_left_mono) simp_all
  finally have "\<lceil>rnd64 (rnd64 (of_nat n) * q)\<rceil> \<le> int n" by (simp add: ceiling_le_iff)
  with assms(3) show ?thesis by (auto simp: pct_target_def nat_le_iff max_def)
qed

text \<open>
  C36. The reported quantiles are true order statistics up to the promised error. After any run of
  samples \<open>pct\<close> returns the lower end of the bucket of the sample of rank
  \<open>max(1, ceil(n * q))\<close>, computed in binary64: that rank is one of \<open>1 .. n\<close>, and the value is not
  above that sample and misses it by at most one part in 128.\<close>
theorem quantile_near_order_statistic:
  assumes "\<forall>v \<in> set xs. v < 2 ^ 64" and "xs \<noteq> []" and "0 \<le> q" and "q \<le> 999 / 1000"
    and "x = sort xs ! (pct_target q (length xs) - 1)"
  shows "x \<in> set xs \<and> pct q (hist_of xs) = lower (bucket x) \<and> pct q (hist_of xs) \<le> x
    \<and> 128 * (x - pct q (hist_of xs)) \<le> x"
proof -
  have r: "0 < pct_target q (length xs)" "pct_target q (length xs) \<le> length xs"
    using pct_target_range [OF assms(3,4), of "length xs"] assms(2) by simp_all
  have "x \<in> set (sort xs)" unfolding assms(5) using r by (intro nth_mem) simp
  with pct_rank_hist_of [OF assms(1) r, folded assms(5)] assms(2) show ?thesis
    by (auto simp: pct_def hist_of_fields [OF assms(1)])
qed

text \<open>The median of three samples, rounded down to its bucket.\<close>

theorem quantile_near_order_statistic_witness: "pct (1 / 2) (hist_of [301, 5, 1000]) = 300"
proof -
  have "pct_target (1 / 2) (length [301, 5, 1000::nat]) = 2" by code_simp
  moreover have "lower (bucket 301) = 300" by code_simp
  ultimately show ?thesis
    using quantile_near_order_statistic [of "[301, 5, 1000]" "1 / 2" 301] by simp
qed

text \<open>The mean is the true mean of the samples up to three roundings.\<close>

lemma hist_mean_error:
  assumes "\<forall>v \<in> set xs. v < 2 ^ 64" and "xs \<noteq> []"
  shows "\<bar>hist_mean (hist_of xs) - of_nat (sum_list xs) / of_nat (length xs)\<bar>
    \<le> of_nat (sum_list xs) / of_nat (length xs) / 2 ^ 51"
proof -
  let ?e = "1 / 2 ^ 53 :: rat"
  define s n where "s = (of_nat (sum_list xs) :: rat)" and "n = (of_nat (length xs) :: rat)"
  define a b where "a = rnd64 s" and "b = rnd64 n"
  have pos: "0 \<le> s" "0 < n" using assms(2) by (simp_all add: s_def n_def)
  note ab = rnd64_lower [OF pos(1), folded a_def] rnd64_upper [OF pos(1), folded a_def]
    rnd64_lower [OF less_imp_le [OF pos(2)], folded b_def] rnd64_upper [OF less_imp_le [OF pos(2)], folded b_def]
  have "0 < n * (1 - ?e)" using pos by simp
  with ab(3) have bpos: "0 < b" by linarith
  have apos: "0 \<le> a" using pos(1) by (simp add: a_def)
  have up: "a / b \<le> (s / n) * ((1 + ?e) / (1 - ?e))"
    using frac_le [OF _ ab(2) \<open>0 < n * (1 - ?e)\<close> ab(3)] apos pos by simp
  have lo: "(s / n) * ((1 - ?e) / (1 + ?e)) \<le> a / b"
    using frac_le [OF apos ab(1) bpos ab(4)] by simp
  have q: "0 \<le> a / b" using apos bpos by simp
  have m: "0 \<le> s / n" using pos by simp
  have "rnd64 (a / b) \<le> (s / n) * ((1 + ?e) / (1 - ?e)) * (1 + ?e)"
    using rnd64_upper [OF q] mult_right_mono [OF up, of "1 + ?e"] by simp
  also have "\<dots> \<le> (s / n) * (1 + 1 / 2 ^ 51)"
    unfolding mult.assoc by (rule mult_left_mono [OF _ m]) simp
  finally have U: "rnd64 (a / b) \<le> (s / n) * (1 + 1 / 2 ^ 51)" .
  have "(s / n) * (1 - 1 / 2 ^ 51) \<le> (s / n) * ((1 - ?e) / (1 + ?e) * (1 - ?e))"
    by (rule mult_left_mono [OF _ m]) simp
  also have "\<dots> \<le> rnd64 (a / b)"
    using rnd64_lower [OF q] mult_right_mono [OF lo, of "1 - ?e"] by (simp add: mult.assoc)
  finally have L: "(s / n) * (1 - 1 / 2 ^ 51) \<le> rnd64 (a / b)" .
  have "hist_mean (hist_of xs) = rnd64 (a / b)"
    using assms(2) by (simp add: hist_mean_def hist_of_fields [OF assms(1)] a_def b_def s_def n_def)
  moreover have "\<bar>rnd64 (a / b) - s / n\<bar> \<le> (s / n) / 2 ^ 51"
    using U L by (simp add: abs_le_iff algebra_simps)
  ultimately show ?thesis by (simp add: s_def n_def)
qed

end
