(* ===== verification/Bench_Integrity.thy ===== *)
theory Bench_Integrity
  imports Prelude
begin

unbundle bit_operations_syntax

text \<open>
  The integrity check of the load generator (\<open>integrity\<close> in \<open>src/bench/rfwbench/src/tcp.rs\<close> and
  \<open>Prng\<close> in \<open>util.rs\<close>): a writer sends a pseudo-random stream, a reader compares the echo with
  the same stream generated anew. The path in between is a list of bytes that arrive, cut into
  reads at arbitrary places, and the way the stream ends.
\<close>

section \<open>The stream\<close>

definition prng_step :: "u64 \<Rightarrow> u64" where
  "prng_step x0 =
     (let x1 = x0 XOR drop_bit 12 x0; x2 = x1 XOR push_bit 25 x1
      in x2 XOR drop_bit 27 x2)"

definition to_le_bytes :: "u64 \<Rightarrow> u8 list" where
  "to_le_bytes v = map (\<lambda>i. ucast (drop_bit (8 * i) v)) [0..<8]"

text \<open>\<open>Prng::fill\<close> of a buffer of \<open>n\<close> bytes, in chunks of eight.\<close>

fun prng_fill :: "nat \<Rightarrow> u64 \<Rightarrow> u8 list \<times> u64" where
  "prng_fill n x =
     (if n = 0 then ([], x)
      else let x' = prng_step x; v = x' * 0x2545F4914F6CDD1D; k = min 8 n;
               (rest, x'') = prng_fill (n - k) x'
           in (take k (to_le_bytes v) @ rest, x''))"

declare prng_fill.simps [simp del]

definition seed_of :: "nat \<Rightarrow> u64" where
  "seed_of i = 0x9E3779B97F4A7C15 XOR (of_nat (i + 1) * 0x1000193)"

text \<open>
  The blocks the writer thread sends: \<open>chunk\<close> bytes each and a shorter last one. With a chunk
  of zero bytes the program never gets past its first block; the model stops there.
\<close>

function writer_blocks :: "nat \<Rightarrow> nat \<Rightarrow> u64 \<Rightarrow> u8 list list" where
  "writer_blocks left chunk x =
     (if left = 0 \<or> chunk = 0 then []
      else let n = min left chunk; (b, x') = prng_fill n x in b # writer_blocks (left - n) chunk x')"
  by pat_completeness auto
termination by (relation "measure (\<lambda>(left, chunk, x). left)") auto

declare writer_blocks.simps [simp del]

definition stream_of :: "nat \<Rightarrow> nat \<Rightarrow> u64 \<Rightarrow> u8 list" where
  "stream_of bytes chunk x = concat (writer_blocks bytes chunk x)"

section \<open>The check\<close>

text \<open>
  The reader's generator and its buffer with the expected block. \<open>check_read\<close> is the inner loop
  over one read \<open>got\<close> that starts at position \<open>tot\<close> of the stream.
\<close>

record expect =
  ex_prng :: u64
  ex_block :: "u8 list"
  ex_ok :: bool

definition next_block :: "nat \<Rightarrow> nat \<Rightarrow> nat \<Rightarrow> expect \<Rightarrow> expect" where
  "next_block bytes chunk at e =
     (let blk = min (bytes - at) chunk; (b, x) = prng_fill blk (ex_prng e)
      in e\<lparr>ex_prng := x, ex_block := b @ drop blk (ex_block e)\<rparr>)"

function check_read :: "nat \<Rightarrow> nat \<Rightarrow> nat \<Rightarrow> u8 list \<Rightarrow> expect \<Rightarrow> expect" where
  "check_read bytes chunk tot got e =
     (if got = [] \<or> chunk = 0 then e
      else let pos = tot mod chunk;
               e1 = (if pos = 0 then next_block bytes chunk tot e else e);
               n = min (length got) (chunk - pos);
               e2 = (if take n got \<noteq> take n (drop pos (ex_block e1)) then e1\<lparr>ex_ok := False\<rparr> else e1)
           in check_read bytes chunk (tot + n) (drop n got) e2)"
  by pat_completeness auto
termination
  by (relation "measure (\<lambda>(bytes, chunk, tot, got, e). length got)") (auto simp: min_def)

declare check_read.simps [simp del]

text \<open>
  One read of at most \<open>want\<close> bytes: what has arrived, cut at a place \<open>sz\<close> decides, or the end
  of the stream, which is a clean end of file or an error.
\<close>

definition read_some :: "nat \<Rightarrow> nat \<Rightarrow> u8 list \<Rightarrow> u8 list \<times> u8 list" where
  "read_some sz want arrived = (let n = min (max 1 sz) want in (take n arrived, drop n arrived))"

text \<open>
  The reader thread: it stops at the first mismatch, at an early end and at an error, and after
  the last byte it wants to see a clean end of file. The result is its verdict and the count.
\<close>

function read_loop :: "(nat \<Rightarrow> nat) \<Rightarrow> bool \<Rightarrow> nat \<Rightarrow> nat \<Rightarrow> nat \<Rightarrow> u8 list \<Rightarrow> expect \<Rightarrow> bool \<times> nat" where
  "read_loop sz clean bytes chunk tot arrived e =
     (if tot < bytes
      then (let (got, rest) = read_some (sz tot) (min (bytes - tot) chunk) arrived
            in if got = [] then (False, tot)
               else let e' = check_read bytes chunk tot got e
                    in if ex_ok e' then read_loop sz clean bytes chunk (tot + length got) rest e'
                       else (False, tot + length got))
      else (ex_ok e \<and> arrived = [] \<and> clean, tot))"
  by pat_completeness auto
termination
  by (relation "measure (\<lambda>(sz, clean, bytes, chunk, tot, arrived, e). length arrived)")
    (auto simp: read_some_def Let_def)

declare read_loop.simps [simp del]

definition reader :: "(nat \<Rightarrow> nat) \<Rightarrow> bool \<Rightarrow> nat \<Rightarrow> nat \<Rightarrow> u64 \<Rightarrow> u8 list \<Rightarrow> bool \<times> nat" where
  "reader sz clean bytes chunk seed arrived =
     read_loop sz clean bytes chunk 0 arrived \<lparr>ex_prng = seed, ex_block = replicate chunk 0, ex_ok = True\<rparr>"

text \<open>The verdict over all connections, each with its writer's outcome.\<close>

record conn_result =
  cr_reader :: "(bool \<times> nat) option"
  cr_wrote :: bool

definition integrity_ok :: "nat \<Rightarrow> conn_result list \<Rightarrow> bool" where
  "integrity_ok bytes conns \<longleftrightarrow>
     list_all (\<lambda>c. case cr_reader c of None \<Rightarrow> False | Some (ok, tot) \<Rightarrow> ok \<and> cr_wrote c) conns
     \<and> sum_list (map (\<lambda>c. case cr_reader c of None \<Rightarrow> 0 | Some (ok, tot) \<Rightarrow> tot) conns) = bytes * length conns"

section \<open>The stream is the concatenation of its blocks\<close>

lemma prng_fill_length: "length (fst (prng_fill n x)) = n"
proof (induction n x rule: prng_fill.induct)
  case (1 n x)
  have "length (to_le_bytes v) = 8" for v by (simp add: to_le_bytes_def)
  with 1 show ?case by (subst prng_fill.simps) (auto simp: Let_def split: prod.split)
qed

lemma writer_blocks_step:
  assumes "0 < left" and "0 < chunk" and "prng_fill (min left chunk) x = (b, x')"
  shows "stream_of left chunk x = b @ stream_of (left - min left chunk) chunk x'"
  using assms by (simp add: stream_of_def writer_blocks.simps [of left])

lemma stream_of_length: "0 < chunk \<Longrightarrow> length (stream_of left chunk x) = left"
proof (induction left chunk x rule: writer_blocks.induct)
  case (1 left chunk x)
  show ?case
  proof (cases "left = 0")
    case False
    obtain b x' where b: "prng_fill (min left chunk) x = (b, x')" by fastforce
    then have "length b = min left chunk" using prng_fill_length [of "min left chunk" x] by simp
    with 1 False b show ?thesis by (simp add: writer_blocks_step)
  qed (simp add: stream_of_def writer_blocks.simps)
qed

section \<open>The check is exact\<close>

text \<open>
  \<open>S\<close> is the whole stream. A loaded block starts at \<open>base\<close>; between two blocks only the
  generator counts.
\<close>

definition loaded :: "nat \<Rightarrow> nat \<Rightarrow> u8 list \<Rightarrow> nat \<Rightarrow> expect \<Rightarrow> bool" where
  "loaded bytes chunk S base e \<longleftrightarrow>
     (let blk = min (bytes - base) chunk
      in take blk (ex_block e) = take blk (drop base S)
         \<and> drop (base + blk) S = stream_of (bytes - (base + blk)) chunk (ex_prng e))"

definition in_step :: "nat \<Rightarrow> nat \<Rightarrow> u8 list \<Rightarrow> nat \<Rightarrow> expect \<Rightarrow> bool" where
  "in_step bytes chunk S tot e \<longleftrightarrow>
     (if tot mod chunk = 0 then drop tot S = stream_of (bytes - tot) chunk (ex_prng e)
      else loaded bytes chunk S (tot - tot mod chunk) e)"

lemma next_block_loaded:
  assumes "0 < chunk" and "at < bytes" and "drop at S = stream_of (bytes - at) chunk (ex_prng e)"
  shows "loaded bytes chunk S at (next_block bytes chunk at e)"
proof -
  let ?blk = "min (bytes - at) chunk"
  obtain b x where b: "prng_fill ?blk (ex_prng e) = (b, x)" by fastforce
  have len: "length b = ?blk" using prng_fill_length [of ?blk "ex_prng e"] b by simp
  have S: "drop at S = b @ stream_of (bytes - at - ?blk) chunk x"
    using assms b by (simp add: writer_blocks_step)
  have "drop (at + ?blk) S = drop ?blk (drop at S)" by (simp add: add.commute)
  also have "\<dots> = stream_of (bytes - (at + ?blk)) chunk x" using S len by simp
  finally have "drop (at + ?blk) S = stream_of (bytes - (at + ?blk)) chunk x" .
  moreover have "take ?blk (drop at S) = b" using S len by simp
  ultimately show ?thesis using b len by (simp add: loaded_def next_block_def Let_def)
qed

lemma loaded_ok [simp]: "loaded bytes chunk S base (e\<lparr>ex_ok := v\<rparr>) = loaded bytes chunk S base e"
  by (simp add: loaded_def)

lemma loaded_in_step:
  assumes "loaded bytes chunk S base e" and "base mod chunk = 0" and "base < t" and "t \<le> base + chunk" and "t \<le> bytes"
  shows "in_step bytes chunk S t e"
proof (cases "t = base + chunk")
  case True
  then have "t mod chunk = 0" "min (bytes - base) chunk = chunk" using assms by simp_all
  with assms(1) True show ?thesis by (simp add: in_step_def loaded_def)
next
  case False
  then have "t mod chunk = t - base"
    using assms(2,3,4) by (metis add_diff_inverse_nat le_neq_implies_less less_diff_conv2 less_imp_le_nat mod_add_self1
        mod_add_left_eq mod_less add_0 not_less add.commute)
  with assms False show ?thesis by (simp add: in_step_def)
qed

lemma take_parts:
  assumes "n \<le> length g"
  shows "g = take (length g) D \<longleftrightarrow> take n g = take n D \<and> drop n g = take (length g - n) (drop n D)"
proof
  assume g: "g = take (length g) D"
  have "take n (take (length g) D) = take n D" "drop n (take (length g) D) = take (length g - n) (drop n D)"
    using assms by (simp_all add: min_absorb1 drop_take)
  with g show "take n g = take n D \<and> drop n g = take (length g - n) (drop n D)" by simp
next
  assume "take n g = take n D \<and> drop n g = take (length g - n) (drop n D)"
  then have "g = take n D @ take (length g - n) (drop n D)" by (metis append_take_drop_id)
  also have "\<dots> = take (length g) D" using assms take_add [of n "length g - n" D] by simp
  finally show "g = take (length g) D" .
qed

lemma take_drop_within:
  assumes "p + n \<le> k" and "take k xs = take k ys"
  shows "take n (drop p xs) = take n (drop p ys)"
proof -
  have within: "take n (drop p zs) = drop p (take (p + n) (take k zs))" for zs :: "'a list"
    using assms(1) by (simp add: min_absorb1 take_drop add.commute)
  show ?thesis unfolding within assms(2) ..
qed

lemma check_read_exact:
  assumes "0 < chunk" and "tot + length got \<le> bytes" and "in_step bytes chunk S tot e"
  shows "(ex_ok (check_read bytes chunk tot got e) \<longleftrightarrow> ex_ok e \<and> got = take (length got) (drop tot S))
     \<and> in_step bytes chunk S (tot + length got) (check_read bytes chunk tot got e)"
  using assms
proof (induction bytes chunk tot got e rule: check_read.induct)
  case (1 bytes chunk tot got e)
  show ?case
  proof (cases "got = []")
    case True
    with 1(4) show ?thesis by (simp add: check_read.simps)
  next
    case False
    define pos where "pos = tot mod chunk"
    define base where "base = tot - pos"
    define e1 where "e1 = (if pos = 0 then next_block bytes chunk tot e else e)"
    define n where "n = min (length got) (chunk - pos)"
    define e2 where "e2 = (if take n got \<noteq> take n (drop pos (ex_block e1)) then e1\<lparr>ex_ok := False\<rparr> else e1)"
    have pos: "pos < chunk" "base + pos = tot" "base mod chunk = 0"
      using \<open>0 < chunk\<close> by (simp_all add: pos_def base_def minus_mod_eq_mult_div)
    have n: "0 < n" "n \<le> length got" "pos + n \<le> chunk" using False pos(1) by (auto simp: n_def)
    have "tot < bytes" using 1(3) False by (cases got) simp_all
    then have l1: "loaded bytes chunk S base e1"
      using 1(4) next_block_loaded [of chunk tot bytes S e] \<open>0 < chunk\<close> pos
      by (auto simp: e1_def in_step_def base_def pos_def)
    have "pos + n \<le> min (bytes - base) chunk" using 1(3) n pos(2) by simp
    then have "take n (drop pos (ex_block e1)) = take n (drop pos (drop base S))"
      by (rule take_drop_within) (use l1 in \<open>simp add: loaded_def Let_def\<close>)
    then have blk: "take n (drop pos (ex_block e1)) = take n (drop tot S)" using pos(2) by (simp add: add.commute)
    have ok2: "ex_ok e2 \<longleftrightarrow> ex_ok e \<and> take n got = take n (drop tot S)"
      using blk by (auto simp: e2_def e1_def next_block_def Let_def split: prod.split)
    have "loaded bytes chunk S base e2" using l1 by (simp add: e2_def)
    then have "in_step bytes chunk S (tot + n) e2"
      by (rule loaded_in_step) (use pos n 1(3) in auto)
    then have IH: "ex_ok (check_read bytes chunk (tot + n) (drop n got) e2)
          \<longleftrightarrow> ex_ok e2 \<and> drop n got = take (length got - n) (drop (tot + n) S)"
        "in_step bytes chunk S (tot + length got) (check_read bytes chunk (tot + n) (drop n got) e2)"
      using 1(1) [OF _ pos_def e1_def n_def e2_def] False \<open>0 < chunk\<close> 1(3) n(2) by simp_all
    have step: "check_read bytes chunk tot got e = check_read bytes chunk (tot + n) (drop n got) e2"
      using False \<open>0 < chunk\<close> by (subst check_read.simps) (simp add: Let_def pos_def e1_def n_def e2_def)
    have "got = take (length got) (drop tot S)
        \<longleftrightarrow> take n got = take n (drop tot S) \<and> drop n got = take (length got - n) (drop (tot + n) S)"
      using take_parts [OF n(2), of "drop tot S"] by (simp add: add.commute)
    with step IH ok2 show ?thesis by auto
  qed
qed

lemma read_loop_exact:
  assumes "0 < chunk" and "tot \<le> bytes" and "length S = bytes" and "in_step bytes chunk S tot e" and "ex_ok e"
  shows "(fst (read_loop sz clean bytes chunk tot arrived e) \<longleftrightarrow> arrived = drop tot S \<and> clean)
    \<and> (fst (read_loop sz clean bytes chunk tot arrived e) \<longrightarrow> snd (read_loop sz clean bytes chunk tot arrived e) = bytes)"
  using assms
proof (induction sz clean bytes chunk tot arrived e rule: read_loop.induct)
  case (1 sz clean bytes chunk tot arrived e)
  define want where "want = min (bytes - tot) chunk"
  define n where "n = min (max 1 (sz tot)) want"
  define got where "got = take n arrived"
  define e' where "e' = check_read bytes chunk tot got e"
  have r: "read_some (sz tot) want arrived = (got, drop n arrived)" by (simp add: read_some_def got_def n_def Let_def)
  note unfold = read_loop.simps [of sz clean bytes chunk tot arrived e, folded want_def, unfolded r]
  show ?case
  proof (cases "tot < bytes")
    case False
    with 1(3,4,6) show ?thesis unfolding unfold by simp
  next
    case True
    have n: "0 < n" "tot + n \<le> bytes" using True \<open>0 < chunk\<close> by (auto simp: n_def want_def)
    show ?thesis
    proof (cases "got = []")
      case empty: True
      then have "arrived = []" using n(1) by (simp add: got_def)
      moreover have "drop tot S \<noteq> []" using True 1(4) by simp
      ultimately show ?thesis unfolding unfold using True empty by auto
    next
      case some: False
      have len: "tot + length got \<le> bytes" using n(2) by (simp add: got_def)
      note check = check_read_exact [OF \<open>0 < chunk\<close> len 1(5), folded e'_def]
      have arr: "arrived = drop tot S \<longleftrightarrow> got = take (length got) (drop tot S) \<and> drop n arrived = drop (tot + length got) S"
      proof (cases "n \<le> length arrived")
        case True
        then have "length got = n" by (simp add: got_def)
        then show ?thesis by (metis append_take_drop_id drop_drop got_def add.commute)
      next
        case short: False
        then have g: "got = arrived" "drop n arrived = []" by (simp_all add: got_def)
        moreover have "drop (tot + length got) S \<noteq> []" using short n(2) 1(4) g by simp
        moreover have "length arrived \<noteq> length (drop tot S)" using short n(2) 1(4) by simp
        ultimately show ?thesis by auto
      qed
      show ?thesis
      proof (cases "ex_ok e'")
        case False
        with True some check arr 1(6) show ?thesis unfolding unfold by (auto simp: e'_def [symmetric])
      next
        case ok: True
        have "read_loop sz clean bytes chunk tot arrived e = read_loop sz clean bytes chunk (tot + length got) (drop n arrived) e'"
          using True some ok by (subst unfold) (simp add: e'_def [symmetric])
        moreover have "(fst (read_loop sz clean bytes chunk (tot + length got) (drop n arrived) e')
              \<longleftrightarrow> drop n arrived = drop (tot + length got) S \<and> clean)
            \<and> (fst (read_loop sz clean bytes chunk (tot + length got) (drop n arrived) e')
              \<longrightarrow> snd (read_loop sz clean bytes chunk (tot + length got) (drop n arrived) e') = bytes)"
          by (rule 1(1) [OF True r [unfolded want_def, symmetric] refl some e'_def ok \<open>0 < chunk\<close> len 1(4) check [THEN conjunct2] ok])
        ultimately show ?thesis using check ok arr by auto
      qed
    qed
  qed
qed

lemma reader_exact:
  assumes "0 < chunk"
  shows "(fst (reader sz clean bytes chunk seed arrived) \<longleftrightarrow> arrived = stream_of bytes chunk seed \<and> clean)
    \<and> (fst (reader sz clean bytes chunk seed arrived) \<longrightarrow> snd (reader sz clean bytes chunk seed arrived) = bytes)"
  unfolding reader_def
  by (rule read_loop_exact [OF assms _ stream_of_length [OF assms], of 0 bytes, unfolded drop_0])
    (simp_all add: in_step_def)

text \<open>
  C39. The integrity check of the benchmark accepts exactly the right echo. However the path cuts
  the stream into reads, the reader reports success if and only if what arrived is byte for byte
  what the writer of the same seed sent, nothing missing, nothing added, and the stream then
  ended cleanly; in that case it has counted every byte. The generator of the reader stays in
  step with the writer's for every block size, also one that is not a multiple of eight.\<close>
theorem integrity_check_exact:
  assumes "0 < chunk"
  shows "(fst (reader sz clean bytes chunk seed arrived) \<longleftrightarrow> arrived = stream_of bytes chunk seed \<and> clean)
    \<and> (fst (reader sz clean bytes chunk seed arrived) \<longrightarrow> snd (reader sz clean bytes chunk seed arrived) = bytes)"
  by (rule reader_exact [OF assms])

theorem integrity_check_exact_witness:
  "fst (reader (\<lambda>_. 2) True 12 5 (seed_of 0) (stream_of 12 5 (seed_of 0)))
   \<and> \<not> fst (reader (\<lambda>_. 2) True 12 5 (seed_of 0) (stream_of 12 5 (seed_of 0) @ [0]))"
  using integrity_check_exact [of 5 "\<lambda>_. 2" True 12 "seed_of 0" "stream_of 12 5 (seed_of 0)"]
    integrity_check_exact [of 5 "\<lambda>_. 2" True 12 "seed_of 0" "stream_of 12 5 (seed_of 0) @ [0]"]
  by simp

text \<open>Over all connections the sum test adds nothing: accepted readers have counted everything.\<close>

lemma integrity_ok_iff:
  assumes "0 < chunk"
    and "\<And>c r. c \<in> set conns \<Longrightarrow> cr_reader c = Some r \<Longrightarrow> \<exists>sz clean seed arrived. r = reader sz clean bytes chunk seed arrived"
  shows "integrity_ok bytes conns \<longleftrightarrow> list_all (\<lambda>c. \<exists>r. cr_reader c = Some r \<and> fst r \<and> cr_wrote c) conns"
proof -
  have counted: "snd r = bytes" if r: "c \<in> set conns" "cr_reader c = Some r" "fst r" for c r
    using assms(2) [OF r(1,2)] r(3) reader_exact [OF assms(1)] by blast
  let ?n = "\<lambda>c. case cr_reader c of None \<Rightarrow> 0 | Some (ok, tot) \<Rightarrow> tot"
  have sum: "sum_list (map ?n conns) = bytes * length conns"
    if "list_all (\<lambda>c. \<exists>r. cr_reader c = Some r \<and> fst r \<and> cr_wrote c) conns"
  proof -
    have "map ?n conns = map (\<lambda>c. bytes) conns"
      using that counted by (auto simp: list_all_iff split: option.split)
    then show ?thesis by (simp only: sum_list_triv) (simp add: mult.commute)
  qed
  have same: "(case cr_reader c of None \<Rightarrow> False | Some (ok, tot) \<Rightarrow> ok \<and> cr_wrote c)
      \<longleftrightarrow> (\<exists>r. cr_reader c = Some r \<and> fst r \<and> cr_wrote c)" for c
    by (cases "cr_reader c") auto
  show ?thesis unfolding integrity_ok_def same using sum by blast
qed

end
