(* ===== verification/Bench_Echo.thy ===== *)
theory Bench_Echo
  imports Net Bench_Integrity
begin

text \<open>
  The echo backend of the benchmarks (\<open>src/bench/rfwbench/src/echo.rs\<close>): what one event of the
  poll loop does to a connection, and to a UDP socket. The kernel's answers are arguments: the
  outcome of the write of the backlog, and for each read the data with the outcome of echoing
  it. A list of answers ends where the next read would block.
\<close>

datatype conn_end = ConnOpen | ConnEof | ConnFailed

text \<open>\<open>ec_taken\<close> and \<open>ec_echoed\<close> record what has been read from and written to the peer.\<close>

record echo_conn =
  ec_pending :: "u8 list"
  ec_off :: nat
  ec_want_out :: bool
  ec_end :: conn_end
  ec_taken :: "u8 list"
  ec_echoed :: "u8 list"

definition echo_accept :: echo_conn where
  "echo_accept = \<lparr>ec_pending = [], ec_off = 0, ec_want_out = False, ec_end = ConnOpen, ec_taken = [], ec_echoed = []\<rparr>"

definition fatal :: "io_error \<Rightarrow> bool" where
  "fatal e \<longleftrightarrow> ioe_kind e \<noteq> WouldBlock"

text \<open>What is still queued goes out before anything more is read.\<close>

definition flush_pending :: "io_error + nat \<Rightarrow> echo_conn \<Rightarrow> echo_conn" where
  "flush_pending w c =
     (if ec_off c < length (ec_pending c)
      then let c1 = (case w of
                       Inr n \<Rightarrow> c\<lparr>ec_off := ec_off c + n, ec_echoed := ec_echoed c @ take n (drop (ec_off c) (ec_pending c))\<rparr>
                     | Inl e \<Rightarrow> if fatal e then c\<lparr>ec_end := ConnFailed\<rparr> else c)
           in if ec_off c1 \<ge> length (ec_pending c1) then c1\<lparr>ec_pending := [], ec_off := 0, ec_want_out := False\<rparr> else c1
      else c)"

fun echo_reads :: "((io_error + u8 list) \<times> (io_error + nat)) list \<Rightarrow> echo_conn \<Rightarrow> echo_conn" where
  "echo_reads [] c = c"
| "echo_reads ((Inl e, w) # rs) c = (if fatal e then c\<lparr>ec_end := ConnFailed\<rparr> else c)"
| "echo_reads ((Inr data, w) # rs) c =
     (if data = [] then c\<lparr>ec_end := ConnEof\<rparr>
      else let n = (case w of Inr n \<Rightarrow> n | Inl _ \<Rightarrow> 0);
               c1 = c\<lparr>ec_taken := ec_taken c @ data, ec_echoed := ec_echoed c @ take n data\<rparr>
           in if n < length data
              then c1\<lparr>ec_pending := ec_pending c1 @ drop n data, ec_off := 0, ec_want_out := True\<rparr>
              else echo_reads rs c1)"

record poll_event =
  pe_readable :: bool
  pe_write :: "io_error + nat"
  pe_reads :: "((io_error + u8 list) \<times> (io_error + nat)) list"

definition on_event :: "poll_event \<Rightarrow> echo_conn \<Rightarrow> echo_conn" where
  "on_event ev c =
     (if ec_end c \<noteq> ConnOpen then c
      else let c1 = flush_pending (pe_write ev) c
           in if ec_end c1 = ConnOpen \<and> ec_pending c1 = [] \<and> pe_readable ev then echo_reads (pe_reads ev) c1 else c1)"

text \<open>A UDP socket answers at most 64 datagrams per event, each to its sender.\<close>

fun echo_datagrams :: "nat \<Rightarrow> (io_error + (u8 list \<times> socket_addr)) list \<Rightarrow> (u8 list \<times> socket_addr) list" where
  "echo_datagrams 0 rs = []"
| "echo_datagrams (Suc k) [] = []"
| "echo_datagrams (Suc k) (Inl e # rs) = []"
| "echo_datagrams (Suc k) (Inr d # rs) = d # echo_datagrams k rs"

section \<open>The echo is faithful\<close>

definition echo_ok :: "echo_conn \<Rightarrow> bool" where
  "echo_ok c \<longleftrightarrow>
     ec_echoed c @ drop (ec_off c) (ec_pending c) = ec_taken c
     \<and> (ec_pending c = [] \<or> ec_off c < length (ec_pending c))
     \<and> ec_want_out c = (ec_pending c \<noteq> [])
     \<and> (ec_end c = ConnEof \<longrightarrow> ec_pending c = [])"

lemma flush_ok:
  assumes "echo_ok c"
  shows "echo_ok (flush_pending w c)"
proof (cases "ec_off c < length (ec_pending c)")
  case True
  have "echo_ok (flush_pending (Inr n) c)" for n
  proof (cases "length (ec_pending c) \<le> ec_off c + n")
    case full: True
    then have "take n (drop (ec_off c) (ec_pending c)) = drop (ec_off c) (ec_pending c)" by simp
    with full True assms show ?thesis by (auto simp: echo_ok_def flush_pending_def)
  next
    case False
    have "take n (drop (ec_off c) (ec_pending c)) @ drop (ec_off c + n) (ec_pending c) = drop (ec_off c) (ec_pending c)"
      using append_take_drop_id [of n "drop (ec_off c) (ec_pending c)"] by (simp add: add.commute)
    with False True assms show ?thesis by (auto simp: echo_ok_def flush_pending_def)
  qed
  moreover have "echo_ok (flush_pending (Inl e) c)" for e
    using True assms by (auto simp: echo_ok_def flush_pending_def)
  ultimately show ?thesis by (cases w) simp_all
qed (use assms in \<open>simp add: flush_pending_def\<close>)

lemma echo_reads_ok: "echo_ok c \<Longrightarrow> ec_pending c = [] \<Longrightarrow> ec_end c = ConnOpen \<Longrightarrow> echo_ok (echo_reads rs c)"
  by (induction rs c rule: echo_reads.induct) (auto simp: echo_ok_def Let_def split: sum.splits)

lemma on_event_ok: "echo_ok c \<Longrightarrow> echo_ok (on_event ev c)"
  by (simp add: on_event_def Let_def flush_ok echo_reads_ok)

lemma echo_run_ok: "echo_ok (fold on_event evs echo_accept)"
proof -
  have "echo_ok (fold on_event evs c)" if "echo_ok c" for c using that by (induction evs arbitrary: c) (simp_all add: on_event_ok)
  then show ?thesis by (simp add: echo_ok_def echo_accept_def)
qed

text \<open>
  C40. The echo backend is a faithful mirror, so a failed comparison is never its fault. Whatever
  the kernel answers, at every moment what it has written back is a prefix of what it has read
  and the rest is exactly its backlog; it waits for the socket to become writable exactly while
  there is a backlog; and a connection that it closes because the peer is done has echoed
  everything. The integrity check over such a connection then succeeds.\<close>
theorem echo_faithful:
  assumes "c = fold on_event evs echo_accept"
  shows "ec_echoed c @ drop (ec_off c) (ec_pending c) = ec_taken c \<and> ec_want_out c = (ec_pending c \<noteq> [])
     \<and> (ec_end c = ConnEof \<longrightarrow> ec_echoed c = ec_taken c)
     \<and> (ec_end c = ConnEof \<and> ec_taken c = stream_of bytes chunk seed \<and> 0 < chunk
          \<longrightarrow> reader sz True bytes chunk seed (ec_echoed c) = (True, bytes))"
proof -
  have ok: "echo_ok c" unfolding assms by (rule echo_run_ok)
  then have eof: "ec_end c = ConnEof \<Longrightarrow> ec_echoed c = ec_taken c" by (auto simp: echo_ok_def)
  have "reader sz True bytes chunk seed (ec_echoed c) = (True, bytes)"
    if "ec_end c = ConnEof" "ec_taken c = stream_of bytes chunk seed" "0 < chunk"
    using reader_exact [OF that(3), of sz True bytes seed "ec_echoed c"] eof that(1,2) by (metis prod.collapse)
  with ok eof show ?thesis by (auto simp: echo_ok_def)
qed

theorem echo_faithful_witness:
  "ec_echoed (fold on_event
     [\<lparr>pe_readable = True, pe_write = Inr 0, pe_reads = [(Inr [1, 2, 3], Inr 1)]\<rparr>,
      \<lparr>pe_readable = True, pe_write = Inr 2, pe_reads = [(Inr [], Inr 0)]\<rparr>] echo_accept) = [1, 2, 3]"
proof -
  let ?c = "fold on_event
     [\<lparr>pe_readable = True, pe_write = Inr 0, pe_reads = [(Inr [1, 2, 3], Inr 1)]\<rparr>,
      \<lparr>pe_readable = True, pe_write = Inr 2, pe_reads = [(Inr [], Inr 0)]\<rparr>] echo_accept"
  have "ec_end ?c = ConnEof \<and> ec_taken ?c = [1, 2, 3]"
    by (simp add: on_event_def echo_accept_def flush_pending_def Let_def)
  with echo_faithful [OF refl, of _ 0 0 0 "\<lambda>_. 0"] show ?thesis by metis
qed

end
