(* ===== verification/Bench_Load.thy ===== *)
theory Bench_Load
  imports Net Fd_Limits "HOL-Library.Multiset"
begin

text \<open>
  The client modes of the load generator (\<open>src/bench/rfwbench/src\<close>: \<open>util.rs\<close>, \<open>main.rs\<close>, \<open>tcp.rs\<close>
  and \<open>udp.rs\<close>): the argument bag, the loops that decide which latency is recorded, which request
  is whose, and what counts as loss, reordering or an error. Clock readings and the outcomes of
  the socket calls are arguments; options with a fraction arrive as the durations they denote.
\<close>

section \<open>Arguments\<close>

definition is_option :: "rstr \<Rightarrow> bool" where
  "is_option s \<longleftrightarrow> strip_prefix (lit ''--'') s \<noteq> None"

fun args_loop :: "rstr list \<Rightarrow> (rstr \<rightharpoonup> rstr) \<Rightarrow> (rstr \<rightharpoonup> rstr)" where
  "args_loop [] m = m"
| "args_loop (a # as) m =
     (case strip_prefix (lit ''--'') a of
        None \<Rightarrow> args_loop as m
      | Some k \<Rightarrow>
          (case as of
             v # vs \<Rightarrow> if \<not> is_option v then args_loop vs (m(k \<mapsto> v)) else args_loop as (m(k \<mapsto> lit ''true''))
           | [] \<Rightarrow> m(k \<mapsto> lit ''true'')))"

definition args_parse :: "rstr list \<Rightarrow> (rstr \<rightharpoonup> rstr)" where
  "args_parse argv = args_loop argv Map.empty"

definition arg_str :: "(rstr \<rightharpoonup> rstr) \<Rightarrow> rstr \<Rightarrow> rstr \<Rightarrow> rstr" where
  "arg_str m k d = (case m k of Some v \<Rightarrow> v | None \<Rightarrow> d)"

text \<open>\<open>num\<close> for an unsigned type whose largest value is \<open>mx\<close>: text that does not parse means the default.\<close>

definition arg_num :: "nat \<Rightarrow> (rstr \<rightharpoonup> rstr) \<Rightarrow> rstr \<Rightarrow> nat \<Rightarrow> nat" where
  "arg_num mx m k d = (case m k of Some v \<Rightarrow> (case parse_uint mx v of Inr n \<Rightarrow> n | Inl _ \<Rightarrow> d) | None \<Rightarrow> d)"

definition arg_flag :: "(rstr \<rightharpoonup> rstr) \<Rightarrow> rstr \<Rightarrow> bool" where
  "arg_flag m k \<longleftrightarrow> m k \<noteq> None"

datatype mode = Echo | Rr | Cps | Hold | Integrity | Udprr | Udpflood | Udphold | Pin | Pipeprobe

definition mode_of :: "rstr list \<Rightarrow> mode option" where
  "mode_of argv =
     (case argv of
        [] \<Rightarrow> None
      | m # _ \<Rightarrow>
          map_of [(lit ''echo'', Echo), (lit ''rr'', Rr), (lit ''cps'', Cps), (lit ''hold'', Hold),
                  (lit ''integrity'', Integrity), (lit ''udprr'', Udprr), (lit ''udpflood'', Udpflood),
                  (lit ''udphold'', Udphold), (lit ''pin'', Pin), (lit ''pipeprobe'', Pipeprobe)] m)"

text \<open>
  The port of a connection, at the width of the release build, where sums wrap; a zero divisor
  panics. \<open>i\<close> is cut to 16 bits first, the number of a request is not.
\<close>

definition port_of :: "u16 \<Rightarrow> u16 \<Rightarrow> nat \<Rightarrow> u16 option" where
  "port_of base ports i = (if ports = 0 then None else Some (base + of_nat i mod ports))"

definition cps_port :: "u16 \<Rightarrow> u16 \<Rightarrow> u64 \<Rightarrow> u16 option" where
  "cps_port base ports k = (if ports = 0 then None else Some (base + ucast (k mod ucast ports)))"

text \<open>The address a mode talks to: the first IPv4 one of the lookup; \<open>None\<close> is \<open>die\<close>.\<close>

definition bench_resolve :: "(io_error + socket_addr list) \<Rightarrow> socket_addr option" where
  "bench_resolve found =
     (case found of Inl _ \<Rightarrow> None | Inr as \<Rightarrow> List.find (\<lambda>a. case sa_ip a of V4 _ \<Rightarrow> True | V6 _ \<Rightarrow> False) as)"

section \<open>Request and response\<close>

text \<open>
  One turn of the loop of \<open>rr\<close>: the clock at the top, the clock when a closed-loop request goes
  out, whether the round trip succeeded, and the clock when its reply was there.
\<close>

record rr_turn =
  rt_now :: instant
  rt_sent :: instant
  rt_ok :: bool
  rt_done :: instant

record rr_plan =
  rp_open :: bool
  rp_period :: duration
  rp_start :: instant
  rp_measure_from :: duration
  rp_end :: duration

text \<open>The latencies recorded and the errors counted.\<close>

fun rr_loop :: "rr_plan \<Rightarrow> instant \<Rightarrow> rr_turn list \<Rightarrow> duration list \<times> nat" where
  "rr_loop p due [] = ([], 0)"
| "rr_loop p due (t # ts) =
     (if rp_end p \<le> rt_now t - rp_start p then ([], 0)
      else let sent_at = (if rp_open p then due else rt_sent t);
               due' = (if rp_open p then due + rp_period p else due)
           in if \<not> rt_ok t then ([], 1)
              else let (ls, errs) = rr_loop p due' ts
                   in (if rp_measure_from p \<le> sent_at - rp_start p then (rt_done t - sent_at) # ls else ls, errs))"

section \<open>Connections per second\<close>

datatype worker = WorkerIdle | WorkerBusy nat | WorkerDone

record cps_run =
  cp_next :: nat
  cp_workers :: "worker list"
  cp_ok :: "nat list"
  cp_errors :: "nat list"

definition cps_init :: "nat \<Rightarrow> cps_run" where
  "cps_init conns = \<lparr>cp_next = 0, cp_workers = replicate conns WorkerIdle, cp_ok = [], cp_errors = []\<rparr>"

text \<open>\<open>fetch_add\<close> hands out the numbers; the threads interleave in any way.\<close>

inductive cps_step :: "nat \<Rightarrow> cps_run \<Rightarrow> cps_run \<Rightarrow> bool" for limit where
  claim: "i < length (cp_workers r) \<Longrightarrow> cp_workers r ! i = WorkerIdle
    \<Longrightarrow> cps_step limit r (r\<lparr>cp_next := cp_next r + 1,
          cp_workers := (cp_workers r)[i := if cp_next r \<ge> limit then WorkerDone else WorkerBusy (cp_next r)]\<rparr>)"
| success: "i < length (cp_workers r) \<Longrightarrow> cp_workers r ! i = WorkerBusy k
    \<Longrightarrow> cps_step limit r (r\<lparr>cp_workers := (cp_workers r)[i := WorkerIdle], cp_ok := k # cp_ok r\<rparr>)"
| failure: "i < length (cp_workers r) \<Longrightarrow> cp_workers r ! i = WorkerBusy k
    \<Longrightarrow> cps_step limit r (r\<lparr>cp_workers := (cp_workers r)[i := WorkerIdle], cp_errors := k # cp_errors r\<rparr>)"

section \<open>Holding connections\<close>

definition hold_threads :: "nat \<Rightarrow> nat \<Rightarrow> nat" where
  "hold_threads threads conns = min threads (max conns 1)"

text \<open>The connections thread \<open>t\<close> opens: every \<open>threads\<close>-th from \<open>t\<close> on.\<close>

function hold_share :: "nat \<Rightarrow> nat \<Rightarrow> nat \<Rightarrow> nat list" where
  "hold_share threads conns i = (if i < conns \<and> 0 < threads then i # hold_share threads conns (i + threads) else [])"
  by pat_completeness auto
termination by (relation "measure (\<lambda>(threads, conns, i). conns - i)") auto

declare hold_share.simps [simp del]

text \<open>The burst of one connection in pieces of at most 16 KiB.\<close>

function burst_pieces :: "nat \<Rightarrow> nat list" where
  "burst_pieces left = (if left = 0 then [] else let n = min left 16384 in n # burst_pieces (left - n))"
  by pat_completeness auto
termination by (relation "measure id") auto

declare burst_pieces.simps [simp del]

text \<open>
  One connection of \<open>hold\<close>: a round trip of one byte and then the pieces of the burst, each of
  them written and read back; the first failure fails the connection. \<open>trip k n\<close> is the outcome of
  round trip \<open>k\<close> of \<open>n\<close> bytes.
\<close>

definition hold_conn :: "nat \<Rightarrow> bool \<Rightarrow> (nat \<Rightarrow> nat \<Rightarrow> bool) \<Rightarrow> bool" where
  "hold_conn burst connected trip \<longleftrightarrow>
     connected \<and> list_all (\<lambda>(k, n). trip k n) (enumerate 0 (1 # burst_pieces burst))"

text \<open>The sockets a thread ends with and the number of its failures, and the totals over all threads.\<close>

definition hold_thread :: "(nat \<Rightarrow> bool) \<Rightarrow> nat \<Rightarrow> nat \<Rightarrow> nat \<Rightarrow> nat list \<times> nat" where
  "hold_thread ok threads conns t =
     (let mine = hold_share threads conns t in (filter ok mine, length (filter (\<lambda>i. \<not> ok i) mine)))"

definition hold_totals :: "(nat \<Rightarrow> bool) \<Rightarrow> nat \<Rightarrow> nat \<Rightarrow> nat list \<times> nat" where
  "hold_totals ok threads conns =
     (let rs = map (hold_thread ok threads conns) [0..<threads]
      in (concat (map fst rs), sum_list (map snd rs)))"

section \<open>UDP\<close>

definition dns_query :: "u16 \<Rightarrow> u8 list" where
  "dns_query qid =
     [ucast (drop_bit 8 qid), ucast qid, 1, 0, 0, 1, 0, 0, 0, 0, 0, 0]
     @ concat (map (\<lambda>l. of_nat (length l) # map of_char l) [''example'', ''org'']) @ [0, 0, 1, 0, 1]"

text \<open>
  The wait for the reply to \<open>seq\<close> in \<open>udprr\<close>: replies that are too short or carry another number
  are skipped. The result says whether the reply came; \<open>None\<close> is still waiting.
\<close>

fun udprr_wait :: "u16 \<Rightarrow> (io_error + u8 list) list \<Rightarrow> bool option" where
  "udprr_wait seq [] = None"
| "udprr_wait seq (Inl e # rs) = Some False"
| "udprr_wait seq (Inr d # rs) =
     (if 2 \<le> length d \<and> take 2 d = [ucast (drop_bit 8 seq), ucast seq] then Some True else udprr_wait seq rs)"

text \<open>
  One turn of \<open>udprr\<close>: the clock at the top, the clock at the send, its outcome, the receives that
  follow and the clock when the reply was there.
\<close>

record udprr_turn =
  ut_now :: instant
  ut_sent :: instant
  ut_send_ok :: bool
  ut_recv :: "(io_error + u8 list) list"
  ut_done :: instant

fun udprr_loop :: "instant \<Rightarrow> duration \<Rightarrow> duration \<Rightarrow> u16 \<Rightarrow> udprr_turn list \<Rightarrow> duration list \<times> nat" where
  "udprr_loop t0 warm until seq [] = ([], 0)"
| "udprr_loop t0 warm until seq (t # ts) =
     (if \<not> ut_now t - t0 < until then ([], 0)
      else let seq' = seq + 1;
               (ls, errs) = udprr_loop t0 warm until seq' ts
           in if \<not> ut_send_ok t then (ls, errs + 1)
              else case udprr_wait seq' (ut_recv t) of
                     None \<Rightarrow> ([], 0)
                   | Some False \<Rightarrow> (ls, errs + 1)
                   | Some True \<Rightarrow> (if warm \<le> ut_sent t - t0 then (ut_done t - ut_sent t) # ls else ls, errs))"

record flood_stats =
  fl_hi :: nat
  fl_received :: nat
  fl_reordered :: nat

definition flood_recv :: "nat \<Rightarrow> flood_stats \<Rightarrow> flood_stats" where
  "flood_recv seq f =
     (if seq < fl_hi f then f\<lparr>fl_reordered := fl_reordered f + 1, fl_received := fl_received f + 1\<rparr>
      else f\<lparr>fl_hi := seq, fl_received := fl_received f + 1\<rparr>)"

definition flood_init :: flood_stats where
  "flood_init = \<lparr>fl_hi = 0, fl_received = 0, fl_reordered = 0\<rparr>"

text \<open>
  What a \<open>recv\<close> of the reader brings: a datagram with its number, one too short to carry one, or an
  error (the timeout), with the value of \<open>stop\<close> at that moment.
\<close>

datatype flood_event = FloodDatagram nat | FloodShort | FloodErr bool

text \<open>The reader ends after five errors in a row since the senders have stopped.\<close>

fun flood_reader :: "nat \<Rightarrow> flood_stats \<Rightarrow> flood_event list \<Rightarrow> flood_stats \<times> bool" where
  "flood_reader idle f [] = (f, False)"
| "flood_reader idle f (FloodDatagram seq # evs) = flood_reader 0 (flood_recv seq f) evs"
| "flood_reader idle f (FloodShort # evs) = flood_reader idle f evs"
| "flood_reader idle f (FloodErr stopped # evs) =
     (if stopped then (if idle + 1 \<ge> 5 then (f, True) else flood_reader (idle + 1) f evs)
      else flood_reader idle f evs)"

text \<open>The pacing of the sender after a send: it does not catch up when it fell behind.\<close>

definition flood_pace :: "duration \<Rightarrow> instant \<Rightarrow> instant \<Rightarrow> instant \<Rightarrow> instant" where
  "flood_pace interval next now1 now2 =
     (let next' = next + interval in if next' + from_millis 5 < now1 then now2 else next')"

text \<open>
  The sender: per turn the clock, the outcome of \<open>send\<close> and the clock readings of the pacing. The
  result is the number of each datagram with its outcome; a turn before \<open>next\<close> sends nothing.
\<close>

record flood_turn =
  ft_now :: instant
  ft_ok :: bool
  ft_now1 :: instant
  ft_now2 :: instant

fun flood_sender :: "duration \<Rightarrow> instant \<Rightarrow> duration \<Rightarrow> nat \<Rightarrow> instant \<Rightarrow> flood_turn list \<Rightarrow> (nat \<times> bool) list" where
  "flood_sender interval start until seq next [] = []"
| "flood_sender interval start until seq next (t # ts) =
     (if until \<le> ft_now t - start then []
      else if ft_now t < next then flood_sender interval start until seq next ts
      else (seq, ft_ok t)
           # flood_sender interval start until (seq + 1) (flood_pace interval next (ft_now1 t) (ft_now2 t)) ts)"

definition lost_of :: "nat \<Rightarrow> nat \<Rightarrow> nat" where
  "lost_of sent received = sent - received"

text \<open>
  The probe of \<open>udphold\<close>: the datagram of a flow, the wait for its answer until the deadline, and up
  to three attempts, each over the flows that have not answered yet. \<open>got a i\<close> says whether flow \<open>i\<close>
  answers in the attempt after which \<open>a\<close> are left.
\<close>

definition probe_message :: "u8 \<Rightarrow> nat \<Rightarrow> u8 list" where
  "probe_message tag i = [tag, of_nat (i mod 256), of_nat (i div 256), 0]"

fun probe_wait :: "u8 \<Rightarrow> instant \<Rightarrow> (instant \<times> (io_error + u8 list)) list \<Rightarrow> bool" where
  "probe_wait tag deadline [] = False"
| "probe_wait tag deadline ((now, r) # evs) =
     (if deadline \<le> now then False
      else case r of
             Inl _ \<Rightarrow> False
           | Inr d \<Rightarrow> if 3 \<le> length d \<and> hd d = tag then True else probe_wait tag deadline evs)"

fun probe_flows :: "nat \<Rightarrow> (nat \<Rightarrow> nat \<Rightarrow> bool) \<Rightarrow> nat list \<Rightarrow> nat" where
  "probe_flows 0 got pending = 0"
| "probe_flows (Suc k) got pending =
     (let still = filter (\<lambda>i. \<not> got k i) pending
      in (length pending - length still) + (if still = [] then 0 else probe_flows k got still))"

section \<open>Limits, pipes and pinning\<close>

text \<open>The soft limit goes to the hard one; the limit in force is reported, 0 when it cannot be read.\<close>

definition raise_nofile :: "rlimit_calls \<Rightarrow> rlimit \<Rightarrow> u64 \<times> rlimit" where
  "raise_nofile rc rl =
     (if rc_get rc
      then let rl' = (if rc_set rc (rlim_max rl) then rl\<lparr>rlim_cur := rlim_max rl\<rparr> else rl) in (rlim_cur rl', rl')
      else (0, rl))"

text \<open>
  \<open>pipeprobe\<close>: per pipe whether setting its size succeeded and the size it has; \<open>None\<close> is a failed
  \<open>pipe2\<close>, which ends the loop. \<open>pp_first_small\<close> is \<open>None\<close> for the -1 of the source.
\<close>

record pipe_report =
  pp_pipes :: nat
  pp_set_failures :: nat
  pp_small :: nat
  pp_first_small :: "nat option"
  pp_min_cap :: int

definition pipe_report_init :: pipe_report where
  "pipe_report_init =
     \<lparr>pp_pipes = 0, pp_set_failures = 0, pp_small = 0, pp_first_small = None, pp_min_cap = 2147483647\<rparr>"

fun pipeprobe_loop :: "(bool \<times> int) option list \<Rightarrow> pipe_report \<Rightarrow> pipe_report" where
  "pipeprobe_loop [] r = r"
| "pipeprobe_loop (None # ps) r = r"
| "pipeprobe_loop (Some (set_ok, cap) # ps) r =
     pipeprobe_loop ps
       (r\<lparr>pp_pipes := pp_pipes r + 1,
          pp_set_failures := (if set_ok then pp_set_failures r else pp_set_failures r + 1),
          pp_min_cap := min (pp_min_cap r) cap,
          pp_small := (if cap < 65536 then pp_small r + 1 else pp_small r),
          pp_first_small := (if cap < 65536 \<and> pp_first_small r = None then Some (pp_pipes r) else pp_first_small r)\<rparr>)"

definition pipeprobe :: "(bool \<times> int) option list \<Rightarrow> pipe_report" where
  "pipeprobe answers =
     (let r = pipeprobe_loop answers pipe_report_init
      in r\<lparr>pp_min_cap := (if pp_min_cap r = 2147483647 then 0 else pp_min_cap r)\<rparr>)"

definition pin_cpus :: "rstr \<Rightarrow> nat list" where
  "pin_cpus cpus = concat (map (\<lambda>c. case parse_uint (2 ^ 64 - 1) (trim c) of Inr n \<Rightarrow> [n] | Inl _ \<Rightarrow> []) (split_str 44 cpus))"

text \<open>\<open>tasks pid\<close> is the outcome of \<open>sched_setaffinity\<close> per thread of a process, if it can be listed.\<close>

definition pin_counts :: "(rstr \<Rightarrow> bool list option) \<Rightarrow> rstr \<Rightarrow> nat \<times> nat" where
  "pin_counts tasks pids =
     fold (\<lambda>pid (ok, failed).
        case tasks pid of
          None \<Rightarrow> (ok, failed + 1)
        | Some rs \<Rightarrow> (ok + length (filter (\<lambda>r. r) rs), failed + length (filter (\<lambda>r. \<not> r) rs)))
       (filter (\<lambda>p. p \<noteq> []) (split_str 44 pids)) (0, 0)"

section \<open>Properties\<close>

text \<open>Options come back as they were given, the last one winning.\<close>

lemma args_loop_options:
  assumes "\<forall>(k, v) \<in> set kvs. \<not> is_option v"
  shows "args_loop (concat (map (\<lambda>(k, v). [lit ''--'' @ k, v]) kvs)) m = m ++ map_of (rev kvs)"
  using assms
proof (induction kvs arbitrary: m)
  case (Cons p kvs)
  obtain k v where p: "p = (k, v)" by fastforce
  have "strip_prefix (lit ''--'') (lit ''--'' @ k) = Some k" by simp
  then have "args_loop (concat (map (\<lambda>(k, v). [lit ''--'' @ k, v]) (p # kvs))) m
      = args_loop (concat (map (\<lambda>(k, v). [lit ''--'' @ k, v]) kvs)) (m(k \<mapsto> v))"
    using Cons.prems p by simp
  with Cons p show ?case by simp
qed simp

text \<open>
  The open loop measures from the schedule: request \<open>k\<close> is due at \<open>due + k * period\<close> however long
  the earlier replies took, so a stall is charged to every request it delays.
\<close>

lemma rr_open_schedule:
  assumes "rp_open p" and "\<forall>t \<in> set ts. rt_now t - rp_start p < rp_end p \<and> rt_ok t"
  shows "rr_loop p due ts =
    (map (\<lambda>(k, t). rt_done t - (due + k * rp_period p))
       (filter (\<lambda>(k, t). rp_measure_from p \<le> due + k * rp_period p - rp_start p) (enumerate 0 ts)), 0)"
  using assms(2)
proof (induction ts arbitrary: due)
  case (Cons t ts)
  have shift: "enumerate (Suc n) ts = map (\<lambda>(k, t). (Suc k, t)) (enumerate n ts)" for n and ts :: "rr_turn list"
    by (induction ts arbitrary: n) simp_all
  have "rr_loop p (due + rp_period p) ts =
    (map (\<lambda>(k, t). rt_done t - (due + rp_period p + k * rp_period p))
       (filter (\<lambda>(k, t). rp_measure_from p \<le> due + rp_period p + k * rp_period p - rp_start p) (enumerate 0 ts)), 0)"
    by (rule Cons.IH) (use Cons.prems in simp)
  with Cons.prems assms(1) show ?case
    by (simp add: shift Let_def filter_map comp_def case_prod_unfold add.assoc not_le [symmetric])
qed simp

text \<open>The numbers handed out so far are with a worker, done or failed, each once.\<close>

definition busy_list :: "worker list \<Rightarrow> nat list" where
  "busy_list ws = concat (map (\<lambda>w. case w of WorkerBusy k \<Rightarrow> [k] | _ \<Rightarrow> []) ws)"

definition cps_ok :: "nat \<Rightarrow> cps_run \<Rightarrow> bool" where
  "cps_ok limit r \<longleftrightarrow>
     mset (cp_ok r) + mset (cp_errors r) + mset (busy_list (cp_workers r)) = mset [0..<min (cp_next r) limit]
     \<and> (WorkerDone \<in> set (cp_workers r) \<longrightarrow> limit < cp_next r)"

lemma busy_list_update:
  assumes "i < length ws"
  shows "mset (busy_list (ws[i := w])) + mset (busy_list [ws ! i]) = mset (busy_list ws) + mset (busy_list [w])"
proof -
  have parts: "busy_list (xs @ v # ys) = busy_list xs @ busy_list [v] @ busy_list ys" for xs v ys
    by (simp add: busy_list_def)
  have "busy_list ws = busy_list (take i ws) @ busy_list [ws ! i] @ busy_list (drop (Suc i) ws)"
    using id_take_nth_drop [OF assms] parts by metis
  moreover have "busy_list (ws[i := w]) = busy_list (take i ws) @ busy_list [w] @ busy_list (drop (Suc i) ws)"
    using assms by (simp add: upd_conv_take_nth_drop parts del: append_Cons)
  ultimately show ?thesis by simp
qed

lemma busy_single [simp]:
  "busy_list [WorkerIdle] = []" "busy_list [WorkerDone] = []" "busy_list [WorkerBusy k] = [k]"
  by (simp_all add: busy_list_def)

lemma cps_step_ok: "cps_step limit r r' \<Longrightarrow> cps_ok limit r \<Longrightarrow> cps_ok limit r'"
proof (induction rule: cps_step.induct)
  case (claim i r)
  let ?w = "if cp_next r \<ge> limit then WorkerDone else WorkerBusy (cp_next r)"
  have "mset (busy_list ((cp_workers r)[i := ?w])) = mset (busy_list (cp_workers r)) + (if cp_next r \<ge> limit then {#} else {#cp_next r#})"
    using busy_list_update [OF claim(1), of ?w] claim(2) by simp
  moreover have "mset [0..<min (cp_next r + 1) limit]
      = mset [0..<min (cp_next r) limit] + (if cp_next r \<ge> limit then {#} else {#cp_next r#})"
    by (auto simp: min_def simp del: mset_upt)
  ultimately show ?case
    using claim by (auto simp: cps_ok_def add.assoc simp del: mset_upt dest!: subsetD [OF set_update_subset_insert] split: if_splits)
next
  case (success i r k)
  have "mset (busy_list (cp_workers r)) = add_mset k (mset (busy_list ((cp_workers r)[i := WorkerIdle])))"
    using busy_list_update [OF success(1), of WorkerIdle] success(2) by simp
  with success show ?case
    by (auto simp: cps_ok_def simp del: mset_upt dest!: subsetD [OF set_update_subset_insert])
next
  case (failure i r k)
  have "mset (busy_list (cp_workers r)) = add_mset k (mset (busy_list ((cp_workers r)[i := WorkerIdle])))"
    using busy_list_update [OF failure(1), of WorkerIdle] failure(2) by simp
  with failure show ?case
    by (auto simp: cps_ok_def simp del: mset_upt dest!: subsetD [OF set_update_subset_insert])
qed

text \<open>
  The connection-rate benchmark makes exactly the requests it was asked for. However its
  threads interleave, once they have all ended every number below the total has been tried
  exactly once, and the successes and the errors it reports add up to the total.\<close>
lemma cps_every_request_once:
  assumes "(cps_step limit)\<^sup>*\<^sup>* (cps_init conns) r" and "0 < conns" and "\<forall>w \<in> set (cp_workers r). w = WorkerDone"
  shows "mset (cp_ok r) + mset (cp_errors r) = mset [0..<limit] \<and> length (cp_ok r) + length (cp_errors r) = limit"
proof -
  have init: "cps_ok limit (cps_init conns)"
    by (auto simp: cps_ok_def cps_init_def busy_list_def)
  have run: "cps_ok limit r \<and> length (cp_workers r) = conns"
    using assms(1)
  proof (induction rule: rtranclp_induct)
    case base
    then show ?case using init by (simp add: cps_init_def)
  next
    case (step r r')
    moreover have "length (cp_workers r') = length (cp_workers r)" using step(2) by (auto elim: cps_step.cases)
    ultimately show ?case using cps_step_ok by simp
  qed
  then have "cp_workers r = replicate conns WorkerDone" using assms(3) by (metis replicate_eqI)
  with run assms(2) have "busy_list (cp_workers r) = []" "limit < cp_next r"
    by (simp_all add: busy_list_def cps_ok_def)
  with run have eq: "mset (cp_ok r) + mset (cp_errors r) = mset [0..<limit]"
    by (simp add: cps_ok_def min_absorb2 del: mset_upt)
  from arg_cong [OF eq, of size] have "length (cp_ok r) + length (cp_errors r) = limit"
    by (simp del: mset_upt)
  with eq show ?thesis ..
qed

text \<open>Every connection belongs to exactly one thread, and a burst is sent completely.\<close>

lemma hold_share_set: "0 < threads \<Longrightarrow> set (hold_share threads conns i) = {j. i \<le> j \<and> j < conns \<and> j mod threads = i mod threads}"
proof (induction threads conns i rule: hold_share.induct)
  case (1 threads conns i)
  show ?case
  proof (cases "i < conns")
    case True
    with 1 have IH: "set (hold_share threads conns (i + threads))
        = {j. i + threads \<le> j \<and> j < conns \<and> j mod threads = i mod threads}" by simp
    have "j = i \<or> i + threads \<le> j" if "i \<le> j" "j mod threads = i mod threads" for j
    proof -
      have "(j - i) mod threads = 0" using that by (simp add: mod_eq_dvd_iff_nat [symmetric] mod_eq_0_iff_dvd)
      then obtain q where "j - i = threads * q" by auto
      then show ?thesis using that(1) by (cases q) auto
    qed
    with True 1(2) IH show ?thesis by (subst hold_share.simps) auto
  qed (simp add: hold_share.simps)
qed

lemma hold_every_connection:
  assumes "0 < threads"
  shows "(\<Union>t < threads. set (hold_share threads conns t)) = {..<conns}"
    and "t < threads \<Longrightarrow> u < threads \<Longrightarrow> t \<noteq> u \<Longrightarrow> set (hold_share threads conns t) \<inter> set (hold_share threads conns u) = {}"
proof -
  show "(\<Union>t < threads. set (hold_share threads conns t)) = {..<conns}"
  proof (intro equalityI subsetI)
    fix j assume "j \<in> {..<conns}"
    moreover have "j mod threads < threads" "j mod threads \<le> j" using assms by simp_all
    ultimately show "j \<in> (\<Union>t < threads. set (hold_share threads conns t))"
      by (intro UN_I [of "j mod threads"]) (simp_all add: hold_share_set assms)
  qed (auto simp: hold_share_set assms)
qed (auto simp: hold_share_set assms)

lemma hold_share_sorted: "0 < threads \<Longrightarrow> sorted_wrt (<) (hold_share threads conns i)"
proof (induction threads conns i rule: hold_share.induct)
  case (1 threads conns i)
  then show ?case by (subst hold_share.simps) (auto simp: hold_share_set)
qed

lemma hold_shares_all:
  assumes "0 < threads"
  shows "mset (concat (map (hold_share threads conns) [0..<threads])) = mset [0..<conns]"
proof (rule set_eq_iff_mset_eq_distinct [THEN iffD1])
  have "distinct (hold_share threads conns t)" for t
    using hold_share_sorted [OF assms] strict_sorted_iff by blast
  moreover have "distinct (concat (map (hold_share threads conns) [0..<k]))" if "k \<le> threads" for k
    using that
  proof (induction k)
    case (Suc k)
    then have "set (hold_share threads conns t) \<inter> set (hold_share threads conns k) = {}" if "t < k" for t
      using hold_every_connection(2) [OF assms, of t k conns] that by simp
    with Suc calculation show ?case by (fastforce simp: disjoint_iff)
  qed simp
  ultimately show "distinct (concat (map (hold_share threads conns) [0..<threads]))" by simp
  show "set (concat (map (hold_share threads conns) [0..<threads])) = set [0..<conns]"
    using hold_every_connection(1) [OF assms, of conns] by (simp add: lessThan_atLeast0)
qed simp

text \<open>Established and failed connections add up to the connections asked for, each opened once.\<close>

lemma hold_totals_complete:
  assumes "0 < threads"
  shows "mset (fst (hold_totals ok threads conns)) = mset (filter ok [0..<conns])
    \<and> length (fst (hold_totals ok threads conns)) + snd (hold_totals ok threads conns) = conns"
proof -
  let ?all = "concat (map (hold_share threads conns) [0..<threads])"
  have parts: "fst (hold_totals ok threads conns) = filter ok ?all"
    "snd (hold_totals ok threads conns) = length (filter (\<lambda>i. \<not> ok i) ?all)"
    by (simp_all add: hold_totals_def hold_thread_def Let_def comp_def filter_concat length_concat)
  have "mset (filter ok ?all) = mset (filter ok [0..<conns])"
    using hold_shares_all [OF assms, of conns] by (simp only: mset_filter)
  moreover have "length ?all = conns" using mset_eq_length [OF hold_shares_all [OF assms, of conns]] by simp
  ultimately show ?thesis using sum_length_filter_compl [of ok ?all] by (simp only: parts)
qed

text \<open>The hard limit is never exceeded, and a report of 0 pipes below 64 KiB means there was none.\<close>

lemma raise_nofile_report:
  assumes "raise_nofile rc rl = (n, rl')" "rlim_cur rl \<le> rlim_max rl" "rc_get rc"
  shows "n = rlim_cur rl' \<and> rlim_cur rl \<le> n \<and> n \<le> rlim_max rl"
  using assms by (auto simp: raise_nofile_def Let_def split: if_splits)

lemma pipeprobe_loop_small:
  "pp_small (pipeprobe_loop ps r) = pp_small r + length (filter (\<lambda>(s, c). c < 65536) (map the (takeWhile (\<lambda>p. p \<noteq> None) ps)))
   \<and> pp_pipes (pipeprobe_loop ps r) = pp_pipes r + length (takeWhile (\<lambda>p. p \<noteq> None) ps)"
  by (induction ps r rule: pipeprobe_loop.induct) auto

lemma burst_complete: "sum_list (burst_pieces left) = left \<and> list_all (\<lambda>n. 0 < n \<and> n \<le> 16384) (burst_pieces left)"
proof (induction left rule: burst_pieces.induct)
  case (1 left)
  then show ?case by (subst (1 2) burst_pieces.simps) (auto simp: Let_def)
qed

text \<open>Reordering is counted per datagram that a later one overtook; no count means sorted.\<close>

lemma flood_recv_fold:
  "fold flood_recv seqs f =
     \<lparr>fl_hi = foldl max (fl_hi f) seqs, fl_received = fl_received f + length seqs,
      fl_reordered = fl_reordered f + length (filter (\<lambda>i. seqs ! i < foldl max (fl_hi f) (take i seqs)) [0..<length seqs])\<rparr>"
proof (induction seqs arbitrary: f)
  case Nil
  then show ?case by simp
next
  case (Cons s seqs)
  have "[0..<length (s # seqs)] = 0 # map Suc [0..<length seqs]" by (simp add: upt_conv_Cons map_Suc_upt del: upt_Suc)
  then have "length (filter (\<lambda>i. (s # seqs) ! i < foldl max (fl_hi f) (take i (s # seqs))) [0..<length (s # seqs)])
      = (if s < fl_hi f then 1 else 0)
        + length (filter (\<lambda>i. seqs ! i < foldl max (max (fl_hi f) s) (take i seqs)) [0..<length seqs])"
    by (simp add: filter_map comp_def)
  moreover have "fold flood_recv (s # seqs) f = fold flood_recv seqs (flood_recv s f)" by simp
  moreover have "flood_recv s f = \<lparr>fl_hi = max (fl_hi f) s, fl_received = fl_received f + 1,
      fl_reordered = fl_reordered f + (if s < fl_hi f then 1 else 0)\<rparr>"
    by (simp add: flood_recv_def max_def)
  ultimately show ?case using Cons [of "flood_recv s f"] by (simp del: upt_Suc fold_Cons length_Cons)
qed

text \<open>A flow's sender numbers its datagrams from \<open>seq\<close> on without gaps, failed sends included.\<close>

lemma flood_sender_consecutive:
  "map fst (flood_sender interval start until seq next ts)
     = [seq..<seq + length (flood_sender interval start until seq next ts)]"
proof (induction ts arbitrary: seq "next")
  case (Cons t ts)
  have "seq # [Suc seq..<Suc seq + n] = [seq..<seq + Suc n]" for n :: nat
    by (simp add: upt_conv_Cons del: upt_Suc)
  with Cons show ?case by (simp del: upt_Suc)
qed simp

text \<open>The reader counts the datagrams before its end and ends after five idle timeouts in a row.\<close>

lemma flood_reader_prefix:
  "\<exists>n \<le> length evs. fst (flood_reader idle f evs)
      = fold flood_recv (concat (map (\<lambda>e. case e of FloodDatagram q \<Rightarrow> [q] | _ \<Rightarrow> []) (take n evs))) f
    \<and> (\<not> snd (flood_reader idle f evs) \<longrightarrow> n = length evs)"
proof (induction idle f evs rule: flood_reader.induct)
  case (2 idle f seq evs)
  then obtain n where "n \<le> length evs" "fst (flood_reader 0 (flood_recv seq f) evs)
      = fold flood_recv (concat (map (\<lambda>e. case e of FloodDatagram q \<Rightarrow> [q] | _ \<Rightarrow> []) (take n evs))) (flood_recv seq f)"
    "\<not> snd (flood_reader 0 (flood_recv seq f) evs) \<longrightarrow> n = length evs" by blast
  then show ?case by (intro exI [of _ "Suc n"]) simp
next
  case (3 idle f evs)
  then obtain n where "n \<le> length evs" "fst (flood_reader idle f evs)
      = fold flood_recv (concat (map (\<lambda>e. case e of FloodDatagram q \<Rightarrow> [q] | _ \<Rightarrow> []) (take n evs))) f"
    "\<not> snd (flood_reader idle f evs) \<longrightarrow> n = length evs" by blast
  then show ?case by (intro exI [of _ "Suc n"]) simp
next
  case (4 idle f stopped evs)
  show ?case
  proof (cases "stopped \<and> 5 \<le> idle + 1")
    case False
    let ?i = "if stopped then idle + 1 else idle"
    from 4 False obtain n where "n \<le> length evs" "fst (flood_reader ?i f evs)
        = fold flood_recv (concat (map (\<lambda>e. case e of FloodDatagram q \<Rightarrow> [q] | _ \<Rightarrow> []) (take n evs))) f"
      "\<not> snd (flood_reader ?i f evs) \<longrightarrow> n = length evs" by (cases stopped) auto
    with False show ?thesis by (intro exI [of _ "Suc n"]) auto
  qed (auto intro: exI [of _ 0])
qed simp

lemma port_of_range:
  assumes "port_of base ports i = Some p" "unat base + unat ports \<le> 65536"
  shows "unat base \<le> unat p \<and> unat p < unat base + unat ports"
proof -
  have ports: "ports \<noteq> 0" "p = base + of_nat i mod ports" using assms(1) by (auto simp: port_of_def split: if_splits)
  have "unat (of_nat i mod ports) < unat ports" using ports(1) by (simp add: unat_mod unat_gt_0)
  with ports(2) assms(2) show ?thesis by (simp add: unat_word_ariths)
qed

text \<open>The probe counts the flows that answered at least once in its attempts.\<close>

lemma probe_flows_count: "probe_flows k got pending = length (filter (\<lambda>i. \<exists>a < k. got a i) pending)"
proof (induction k got pending rule: probe_flows.induct)
  case (2 k got pending)
  let ?still = "filter (\<lambda>i. \<not> got k i) pending"
  have "length pending - length ?still = length (filter (got k) pending)"
    using sum_length_filter_compl [of "got k" pending] by simp
  moreover have "length (filter (\<lambda>i. \<exists>a < Suc k. got a i) pending)
      = length (filter (got k) pending) + length (filter (\<lambda>i. \<exists>a < k. got a i) ?still)"
    by (induction pending) (auto simp: less_Suc_eq)
  ultimately show ?case using 2 by (cases "?still = []") (simp_all add: Let_def del: filter_filter filter_empty_conv)
qed simp

lemma dns_query_shape: "length (dns_query i) = 29 \<and> take 2 (dns_query i) = [ucast (drop_bit 8 i), ucast i]"
  by (simp add: dns_query_def)

lemma udprr_wait_True:
  "udprr_wait seq rs = Some True \<longleftrightarrow>
     (\<exists>pre d post. rs = pre @ Inr d # post \<and> list_all is_ok pre \<and> 2 \<le> length d
        \<and> take 2 d = [ucast (drop_bit 8 seq), ucast seq])"
proof (induction seq rs rule: udprr_wait.induct)
  case (3 seq d rs)
  show ?case
  proof (cases "2 \<le> length d \<and> take 2 d = [ucast (drop_bit 8 seq), ucast seq]")
    case True
    then have "\<exists>pre e post. Inr d # rs = pre @ Inr e # post \<and> list_all is_ok pre \<and> 2 \<le> length e
        \<and> take 2 e = [ucast (drop_bit 8 seq), ucast seq]"
      by (intro exI [of _ "[]"] exI [of _ d] exI [of _ rs]) simp
    with True show ?thesis by simp
  next
    case False
    have "(\<exists>pre e post. Inr d # rs = pre @ Inr e # post \<and> list_all is_ok pre \<and> 2 \<le> length e \<and> take 2 e = [ucast (drop_bit 8 seq), ucast seq])
      \<longleftrightarrow> (\<exists>pre e post. rs = pre @ Inr e # post \<and> list_all is_ok pre \<and> 2 \<le> length e \<and> take 2 e = [ucast (drop_bit 8 seq), ucast seq])"
      (is "?L \<longleftrightarrow> ?R")
    proof
      assume ?L
      then obtain pre e post where e: "Inr d # rs = pre @ Inr e # post" "list_all is_ok pre" "2 \<le> length e"
        "take 2 e = [ucast (drop_bit 8 seq), ucast seq]" by blast
      with False have "pre \<noteq> []" by auto
      with e show ?R by (cases pre) auto
    next
      assume ?R
      then obtain pre e post where "rs = pre @ Inr e # post" "list_all is_ok pre" "2 \<le> length e"
        "take 2 e = [ucast (drop_bit 8 seq), ucast seq]" by blast
      then show ?L by (intro exI [of _ "Inr d # pre"] exI [of _ e] exI [of _ post]) simp
    qed
    moreover have "udprr_wait seq (Inr d # rs) = udprr_wait seq rs" using False by (simp only: udprr_wait.simps if_False)
    ultimately show ?thesis using 3 [OF False] by simp
  qed
qed (auto simp: Cons_eq_append_conv)

end
