(* ===== verification/Spec2Isabelle.thy ===== *)
theory Spec2Isabelle
  imports Shutdown_Ends Process_Alerts Process_Ports Calendar Udp_Forwarder Metrics_Json Bench_Hist Bench_Echo Bench_Load
begin

text \<open>
  A verification development for the rfw port forwarder.

  \<^bold>\<open>The program.\<close> \<open>rfw\<close> forwards TCP connections and UDP datagrams from local ports to remote
  targets. \<open>main\<close> (\<open>src/src/main.rs\<close>) loads a list of forwarders and a block of settings
  (\<open>config.rs\<close>), raises the open-file limit (\<open>fdlimit.rs\<close>), builds the webhook notifier
  (\<open>notify.rs\<close>) and the manager (\<open>manager.rs\<close>), and starts one task per forwarder: a TCP accept
  loop (\<open>forwarder.rs\<close>) or a UDP engine (\<open>udp.rs\<close>). Beside each forwarder runs a monitor of its
  target (\<open>monitor.rs\<close>); all of them write one record of counters (\<open>stats.rs\<close>), which the HTTP
  endpoint (\<open>metrics.rs\<close>) prints. A watcher of the configuration file reloads the settings and
  the list at run time. The components share the counters, the live knobs, one semaphore for
  connections and one for UDP sessions, and the bounded queue of alerts.

  \<^bold>\<open>Theories.\<close>
  \<^item> \<open>Prelude\<close>, \<open>Net\<close>, \<open>F64\<close>: strings as code points, machine integers as words, saturating and
    wrapping arithmetic, durations in nanoseconds, results as sums; addresses and I/O errors;
    binary64 rounding on rationals. \<open>Ip_Parse\<close> is a model of the standard library's parser of
    address literals, which settings, forwarders, monitors and the health check call; like the
    other functions of the standard library that are written out, it corresponds to no lines of
    the repository. \<open>Gate\<close> and \<open>Permits\<close> hold the two contracts that several
    components share.
  \<^item> \<open>Config_Ports\<close> (\<open>config.rs\<close>, entries): \<open>PortSpan\<close>, the entry parser of the command line, the
    YAML entries, expansion of ranges and the duplicate check. Shown: expansion succeeds exactly
    when no endpoint is claimed twice, print and parse are inverse, both syntaxes agree, and an
    error names two entries that really clash.
  \<^item> \<open>Config_Settings\<close> (\<open>config.rs\<close>, settings) and \<open>Webhook_Url\<close>: validation, clamping, the live
    knobs (\<open>RuntimeKnobs\<close>), flags, precedence of the sources. Shown: validated settings are fixed
    points of clamping, and the knobs are safe under every sequence of reloads.
  \<^item> \<open>Stats\<close> (\<open>stats.rs\<close>): the record \<open>forwarder_stats\<close>, the rates, the evidence the monitor reads
    and the registry of labels.
  \<^item> \<open>Notify_Text\<close>, \<open>Notify\<close> (\<open>notify.rs\<close>): events, messages and the escaping of operator text;
    throttle, queue, worker, retries, shutdown. \<open>alert_step\<close> is the worker cut at its awaits. Shown: every
    alert is sent, suppressed, dropped, in delivery or queued and counted as such; admissions of
    one key are spaced; counts of suppressed repeats live for an hour; deliveries are bounded.
    \<open>Calendar\<close> shows that the date of every message is that of the Gregorian calendar.
  \<^item> \<open>Connect\<close>, \<open>Splice\<close>, \<open>Forwarder\<close> (\<open>forwarder.rs\<close>): resolution and racing connects, the
    zero-copy pump, the bind and accept loops and one connection from accept to the end.
    \<open>plane_step\<close> interleaves all connections. Shown: a reachable address is never lost, splicing
    is faithful at every moment and complete at the end, the connection limit holds.
  \<^item> \<open>Monitor\<close> (\<open>monitor.rs\<close>): probes, verdicts, the TCP and UDP ticks. Shown: unreachable alerts
    and recoveries alternate.
  \<^item> \<open>Udp_Offload\<close>, \<open>Udp_Engine\<close> (\<open>udp.rs\<close>): segmentation offload, and the engine as one record
    \<open>engine\<close> with one definition per method. \<open>Udp_Accounting\<close> shows that no datagram goes
    missing in either direction. \<open>Udp_Sessions\<close> has the step relation \<open>engine_step\<close>, one rule per
    branch of the loops and of the session task, of the end of the forwarder with its deadline and
    for a task that panics, and \<open>udp_plane_step\<close> for all engines on one semaphore; it shows the
    session limit and that the published addresses follow the resolver. \<open>Udp_Latches\<close> shows that
    bursts are never misread. \<open>Udp_Forwarder\<close> has the start, and shows what a stopped forwarder has
    given back and what it may keep past its grace period.
  \<^item> \<open>Manager\<close>, \<open>Reload\<close> (\<open>manager.rs\<close>): the table of running forwarders, \<open>sync\<close>, the watcher and
    its debounce as the step relation \<open>watch_step\<close>. Shown: a reload refines its abstract
    specification, contends for a port only with a task whose stop ran into its deadline, and no
    save is lost unless the watcher panics, which ends hot reload. Forwarders are known by their
    labels; that a label identifies its configuration is a hypothesis where it is needed, and
    \<open>ambiguous_facts\<close> shows that nothing ensures it.
  \<^item> \<open>Fd_Limits\<close> (\<open>fdlimit.rs\<close> and \<open>ensure_fd_budget\<close>), \<open>Metrics\<close> (\<open>metrics.rs\<close>: reading of requests,
    routes, the printed formats, the health check), \<open>Startup\<close> (\<open>main.rs\<close> up to the start of the
    forwarders, \<open>logging.rs\<close>). \<open>Metrics_Json\<close> reads the body of \<open>/stats\<close> with a JSON parser and gets
    back what the snapshots say.
  \<^item> \<open>Program\<close> (\<open>main.rs\<close> after the start): \<open>main\<close> and the background tasks as two step relations,
    \<open>main_step\<close> and \<open>task_step\<close>, cut at their awaits, whose interleavings are \<open>program_step\<close>; the
    list of alerts called for (\<open>pg_log\<close>) is a ghost. Shown: a shutdown that meets no reload leaves
    nothing running but tasks that outlived their deadline, and one that does may leave
    forwarders behind. \<open>Shutdown_Ends\<close>: the shutdown always ends, in a bounded number of steps and
    a bounded time. \<open>Process_Alerts\<close>: the process refines the alert machine of \<open>Notify\<close>, alert by
    alert. \<open>Process_Ports\<close>: the steps of an undisturbed reload make up \<open>reload\<close>, and no two
    forwarders claim one endpoint in any state, inside a reload too.
  \<^item> \<open>Bench_Hist\<close>, \<open>Bench_Integrity\<close>, \<open>Bench_Echo\<close>, \<open>Bench_Load\<close> (\<open>bench/rfwbench/src\<close>): the load
    generator the published measurements rest on. Shown: quantiles are order statistics up to the
    width of a bucket and the mean is exact up to rounding, the integrity check accepts exactly
    the stream that was sent, the echo backend is a faithful mirror, every request of the
    connection-rate mode is made once, latencies of the open loop are measured from the schedule.
  \<^item> This theory: what a successful start serves.

  \<^bold>\<open>Interfaces.\<close> \<open>labelled_store\<close> (the registry, \<open>stats_reg\<close>); \<open>gate\<close>, rate limiting with
  suppression counts (\<open>throttle_gate\<close> and \<open>udp_log_gate\<close>); \<open>outage\<close>, the alert discipline of a
  monitor (\<open>tcp_outage\<close> and \<open>udp_outage\<close>); \<open>permit_pool\<close>, conservation of permits (\<open>tcp_permits\<close>,
  \<open>udp_permits\<close> and \<open>metrics_permits\<close>); \<open>engine_invariant\<close>, what the handlers of a UDP engine must
  keep so that its whole drain keeps it (\<open>table\<close> and \<open>latch\<close>).

  \<^bold>\<open>Parameters.\<close> Code outside the repository is an argument: the resolver, the \<open>url\<close> crate, the
  YAML parser, the HTTP client, the file system and the environment, the file watcher, the
  limit calls, and the kernel. The kernel of a UDP engine is the record \<open>udp_kernel\<close> of functions
  on a world \<open>'w\<close>, so any behaviour of the socket calls is covered; \<open>splice\<close> answers come as a
  sequence under the documented contract of the call. Every reading of a clock is an argument of
  its own, so that two readings of the source are two values of the model.

  \<^bold>\<open>Loops and bounds.\<close> Loops that drain a socket run on the batch constants of the source
  (\<open>LISTENER_BATCH\<close>, \<open>SESSION_BATCH\<close>) and deliveries on \<open>MAX_ATTEMPTS\<close>; no further fuel is used.
  Loops that wait for events without end (bind, accept, worker, watcher) are either recursion
  over the list of answers they get, or step relations whose reachable states the properties
  speak about. Counters are words of their width and wrap or saturate as the source says.

  \<^bold>\<open>Not modelled.\<close> Every log line, the layers of the tracing subscriber and the JSON lines of the
  load generator (output only); \<open>testutil.rs\<close> and the test modules; the pointer code around \<open>sendmsg\<close>,
  \<open>recvmsg\<close>, \<open>splice\<close>, \<open>pipe2\<close>, \<open>setsockopt\<close> and \<open>epoll\<close>, whose answers are parameters (control messages
  are lists of level, type and value); the TLS setup of the HTTP client; which signal handler
  fires.
\<close>

section \<open>A successful start\<close>

lemma start_one_frame:
  "mg_conn_limit (start_one now c m) = mg_conn_limit m" "mg_udp_limit (start_one now c m) = mg_udp_limit m"
  by (simp_all add: start_one_def Let_def split: prod.split)

lemma start_all_frame:
  "mg_conn_limit (start_all now cfgs m) = mg_conn_limit m" "mg_udp_limit (start_all now cfgs m) = mg_udp_limit m"
  unfolding start_all_def by (induction cfgs arbitrary: m) (simp_all add: start_one_frame)

lemma manager_new_limits:
  "manager_new builder s al = Inr m \<Longrightarrow>
     mg_conn_limit m = conn_limit_of s \<and> mg_udp_limit m = clamp_nat 1 MAX_UDP_SESSIONS (st_udp_max_sessions s)"
  by (auto simp: manager_new_def and_then_Inr)

text \<open>
  C8. A successful start serves what was configured. The forwarders come from the environment
  when it yields any, else from the command line when it has any, else from the configuration
  file; the list is not empty and no two of its entries share a local endpoint. Of the entries
  with one label the first is running, so that all of them are, in their order, when the labels
  are distinct, which they are when no host contains \<open>>\<close>; every label has its statistics. The
  connection limit and the session limit of the semaphores are the validated settings
  themselves, and the open-file limit has not been lowered nor set above the hard limit.\<close>
theorem program_serves_configuration:
  assumes "run_start env cli now rl = Inr (m, source, settings, rl')" and "rlim_cur rl \<le> rlim_max rl"
  shows "\<exists>fwds. fwds \<noteq> [] \<and> distinct (map endpoint fwds)
     \<and> (case source of
          SrcEnv \<Rightarrow> load_env_forwarders (le_vars (se_load env)) = Inr fwds
        | SrcCli \<Rightarrow> load_env_forwarders (le_vars (se_load env)) = Inr [] \<and> cli_forwarders cli \<noteq> []
            \<and> (\<exists>specs. map parse_forwarder_spec (cli_forwarders cli) = map Inr specs \<and> fwds = concat (map fs_expand specs))
        | SrcFile \<Rightarrow> load_env_forwarders (le_vars (se_load env)) = Inr [] \<and> cli_forwarders cli = []
            \<and> (\<exists>path. cli_config_file cli = Some path \<and> load_yaml_forwarders (se_load env) path = Inr fwds)
        | SrcNone \<Rightarrow> False)
     \<and> serving m = first_by_label fwds \<and> (distinct (map fc_label fwds) \<longrightarrow> serving m = fwds)
     \<and> (list_all hosts_plain fwds \<longrightarrow> distinct (map fc_label fwds))
     \<and> set (registry_labels (mg_registry m)) = fc_label ` set fwds
     \<and> mg_conn_limit m = st_max_connections settings \<and> mg_udp_limit m = st_udp_max_sessions settings
     \<and> rlim_cur rl \<le> rlim_cur rl' \<and> rlim_cur rl' \<le> rlim_max rl"
  using assms(1)
proof (rule run_start_Inr)
  fix fwds m0 al rl1
  assume load: "load_forwarders_with_source (se_load env) cli = Inr (fwds, source)" "fwds \<noteq> []"
    and s: "load_settings (se_load env) (se_url env) cli = Inr settings"
    and rl1: "rl1 = snd (raise_soft_limit (se_rlimit env) (st_max_connections settings) (st_use_splice settings) rl)"
    and rl': "rl' = (if list_ex (\<lambda>f. fc_protocol f = Udp) fwds
            then snd (ensure_fd_budget (se_rlimit env) (st_udp_max_sessions settings) rl1) else rl1)"
    and m0: "manager_new (se_builder env) settings al = Inr m0" and m: "m = start_all now fwds m0"
  note valid = load_settings_valid [OF s] and prec = load_precedence [OF load(1)]
  have ok: "manager_ok m" and serves: "serving m = first_by_label fwds"
    using start_all_serves [of m0 now fwds] manager_new_ok [OF m0] by (simp_all add: m)
  have "set (registry_labels (mg_registry m)) = fc_label ` set fwds"
    using serving_labels [OF ok] ok first_by_label_labels [of fwds] by (metis list.set_map manager_ok_def serves)
  moreover have "mg_conn_limit m = st_max_connections settings" "mg_udp_limit m = st_udp_max_sessions settings"
    using manager_new_limits [OF m0] conn_limit_exact [OF valid] udp_limit_exact [OF valid] by (simp_all add: m start_all_frame)
  moreover have "list_all hosts_plain fwds \<longrightarrow> distinct (map fc_label fwds)"
    using prec plain_labels [of fwds] by (auto simp: distinct_map)
  ultimately show ?thesis
    using load(2) prec serves first_by_label_distinct [of fwds] run_start_limits [OF assms(2) rl1 rl']
    by (intro exI [of _ fwds]) (auto split: forwarder_source.splits)
qed

theorem program_serves_configuration_witness:
  "\<exists>m rl'. run_start sample_env sample_cli 0 \<lparr>rlim_cur = 1024, rlim_max = 4096\<rparr> = Inr (m, SrcFile, settings_default, rl')
     \<and> serving m = fs_expand sample_spec \<and> rlim_cur rl' \<le> 4096"
proof -
  obtain m rl' where r: "run_start sample_env sample_cli 0 \<lparr>rlim_cur = 1024, rlim_max = 4096\<rparr> = Inr (m, SrcFile, settings_default, rl')"
    using sample_starts by blast
  have "load_yaml_forwarders (se_load sample_env) path = Inr (fs_expand sample_spec)" for path
    by (simp add: load_yaml_forwarders_def sample_loads)
  with program_serves_configuration [OF r] r sample_plain show ?thesis by auto
qed

end
